(* ===== verification/Prelude.thy ===== *)
theory Prelude
  imports Main "HOL-Library.Word"
begin

unbundle bit_operations_syntax

text \<open>
  What every component shares: the C integer types at their width, byte-addressed memory with
  little-endian loads and stores of 1 to 8 bytes, address ranges and when they are separate, and
  the arithmetic of loop counters and addresses that do not wrap around.

  Memory is a total function from 64-bit addresses to bytes. Address arithmetic wraps at
  \<open>2 ^ 64\<close>, as \<open>uint64_t\<close> and \<open>char *\<close> arithmetic does on the target.
\<close>

section \<open>C types\<close>

type_synonym u8 = "8 word"
type_synonym u16 = "16 word"
type_synonym u32 = "32 word"
type_synonym u64 = "64 word"
type_synonym mem = "u64 \<Rightarrow> u8"

named_theorems mem_simps \<open>reading back what a store wrote, and what it left alone\<close>
named_theorems addr_arith \<open>unsigned values of addresses and counters that do not wrap\<close>

section \<open>Counters and addresses\<close>

lemma unat_lt64: "unat (x :: u64) < 2 ^ 64"
  using unsigned_less[of x] by simp

lemma unat_add_nowrap [addr_arith]:
  fixes a b :: "'a::len word"
  assumes "unat a + unat b < 2 ^ LENGTH('a)"
  shows "unat (a + b) = unat a + unat b"
  using assms by (simp add: unat_word_ariths)

lemma word_less_Suc_unat [addr_arith]:
  fixes i n :: "'a::len word"
  assumes "i < n"
  shows "unat (i + 1) = Suc (unat i)"
proof -
  have "Suc (unat i) \<le> unat n" using assms by (simp add: word_less_nat_alt Suc_leI)
  moreover have "unat n < 2 ^ LENGTH('a)" by (rule unsigned_less)
  ultimately have "unat i + unat (1 :: 'a word) < 2 ^ LENGTH('a)"
    by (simp only: unat_1 Suc_eq_plus1)
  then show ?thesis by (simp add: unat_add_nowrap)
qed

lemma word_loop_measure:
  fixes i n :: "'a::len word"
  assumes "i < n"
  shows "unat n - unat (i + 1) < unat n - unat i"
  using assms by (simp add: word_less_Suc_unat word_less_nat_alt)

lemma unat_sub_nowrap [addr_arith]:
  fixes a b :: "'a::len word"
  assumes "unat b \<le> unat a"
  shows "unat (a - b) = unat a - unat b"
  using assms by (simp add: unat_sub word_le_nat_alt)

lemma unat_Suc_pred:
  fixes i :: "'a::len word"
  assumes "i \<noteq> 0"
  shows "unat i = Suc (unat (i - 1))"
proof -
  from assms have "unat i \<noteq> 0" by (simp add: unsigned_eq_0_iff)
  with unat_minus_one[OF assms] show ?thesis by simp
qed

lemma unat_pred_less: "i \<noteq> 0 \<Longrightarrow> unat (i - 1) < unat i"
  for i :: "'a::len word"
  using unat_Suc_pred[of i] by simp

lemma uint_pos: "x \<noteq> 0 \<Longrightarrow> 0 < uint x"
  for x :: "'a::len word"
  using unsigned_greater_eq[of x, where ?'a = int] by (simp add: order_less_le unsigned_eq_0_iff)

lemma unat_of_nat_small [addr_arith]:
  assumes "n < 2 ^ LENGTH('a)"
  shows "unat (of_nat n :: 'a::len word) = n"
  using assms by (simp add: unsigned_of_nat take_bit_nat_eq_self)

lemma unat_of_nat_le: "unat (of_nat n :: 'a::len word) \<le> n"
  by (simp add: unsigned_of_nat take_bit_nat_less_eq_self)

section \<open>Loads and stores\<close>

text \<open>
  \<open>ldn n m a\<close> reads \<open>n\<close> bytes at \<open>a\<close>, least significant first; \<open>stn n m a v\<close> writes the low
  \<open>n\<close> bytes of \<open>v\<close>. The offset \<open>x - a\<close> of an address into the written range is taken modulo
  \<open>2 ^ 64\<close>, so a range may wrap around the end of the address space.
\<close>

primrec ldn :: "nat \<Rightarrow> mem \<Rightarrow> u64 \<Rightarrow> u64" where
  "ldn 0 m a = 0"
| "ldn (Suc n) m a = ucast (m a) OR push_bit 8 (ldn n m (a + 1))"

definition stn :: "nat \<Rightarrow> mem \<Rightarrow> u64 \<Rightarrow> u64 \<Rightarrow> mem" where
  "stn n m a v =
     (\<lambda>x. if unat (x - a) < n then ucast (drop_bit (8 * unat (x - a)) v) else m x)"

abbreviation ld64 :: "mem \<Rightarrow> u64 \<Rightarrow> u64" where "ld64 \<equiv> ldn 8"
abbreviation st64 :: "mem \<Rightarrow> u64 \<Rightarrow> u64 \<Rightarrow> mem" where "st64 \<equiv> stn 8"
abbreviation ld32 :: "mem \<Rightarrow> u64 \<Rightarrow> u32" where "ld32 m a \<equiv> ucast (ldn 4 m a)"
abbreviation st32 :: "mem \<Rightarrow> u64 \<Rightarrow> u32 \<Rightarrow> mem" where "st32 m a v \<equiv> stn 4 m a (ucast v)"
abbreviation ld16 :: "mem \<Rightarrow> u64 \<Rightarrow> u16" where "ld16 m a \<equiv> ucast (ldn 2 m a)"

text \<open>Evaluation of a load at a concrete address.\<close>

lemma ldn_numeral:
  "ldn (numeral k) m a = ucast (m a) OR push_bit 8 (ldn (pred_numeral k) m (a + 1))"
  by (simp add: numeral_eq_Suc)

lemma bit_ldn:
  "bit (ldn n m a) k \<longleftrightarrow> k < 64 \<and> k < 8 * n \<and> bit (m (a + of_nat (k div 8))) (k mod 8)"
proof (induction n arbitrary: a k)
  case 0
  then show ?case by simp
next
  case (Suc n)
  show ?case
  proof (cases "k < 8")
    case True
    then show ?thesis by (simp add: bit_or_iff bit_push_bit_iff bit_ucast_iff)
  next
    case False
    then obtain j where k: "k = 8 + j" using le_Suc_ex not_less by blast
    have "\<not> bit (m a) k" using False by (auto dest: bit_imp_le_length)
    moreover have "(8 + j) div 8 = Suc (j div 8)" by simp
    ultimately show ?thesis
      by (auto simp: k Suc.IH bit_or_iff bit_push_bit_iff bit_ucast_iff add.assoc simp del: div_add_self1)
  qed
qed

text \<open>Two address ranges, \<open>n\<close> bytes at \<open>a\<close> and \<open>k\<close> bytes at \<open>b\<close>, that share no byte.\<close>

definition sep :: "u64 \<Rightarrow> nat \<Rightarrow> u64 \<Rightarrow> nat \<Rightarrow> bool" where
  "sep a n b k \<longleftrightarrow> n \<le> unat (b - a) \<and> k \<le> unat (a - b)"

lemma sep_sym: "sep a n b k = sep b k a n"
  by (auto simp: sep_def)

lemma unat_diff_swap:
  fixes a b :: u64
  assumes "a \<noteq> b"
  shows "unat (a - b) + unat (b - a) = 2 ^ 64"
proof -
  have "unat a < 2 ^ 64" "unat b < 2 ^ 64"
    using unsigned_less[of a] unsigned_less[of b] by simp_all
  with assms show ?thesis by (auto simp: unat_sub_if' word_unat_eq_iff)
qed

lemma sep_offset:
  assumes "sep a n b k" and "i < k"
  shows "n \<le> unat (b + of_nat i - a)"
proof (cases "a = b")
  case True
  with assms show ?thesis by (simp add: sep_def)
next
  case False
  have "unat (b - a) + k \<le> 2 ^ 64"
    using assms(1) unat_diff_swap[OF False] by (simp add: sep_def)
  then have "unat (b - a) + unat (of_nat i :: u64) < 2 ^ LENGTH(64)"
    using assms(2) by (simp add: unat_of_nat_small)
  then have "unat ((b - a) + of_nat i) = unat (b - a) + i"
    using \<open>unat (b - a) + k \<le> 2 ^ 64\<close> assms(2) by (simp add: unat_add_nowrap unat_of_nat_small)
  moreover have "b + of_nat i - a = (b - a) + of_nat i" by simp
  ultimately have "unat (b + of_nat i - a) = unat (b - a) + i" by (simp only:)
  then show ?thesis using assms(1) by (simp add: sep_def)
qed

lemma sep_below:
  assumes "unat a + n \<le> unat b" and "unat b + k \<le> 2 ^ 64" and "0 < n"
  shows "sep a n b k"
  using assms by (auto simp: sep_def unat_sub_if' word_le_nat_alt)

lemma sep_at_offset:
  assumes "unat (a - c) + n \<le> unat (b - c)" and "unat (b - c) + k \<le> 2 ^ 64" and "0 < n"
  shows "sep a n b k"
  using sep_below[OF assms] by (simp add: sep_def)

lemma stn_other [mem_simps]: "n \<le> unat (x - a) \<Longrightarrow> stn n m a v x = m x"
  by (simp add: stn_def)

lemma ldn_cong:
  assumes "\<And>i. i < n \<Longrightarrow> m (a + of_nat i) = m' (a + of_nat i)"
  shows "ldn n m a = ldn n m' a"
  by (rule bit_eqI) (auto simp: bit_ldn assms)

lemma ldn_stn_sep [mem_simps]:
  assumes "sep a n b k"
  shows "ldn k (stn n m a v) b = ldn k m b"
  by (rule ldn_cong) (use sep_offset[OF assms] in \<open>auto simp: stn_def not_less[symmetric]\<close>)

lemma ldn_stn_same [mem_simps]:
  assumes "n \<le> 8"
  shows "ldn n (stn n m a v) a = take_bit (8 * n) v"
proof (rule bit_eqI)
  fix k assume "possible_bit TYPE(u64) k"
  then have "k < 64" by simp
  then have "k div 8 < 8" by linarith
  then have u: "unat (of_nat (k div 8) :: u64) = k div 8"
    by (intro unat_of_nat_small) simp
  have "8 * (k div 8) + k mod 8 = k" by simp
  with \<open>k < 64\<close> show "bit (ldn n (stn n m a v) a) k = bit (take_bit (8 * n) v) k"
    by (auto simp: bit_ldn stn_def u bit_take_bit_iff bit_ucast_iff bit_drop_bit_eq)
qed

lemma ld64_st64_same [mem_simps, simp]: "ld64 (st64 m a v) a = v"
  using take_bit_length_eq[of v] by (simp add: ldn_stn_same)

section \<open>The machine\<close>

text \<open>
  Accesses to devices: port input and output of each width, loads from and stores to memory-mapped
  registers, and instructions that act on the processor itself.
\<close>

datatype io =
    Out8 u16 u8 | Out16 u16 u16 | Out32 u16 u32
  | In8 u16 | In16 u16 | In32 u16
  | Rd8 u64 | Rd32 u64 | Rd64 u64
  | Wr8 u64 u8 | Wr32 u64 u32 | Wr64 u64 u64
  | Instr string

text \<open>
  The memory, where the boot loader maps physical address 0 (\<open>kernel.hhdm\<close>), and the accesses to
  devices so far. The globals of the heap, a static array and three pointers, come next, and the
  other components extend this record.
\<close>

record machine =
  ram :: mem
  hhdm :: u64
  trace :: "io list"

record kmem = machine +
  heap :: u64
  brk :: u64
  endp :: u64
  base :: u64

text \<open>
  A device is a function that gives the value of each read, from the accesses that came before it and the
  access itself; the hardware is a parameter of the definitions that use it.
\<close>

type_synonym device = "io list \<Rightarrow> io \<Rightarrow> u64"

definition io_out :: "io \<Rightarrow> 'a machine_scheme \<Rightarrow> 'a machine_scheme" where
  "io_out e s = s\<lparr>trace := trace s @ [e]\<rparr>"

definition io_in :: "device \<Rightarrow> io \<Rightarrow> 'a machine_scheme \<Rightarrow> u64 \<times> 'a machine_scheme" where
  "io_in dev e s = (dev (trace s) e, s\<lparr>trace := trace s @ [e]\<rparr>)"

lemma io_fields [simp]:
  "ram (io_out e s) = ram s" "hhdm (io_out e s) = hhdm s" "trace (io_out e s) = trace s @ [e]"
  "ram (snd (io_in dev e s)) = ram s" "hhdm (snd (io_in dev e s)) = hhdm s"
  "trace (snd (io_in dev e s)) = trace s @ [e]" "fst (io_in dev e s) = dev (trace s) e"
  by (simp_all add: io_out_def io_in_def)

section \<open>First-fit searches\<close>

text \<open>
  Many loops of the kernel look for the first index from \<open>i\<close> on that satisfies a condition.
  \<open>first_fit P i r\<close> says that \<open>r\<close> is what such a search returns.
\<close>

definition first_fit :: "(nat \<Rightarrow> bool) \<Rightarrow> nat \<Rightarrow> nat option \<Rightarrow> bool" where
  "first_fit P i r \<longleftrightarrow>
     (case r of
        Some k \<Rightarrow> i \<le> k \<and> P k \<and> (\<forall>q \<in> {i..<k}. \<not> P q)
      | None \<Rightarrow> \<forall>q \<ge> i. \<not> P q)"

lemma first_fit_Some: "first_fit P i (Some k) \<longleftrightarrow> i \<le> k \<and> P k \<and> (\<forall>q. i \<le> q \<and> q < k \<longrightarrow> \<not> P q)"
  by (auto simp: first_fit_def)

lemma first_fit_None: "first_fit P i None \<longleftrightarrow> (\<forall>q \<ge> i. \<not> P q)"
  by (simp add: first_fit_def)

lemma first_fit_here: "P i \<Longrightarrow> first_fit P i (Some i)"
  by (simp add: first_fit_def)

lemma first_fit_skip:
  assumes "first_fit P i' r" and "i \<le> i'" and none: "\<And>q. i \<le> q \<Longrightarrow> q < i' \<Longrightarrow> \<not> P q"
  shows "first_fit P i r"
proof (cases r)
  case None
  have "\<not> P q" if "i \<le> q" for q
    using none[OF that] assms(1) None by (cases "q < i'") (auto simp: first_fit_None)
  then show ?thesis by (simp add: None first_fit_None)
next
  case (Some k)
  have "\<not> P q" if "i \<le> q" "q < k" for q
    using none[OF that(1)] that assms(1) Some by (cases "q < i'") (auto simp: first_fit_Some)
  with assms(1,2) show ?thesis by (simp add: Some first_fit_Some)
qed

lemma first_fit_unique: "first_fit P i r \<Longrightarrow> first_fit P i r' \<Longrightarrow> r = r'"
  by (cases r; cases r') (auto simp: first_fit_Some first_fit_None, meson linorder_neqE_nat)

end
