(* ===== verification/CString.thy ===== *)
theory CString
  imports Prelude
begin

text \<open>
  The freestanding C library of \<^verbatim>\<open>src/src/string/\<close>: \<open>memcpy\<close>, \<open>memmove\<close>, \<open>memset\<close>,
  \<open>memcmp\<close>, \<open>strcmp\<close>, \<open>strlen\<close>, \<open>strncpy\<close> and \<open>memchr2\<close>, on byte-addressed memory. A loop bounded
  by a size is a \<open>function\<close> with a measure; a loop that runs to a terminating zero byte is a
  \<open>partial_function\<close>, whose value \<open>None\<close> means that it never returns. The lemmas give each routine's
  effect on every byte of memory, overlapping ranges included for \<open>memmove\<close>.
\<close>

section \<open>Block copies\<close>

text \<open>The two loops of \<open>memcpy\<close> and \<open>memmove\<close>: first byte first, and last byte first.\<close>

function copy_up :: "mem \<Rightarrow> u64 \<Rightarrow> u64 \<Rightarrow> u64 \<Rightarrow> u64 \<Rightarrow> mem" where
  "copy_up m dst src i sz =
     (if i < sz then copy_up (m(dst + i := m (src + i))) dst src (i + 1) sz else m)"
  by pat_completeness auto
termination
  by (relation "measure (\<lambda>(m, dst, src, i, sz). unat sz - unat i)")
    (auto intro: word_loop_measure)

function copy_down :: "mem \<Rightarrow> u64 \<Rightarrow> u64 \<Rightarrow> u64 \<Rightarrow> mem" where
  "copy_down m dst src i =
     (if i \<noteq> 0 then copy_down (m(dst + (i - 1) := m (src + (i - 1)))) dst src (i - 1) else m)"
  by pat_completeness auto
termination
  by (relation "measure (\<lambda>(m, dst, src, i). unat i)") (auto intro: unat_pred_less)

declare copy_up.simps [simp del] copy_down.simps [simp del]

definition memcpy :: "mem \<Rightarrow> u64 \<Rightarrow> u64 \<Rightarrow> u64 \<Rightarrow> mem" where
  "memcpy m dst src sz = copy_up m dst src 0 sz"

definition memmove :: "mem \<Rightarrow> u64 \<Rightarrow> u64 \<Rightarrow> u64 \<Rightarrow> mem" where
  "memmove m dst src sz =
     (if dst < src then copy_up m dst src 0 sz else copy_down m dst src sz)"

function memset_loop :: "mem \<Rightarrow> u64 \<Rightarrow> u8 \<Rightarrow> u64 \<Rightarrow> u64 \<Rightarrow> mem" where
  "memset_loop m buf value i sz =
     (if i < sz then memset_loop (m(buf + i := value)) buf value (i + 1) sz else m)"
  by pat_completeness auto
termination
  by (relation "measure (\<lambda>(m, buf, v, i, sz). unat sz - unat i)")
    (auto intro: word_loop_measure)

declare memset_loop.simps [simp del]

definition memset :: "mem \<Rightarrow> u64 \<Rightarrow> u32 \<Rightarrow> u64 \<Rightarrow> mem" where
  "memset m buf value sz = memset_loop m buf (ucast value) 0 sz"

section \<open>Comparison\<close>

function memcmp_loop :: "mem \<Rightarrow> u64 \<Rightarrow> u64 \<Rightarrow> u64 \<Rightarrow> u64 \<Rightarrow> int" where
  "memcmp_loop m a b i sz =
     (if i < sz
      then if m (a + i) < m (b + i) then -1
           else if m (b + i) < m (a + i) then 1
           else memcmp_loop m a b (i + 1) sz
      else 0)"
  by pat_completeness auto
termination
  by (relation "measure (\<lambda>(m, a, b, i, sz). unat sz - unat i)")
    (auto intro: word_loop_measure)

declare memcmp_loop.simps [simp del]

definition memcmp :: "mem \<Rightarrow> u64 \<Rightarrow> u64 \<Rightarrow> u64 \<Rightarrow> int" where
  "memcmp m a b sz = memcmp_loop m a b 0 sz"

partial_function (option) strcmp :: "mem \<Rightarrow> u64 \<Rightarrow> u64 \<Rightarrow> int option" where
  "strcmp m s1 s2 =
     (if m s1 \<noteq> 0 \<and> m s1 = m s2 then strcmp m (s1 + 1) (s2 + 1)
      else Some (uint (m s1) - uint (m s2)))"

section \<open>Strings\<close>

partial_function (option) strlen_loop :: "mem \<Rightarrow> u64 \<Rightarrow> u64 \<Rightarrow> u64 option" where
  "strlen_loop m str len =
     (if m (str + len) \<noteq> 0 then strlen_loop m str (len + 1) else Some len)"

definition strlen :: "mem \<Rightarrow> u64 \<Rightarrow> u64 option" where
  "strlen m str = strlen_loop m str 0"

partial_function (option) memchr2 :: "mem \<Rightarrow> u64 \<Rightarrow> u8 \<Rightarrow> u64 option" where
  "memchr2 m s ch =
     (if m s \<noteq> 0 then (if m s = ch then Some s else memchr2 m (s + 1) ch) else Some 0)"

function strncpy_loop :: "mem \<Rightarrow> u64 \<Rightarrow> u64 \<Rightarrow> u64 \<Rightarrow> u64 \<Rightarrow> mem" where
  "strncpy_loop m dst src i n =
     (if i \<noteq> n
      then let m' = m(dst := m src)
           in if m src \<noteq> 0 then strncpy_loop m' (dst + 1) (src + 1) (i + 1) n else m'
      else m)"
  by pat_completeness auto
termination
proof (relation "measure (\<lambda>(m, dst, src, i, n). unat (n - i))", goal_cases)
  case (2 m dst src i n)
  then have "unat ((n - i) - 1) < unat (n - i)" by (intro unat_pred_less) simp
  then show ?case by (simp add: diff_diff_eq)
qed simp

declare strncpy_loop.simps [simp del]

definition strncpy :: "mem \<Rightarrow> u64 \<Rightarrow> u64 \<Rightarrow> u64 \<Rightarrow> mem" where
  "strncpy m dst src n = strncpy_loop m dst src 0 n"

section \<open>What the block operations do\<close>

text \<open>
  \<open>copied m dst src n\<close> is \<open>m\<close> with the \<open>n\<close> bytes at \<open>dst\<close> replaced by the bytes that \<open>m\<close> holds at
  \<open>src\<close>: the simultaneous copy that \<open>memcpy\<close> and \<open>memmove\<close> promise.
\<close>

definition copied :: "mem \<Rightarrow> u64 \<Rightarrow> u64 \<Rightarrow> nat \<Rightarrow> mem" where
  "copied m dst src n = (\<lambda>x. if unat (x - dst) < n then m (src + (x - dst)) else m x)"

lemma eq_add_iff_diff: "x = a + i \<longleftrightarrow> x - a = i" for x a i :: "'a::len word"
  by (auto simp: algebra_simps)

lemma eq_add_iff_unat: "x = a + i \<longleftrightarrow> unat (x - a) = unat i" for x a i :: "'a::len word"
  by (subst eq_add_iff_diff) (rule word_unat_eq_iff)

lemma copy_no_clash:
  fixes dst src n i d :: u64
  assumes "dst = src \<or> unat n \<le> unat (dst - src)" and "unat i < unat d" and "unat d < unat n"
  shows "src + d \<noteq> dst + i"
proof
  assume h: "src + d = dst + i"
  show False
  proof (cases "dst = src")
    case True
    with h assms(2) show False by simp
  next
    case False
    from h have "dst - src = d - i" by (simp add: algebra_simps)
    then have "unat (dst - src) = unat (d - i)" by (rule arg_cong)
    also have "\<dots> = unat d - unat i" using assms(2) by (intro unat_sub_nowrap) simp
    finally show False using assms False by simp
  qed
qed

lemma copy_up_from:
  assumes "dst = src \<or> unat sz \<le> unat (dst - src)" and "i \<le> sz"
  shows "copy_up m dst src i sz (dst + d) =
    (if unat i \<le> unat d \<and> unat d < unat sz then m (src + d) else m (dst + d))"
  using assms
proof (induction m dst src i sz rule: copy_up.induct)
  case (1 m dst src i sz)
  show ?case
  proof (cases "i < sz")
    case False
    with "1.prems"(2) have "i = sz" by simp
    then show ?thesis by (auto simp: copy_up.simps[of m dst src sz sz])
  next
    case True
    let ?m = "m(dst + i := m (src + i))"
    have si: "unat (i + 1) = Suc (unat i)" using True by (rule word_less_Suc_unat)
    then have "i + 1 \<le> sz" using True by (simp add: word_le_nat_alt word_less_nat_alt)
    note IH = "1.IH"[OF True "1.prems"(1) this]
    have eq: "copy_up m dst src i sz = copy_up ?m dst src (i + 1) sz"
      using True by (subst copy_up.simps) (simp only: if_True)
    have "i < sz \<Longrightarrow> unat i < unat sz" by (simp add: word_less_nat_alt)
    moreover have "d = i \<longleftrightarrow> unat d = unat i" by (rule word_unat_eq_iff)
    ultimately show ?thesis
      using True copy_no_clash[OF "1.prems"(1), of i d] by (auto simp: eq IH si)
  qed
qed

lemma copy_down_from:
  assumes "dst = src \<or> unat i \<le> unat (src - dst)"
  shows "copy_down m dst src i (dst + d) = (if unat d < unat i then m (src + d) else m (dst + d))"
  using assms
proof (induction m dst src i rule: copy_down.induct)
  case (1 m dst src i)
  show ?case
  proof (cases "i = 0")
    case True
    then show ?thesis by (simp add: copy_down.simps[of m dst src 0])
  next
    case False
    let ?j = "i - 1" and ?m = "m(dst + (i - 1) := m (src + (i - 1)))"
    have ui: "unat i = Suc (unat ?j)"
      using False by (rule unat_Suc_pred)
    then have pre: "dst = src \<or> unat ?j \<le> unat (src - dst)" using "1.prems" by auto
    have eq: "copy_down m dst src i = copy_down ?m dst src ?j"
      using False by (subst copy_down.simps) (simp only: if_True not_False_eq_True)
    have "d = ?j \<longleftrightarrow> unat d = unat ?j" by (rule word_unat_eq_iff)
    moreover have "unat d < unat ?j \<Longrightarrow> dst + ?j \<noteq> src + d"
      using "1.prems" by (intro copy_no_clash[of src dst i]) (auto simp: ui)
    ultimately show ?thesis
      unfolding eq "1.IH"[OF False pre] ui by (auto simp: less_Suc_eq)
  qed
qed

lemma mem_ext_offset: "(\<And>d. f (a + d) = g (a + d)) \<Longrightarrow> f = g" for a :: u64
  by (rule ext) (metis add.commute diff_add_cancel)

lemma memcpy_spec:
  assumes "dst = src \<or> unat sz \<le> unat (dst - src)"
  shows "memcpy m dst src sz = copied m dst src (unat sz)"
  by (rule mem_ext_offset[of _ dst]) (simp add: memcpy_def copied_def copy_up_from[OF assms])

lemma memcpy_sep:
  "sep dst (unat sz) src (unat sz) \<Longrightarrow> memcpy m dst src sz = copied m dst src (unat sz)"
  by (rule memcpy_spec) (simp add: sep_def)

text \<open>
  C1. \<open>memmove\<close> copies correctly however the two ranges overlap: when neither range wraps around the
  end of the address space, every byte of the destination holds what the source held before the
  call, and no byte outside the destination changes.
\<close>

theorem memmove_overlap:
  assumes "unat src + unat sz \<le> 2 ^ 64" and "unat dst + unat sz \<le> 2 ^ 64"
  shows "memmove m dst src sz = copied m dst src (unat sz)"
proof (cases "dst < src")
  case True
  then have "unat sz \<le> unat (dst - src)"
    using assms(1) by (simp add: unat_sub_if' word_less_nat_alt)
  then show ?thesis
    using True memcpy_spec[of dst src sz m] by (simp add: memmove_def memcpy_def)
next
  case False
  then have "dst = src \<or> unat sz \<le> unat (src - dst)"
    using assms(2) by (auto simp: unat_sub_if' word_less_nat_alt word_unat_eq_iff)
  with False show ?thesis
    by (intro mem_ext_offset[of _ dst]) (simp add: memmove_def copied_def copy_down_from)
qed

theorem memmove_overlap_witness:
  "memmove (\<lambda>a. ucast a) 102 100 5 = copied (\<lambda>a. ucast a) 102 100 5"
proof -
  have "unat (100 :: u64) + unat (5 :: u64) \<le> 2 ^ 64" and "unat (102 :: u64) + unat (5 :: u64) \<le> 2 ^ 64"
    by simp_all
  from memmove_overlap[OF this, of "\<lambda>a. ucast a"] show ?thesis by simp
qed

lemma memset_from:
  assumes "i \<le> sz"
  shows "memset_loop m buf v i sz =
    (\<lambda>x. if unat i \<le> unat (x - buf) \<and> unat (x - buf) < unat sz then v else m x)"
  using assms
proof (induction m buf v i sz rule: memset_loop.induct)
  case (1 m buf v i sz)
  show ?case
  proof (cases "i < sz")
    case False
    with "1.prems" have "i = sz" by simp
    then show ?thesis by (auto simp: memset_loop.simps[of m buf v sz sz] fun_eq_iff)
  next
    case True
    have si: "unat (i + 1) = Suc (unat i)" using True by (rule word_less_Suc_unat)
    then have "i + 1 \<le> sz" using True by (simp add: word_le_nat_alt word_less_nat_alt)
    note IH = "1.IH"[OF True this]
    have eq: "memset_loop m buf v i sz = memset_loop (m(buf + i := v)) buf v (i + 1) sz"
      using True by (subst memset_loop.simps) (simp only: if_True)
    have "unat i < unat sz" using True by (simp add: word_less_nat_alt)
    then show ?thesis by (auto simp: eq IH si eq_add_iff_unat)
  qed
qed

lemma memset_spec:
  "memset m buf value sz = (\<lambda>x. if unat (x - buf) < unat sz then ucast value else m x)"
  by (simp add: memset_def memset_from)

section \<open>What the comparisons and string operations do\<close>

lemma memcmp_from:
  assumes "i \<le> sz"
  shows "memcmp_loop m a b i sz = 0 \<longleftrightarrow>
    (\<forall>d. unat i \<le> unat d \<and> unat d < unat sz \<longrightarrow> m (a + d) = m (b + d))"
  using assms
proof (induction m a b i sz rule: memcmp_loop.induct)
  case (1 m a b i sz)
  show ?case
  proof (cases "i < sz")
    case False
    with "1.prems" have "i = sz" by simp
    then show ?thesis by (auto simp: memcmp_loop.simps[of m a b sz sz])
  next
    case True
    have si: "unat (i + 1) = Suc (unat i)" using True by (rule word_less_Suc_unat)
    have lt: "unat i < unat sz" using True by (simp add: word_less_nat_alt)
    have step: "(\<forall>d. unat i \<le> unat d \<and> unat d < unat sz \<longrightarrow> m (a + d) = m (b + d)) \<longleftrightarrow>
        m (a + i) = m (b + i) \<and>
        (\<forall>d. Suc (unat i) \<le> unat d \<and> unat d < unat sz \<longrightarrow> m (a + d) = m (b + d))"
    proof -
      have "unat i \<le> unat d \<longleftrightarrow> d = i \<or> Suc (unat i) \<le> unat d" for d
        by (auto simp: word_unat_eq_iff)
      with lt show ?thesis by auto
    qed
    show ?thesis
    proof (cases "m (a + i) = m (b + i)")
      case False
      then have "memcmp_loop m a b i sz \<noteq> 0"
        using True by (subst memcmp_loop.simps) auto
      with False step show ?thesis by simp
    next
      case eq: True
      have "i + 1 \<le> sz" using lt si by (simp add: word_le_nat_alt)
      from "1.IH"[OF True _ _ this] eq True step show ?thesis
        by (subst memcmp_loop.simps) (simp add: si)
    qed
  qed
qed

lemma memcmp_eq_0_iff:
  "memcmp m a b sz = 0 \<longleftrightarrow> (\<forall>d. unat d < unat sz \<longrightarrow> m (a + d) = m (b + d))"
  using memcmp_from[of 0 sz m a b] by (simp add: memcmp_def)

text \<open>
  \<open>cstring m s xs\<close>: the bytes at \<open>s\<close> are the characters \<open>xs\<close>, none of them zero, and then a zero
  byte. This is the reading of a \<open>char *\<close> argument that the string routines work on.
\<close>

primrec cstring :: "mem \<Rightarrow> u64 \<Rightarrow> u8 list \<Rightarrow> bool" where
  "cstring m s [] \<longleftrightarrow> m s = 0"
| "cstring m s (x # xs) \<longleftrightarrow> m s = x \<and> x \<noteq> 0 \<and> cstring m (s + 1) xs"

lemma cstring_unique: "cstring m s xs \<Longrightarrow> cstring m s ys \<Longrightarrow> xs = ys"
proof (induction xs arbitrary: s ys)
  case Nil
  then show ?case by (cases ys) auto
next
  case (Cons x xs)
  then show ?case by (cases ys) auto
qed

lemma cstring_nth:
  "cstring m s xs \<Longrightarrow> i \<le> length xs \<Longrightarrow> m (s + of_nat i) = (xs @ [0]) ! i"
proof (induction xs arbitrary: s i)
  case (Cons x xs)
  show ?case
  proof (cases i)
    case (Suc j)
    with Cons.IH[of "s + 1" j] Cons.prems show ?thesis by (simp add: add.assoc)
  qed (use Cons.prems in simp)
qed simp

lemma strlen_loop_cstring:
  "cstring m (str + len) xs \<Longrightarrow> strlen_loop m str len = Some (len + of_nat (length xs))"
proof (induction xs arbitrary: len)
  case Nil
  then show ?case by (simp add: strlen_loop.simps)
next
  case (Cons x xs)
  then have "strlen_loop m str (len + 1) = Some (len + 1 + of_nat (length xs))"
    by (intro Cons.IH) (simp add: add.assoc)
  with Cons.prems show ?case by (subst strlen_loop.simps) (simp add: add.assoc)
qed

lemma strlen_cstring: "cstring m s xs \<Longrightarrow> strlen m s = Some (of_nat (length xs))"
  using strlen_loop_cstring[of m s 0 xs] by (simp add: strlen_def)

lemma memchr2_cstring:
  "cstring m s xs \<Longrightarrow>
   memchr2 m s ch =
     Some (if ch \<in> set xs then s + of_nat (length (takeWhile (\<lambda>x. x \<noteq> ch) xs)) else 0)"
proof (induction xs arbitrary: s)
  case Nil
  then show ?case by (simp add: memchr2.simps)
next
  case (Cons x xs)
  then show ?case by (subst memchr2.simps) (auto simp: add.assoc)
qed

lemma strcmp_cstring:
  assumes "cstring m s xs" and "cstring m t ys"
  shows "\<exists>r. strcmp m s t = Some r \<and> (r = 0 \<longleftrightarrow> xs = ys) \<and>
    (r < 0 \<longleftrightarrow> (xs, ys) \<in> lexord {(x, y). x < y})"
  using assms
proof (induction xs arbitrary: s t ys)
  case Nil
  then show ?case
    by (cases ys) (auto simp: strcmp.simps[of m s t] uint_pos unsigned_eq_0_iff)
next
  case (Cons x xs)
  show ?case
  proof (cases ys)
    case Nil
    with Cons.prems show ?thesis
      by (auto simp: strcmp.simps[of m s t] unsigned_eq_0_iff not_less)
  next
    case ys: (Cons y ys')
    show ?thesis
    proof (cases "x = y")
      case True
      with Cons.IH[of "s + 1" "t + 1" ys'] Cons.prems ys show ?thesis
        by (auto simp: strcmp.simps[of m s t])
    next
      case False
      then have "uint x \<noteq> uint y" by (simp add: word_uint_eq_iff)
      with False Cons.prems ys show ?thesis
        by (simp add: strcmp.simps[of m s t] word_less_def)
    qed
  qed
qed

lemma strcmp_eq_0_iff:
  assumes "cstring m s xs" and "cstring m t ys"
  shows "strcmp m s t = Some 0 \<longleftrightarrow> xs = ys"
  using strcmp_cstring[OF assms] by auto

text \<open>
  C2. \<open>strcmp\<close> on two terminated strings always returns, and its result orders them: zero exactly
  when they are equal, negative exactly when the first is smaller in the lexicographic order of
  unsigned bytes (a proper prefix being smaller).
\<close>

theorem strcmp_orders:
  assumes "cstring m s xs" and "cstring m t ys"
  shows "\<exists>r. strcmp m s t = Some r \<and> (r = 0 \<longleftrightarrow> xs = ys) \<and>
    (r < 0 \<longleftrightarrow> (xs, ys) \<in> lexord {(x, y). x < y})"
  using assms by (rule strcmp_cstring)

theorem strcmp_orders_witness:
  "\<exists>r. strcmp ((\<lambda>_. 0)(10 := 97, 11 := 98, 20 := 97, 21 := 99)) 10 20 = Some r \<and>
    (r = 0 \<longleftrightarrow> [97, 98 :: u8] = [97, 99]) \<and>
    (r < 0 \<longleftrightarrow> ([97, 98 :: u8], [97, 99]) \<in> lexord {(x, y). x < y})"
  by (rule strcmp_orders) simp_all

text \<open>The characters that \<open>strncpy\<close> writes: the string and its terminator, cut at \<open>n\<close>.\<close>

lemma cstring_upd:
  assumes "cstring m s xs" and "\<And>i. i \<le> length xs \<Longrightarrow> s + of_nat i \<noteq> a"
  shows "cstring (m(a := v)) s xs"
  using assms
proof (induction xs arbitrary: s)
  case Nil
  then show ?case using Nil.prems(2)[of 0] by simp
next
  case (Cons x xs)
  have "s + 1 + of_nat i \<noteq> a" if "i \<le> length xs" for i
    using Cons.prems(2)[of "Suc i"] that by (simp add: add.assoc)
  with Cons show ?case using Cons.prems(2)[of 0] by simp
qed

lemma strncpy_loop_spec:
  assumes "cstring m src xs"
    and "sep dst (Suc (length xs)) src (Suc (length xs))"
  shows "strncpy_loop m dst src j n (dst + d) =
    (if unat d < min (unat (n - j)) (Suc (length xs)) then (xs @ [0]) ! unat d else m (dst + d))"
  using assms
proof (induction xs arbitrary: m dst src j d)
  case Nil
  show ?case
  proof (cases "j = n")
    case True
    then show ?thesis by (simp add: strncpy_loop.simps[of m dst src n n])
  next
    case False
    then have "0 < unat (n - j)" by (simp add: unat_gt_0)
    with False Nil.prems(1) show ?thesis
      by (auto simp: strncpy_loop.simps[of m dst src j n] unsigned_eq_0_iff Suc_le_eq)
  qed
next
  case (Cons x xs)
  show ?case
  proof (cases "j = n")
    case True
    then show ?thesis by (simp add: strncpy_loop.simps[of m dst src n n])
  next
    case False
    then have nj: "unat (n - j) = Suc (unat (n - (j + 1)))"
      using unat_Suc_pred[of "n - j"] by (simp add: diff_diff_eq)
    let ?m = "m(dst := x)"
    have away: "sep (dst + 1) (Suc (length xs)) (src + 1) (Suc (length xs))"
      using Cons.prems(2) by (simp add: sep_def)
    have "cstring ?m (src + 1) xs"
    proof (rule cstring_upd)
      show "cstring m (src + 1) xs" using Cons.prems(1) by simp
      fix i assume i: "i \<le> length xs"
      show "src + 1 + of_nat i \<noteq> dst"
      proof
        assume "src + 1 + of_nat i = dst"
        then have "dst - src = of_nat (Suc i)" by (simp add: algebra_simps)
        then have "unat (dst - src) \<le> Suc i" by (simp only: unat_of_nat_le)
        with i Cons.prems(2) show False by (simp add: sep_def)
      qed
    qed
    note IH = Cons.IH[OF this away, where j = "j + 1" and d = "d - 1"]
    have eq: "strncpy_loop m dst src j n = strncpy_loop ?m (dst + 1) (src + 1) (j + 1) n"
      using False Cons.prems(1) by (subst strncpy_loop.simps) (simp add: Let_def)
    show ?thesis
    proof (cases "d = 0")
      case True
      have "unat (- 1 :: u64) = 2 ^ 64 - 1"
        by (simp add: unsigned_minus_1_eq_mask mask_eq_exp_minus_1)
      moreover have "Suc (length xs) < 2 ^ 64 - 1"
        using Cons.prems(2) unat_lt64[of "src - dst"] by (simp add: sep_def)
      ultimately show ?thesis using IH True Cons.prems(1) unfolding eq nj by (simp add: fun_upd_def)
    next
      case False
      then have "unat d = Suc (unat (d - 1))" by (rule unat_Suc_pred)
      with IH False show ?thesis unfolding eq nj by (simp add: fun_upd_def)
    qed
  qed
qed

text \<open>
  C3. \<open>strncpy\<close> copies the source string and its terminator, stops at \<open>n\<close> bytes, and writes nothing
  else: it does not pad the rest of the destination with zeros, as the C standard's \<open>strncpy\<close> does.
  The source is a terminated string that does not overlap the same number of bytes at the
  destination.
\<close>

theorem strncpy_copies:
  assumes "cstring m src xs"
    and "sep dst (Suc (length xs)) src (Suc (length xs))"
  shows "strncpy m dst src n =
    (\<lambda>x. if unat (x - dst) < min (unat n) (Suc (length xs)) then (xs @ [0]) ! unat (x - dst) else m x)"
  by (rule mem_ext_offset[of _ dst]) (simp add: strncpy_def strncpy_loop_spec[OF assms])

theorem strncpy_copies_witness:
  "strncpy ((\<lambda>_. 7)(100 := 97, 101 := 98, 102 := 0)) 10 100 5 =
    (\<lambda>x. if unat (x - 10) < min (unat (5 :: u64)) (Suc (length [97, 98 :: u8]))
         then ([97, 98] @ [0]) ! unat (x - 10) else ((\<lambda>_. 7)(100 := 97, 101 := 98, 102 := 0)) x)"
  by (rule strncpy_copies) (simp_all add: sep_def)

end
