(* ===== verification/Pmm.thy ===== *)
theory Pmm
  imports CString
begin

text \<open>
  The physical memory manager of \<^verbatim>\<open>src/src/mem/pmm.c\<close>: a bitmap, one bit per 4096-byte page of
  the largest usable region of the boot loader's memory map, kept in the first pages of that region
  and reached through the higher-half direct map (physical address \<open>p\<close> is at virtual address
  \<open>hhdm + p\<close>). \<open>pmm_alloc_page\<close> is a first-fit search for a run of clear bits.

  The file's globals are the fields of the record \<open>pmm\<close>; the memory and \<open>kernel.hhdm\<close> are those of
  \<open>machine\<close>, which every later component extends. Page numbers are at most \<open>2 ^ 52\<close> (a 64-bit size
  divided by 4096), so the loop counters are \<open>nat\<close>; sizes and addresses are 64-bit words.
\<close>

section \<open>State\<close>

record limine_memmap_entry =
  me_base :: u64
  me_length :: u64
  me_type :: u64

abbreviation (input) LIMINE_MEMMAP_USABLE :: u64 where "LIMINE_MEMMAP_USABLE \<equiv> 0"
abbreviation (input) LIMINE_MEMMAP_RESERVED :: u64 where "LIMINE_MEMMAP_RESERVED \<equiv> 1"
abbreviation (input) LIMINE_MEMMAP_BAD_MEMORY :: u64 where "LIMINE_MEMMAP_BAD_MEMORY \<equiv> 4"

record pmm = kmem +
  physical_base :: u64
  physical_size :: u64
  bitmap :: u64
  total_pages :: u64
  bitmap_size :: u64
  usable_base :: u64

abbreviation (input) BLOCK_SIZE :: u64 where "BLOCK_SIZE \<equiv> 4096"

section \<open>The bitmap\<close>

definition BITMAP_TEST :: "mem \<Rightarrow> u64 \<Rightarrow> nat \<Rightarrow> bool" where
  "BITMAP_TEST m bm k \<longleftrightarrow> m (bm + of_nat (k div 8)) AND push_bit (k mod 8) 1 \<noteq> 0"

definition BITMAP_SET :: "mem \<Rightarrow> u64 \<Rightarrow> nat \<Rightarrow> mem" where
  "BITMAP_SET m bm k =
     (let a = bm + of_nat (k div 8) in m(a := m a OR push_bit (k mod 8) 1))"

definition BITMAP_CLEAR :: "mem \<Rightarrow> u64 \<Rightarrow> nat \<Rightarrow> mem" where
  "BITMAP_CLEAR m bm k =
     (let a = bm + of_nat (k div 8) in m(a := m a AND NOT (push_bit (k mod 8) 1)))"

function bitmap_set_range :: "mem \<Rightarrow> u64 \<Rightarrow> nat \<Rightarrow> nat \<Rightarrow> mem" where
  "bitmap_set_range m bm k j =
     (if k < j then bitmap_set_range (BITMAP_SET m bm k) bm (Suc k) j else m)"
  by pat_completeness auto
termination by (relation "measure (\<lambda>(m, bm, k, j). j - k)") auto

function bitmap_clear_range :: "mem \<Rightarrow> u64 \<Rightarrow> nat \<Rightarrow> nat \<Rightarrow> mem" where
  "bitmap_clear_range m bm k j =
     (if k < j then bitmap_clear_range (BITMAP_CLEAR m bm k) bm (Suc k) j else m)"
  by pat_completeness auto
termination by (relation "measure (\<lambda>(m, bm, k, j). j - k)") auto

declare bitmap_set_range.simps [simp del] bitmap_clear_range.simps [simp del]

section \<open>Allocation and release\<close>

text \<open>The inner loop of \<open>pmm_alloc_page\<close>: the end of the run of clear bits that starts at \<open>j\<close>.\<close>

function run_end :: "mem \<Rightarrow> u64 \<Rightarrow> nat \<Rightarrow> nat \<Rightarrow> nat \<Rightarrow> nat" where
  "run_end m bm j lim tot =
     (if j < lim \<and> j < tot
      then if BITMAP_TEST m bm j then j else run_end m bm (Suc j) lim tot
      else j)"
  by pat_completeness auto
termination by (relation "measure (\<lambda>(m, bm, j, lim, tot). tot - j)") auto

declare run_end.simps [simp del]

lemma run_end_ge: "j \<le> run_end m bm j lim tot"
proof (induction m bm j lim tot rule: run_end.induct)
  case (1 m bm j lim tot)
  then show ?case by (subst run_end.simps) auto
qed

text \<open>The outer loop: the start of the run found, if there is one. After a run that is too short the
  search goes on behind the set bit that ended it.\<close>

function find_run :: "mem \<Rightarrow> u64 \<Rightarrow> nat \<Rightarrow> nat \<Rightarrow> nat \<Rightarrow> nat option" where
  "find_run m bm need i tot =
     (if i < tot
      then if BITMAP_TEST m bm i then find_run m bm need (Suc i) tot
           else let j = run_end m bm i (i + need) tot
                in if j = i + need then Some i else find_run m bm need (Suc j) tot
      else None)"
  by pat_completeness auto
termination
  by (relation "measure (\<lambda>(m, bm, need, i, tot). tot - i)")
    (auto intro!: diff_less_mono2 simp: le_imp_less_Suc run_end_ge)

declare find_run.simps [simp del]

definition pmm_alloc_page :: "'a pmm_scheme \<Rightarrow> u64 \<Rightarrow> u64 \<times> 'a pmm_scheme" where
  "pmm_alloc_page s sz =
     (let page_needed = unat ((sz + BLOCK_SIZE - 1) div BLOCK_SIZE)
      in case find_run (ram s) (bitmap s) page_needed 0 (unat (total_pages s)) of
           Some i \<Rightarrow>
             (physical_base s + of_nat i * BLOCK_SIZE,
              s\<lparr>ram := bitmap_set_range (ram s) (bitmap s) i (i + page_needed)\<rparr>)
         | None \<Rightarrow> (0, s))"

definition pmm_free :: "'a pmm_scheme \<Rightarrow> u64 \<Rightarrow> u64 \<Rightarrow> 'a pmm_scheme" where
  "pmm_free s addr pages =
     (if addr = 0 then s
      else let idx = (addr - physical_base s) div BLOCK_SIZE
           in s\<lparr>ram := bitmap_clear_range (ram s) (bitmap s) (unat idx) (unat (idx + pages))\<rparr>)"

section \<open>Initialisation\<close>

fun largest_usable :: "limine_memmap_entry option \<Rightarrow> limine_memmap_entry list
    \<Rightarrow> limine_memmap_entry option" where
  "largest_usable largest [] = largest"
| "largest_usable largest (entry # es) =
     largest_usable
       (if me_type entry = LIMINE_MEMMAP_USABLE then
          (case largest of
             None \<Rightarrow> Some entry
           | Some l \<Rightarrow> if me_length entry > me_length l then Some entry else largest)
        else largest) es"

text \<open>
  \<open>init_PMM\<close> dereferences \<open>largest\<close> without a check: with no usable region it faults, which is
  \<open>None\<close>. The call \<open>memset(bitmap, 0, sizeof(bitmap_size))\<close> clears the eight bytes that the variable
  \<open>bitmap_size\<close> itself occupies.
\<close>

definition init_PMM :: "limine_memmap_entry list \<Rightarrow> 'a pmm_scheme \<Rightarrow> 'a pmm_scheme option" where
  "init_PMM memmap s =
     (case largest_usable None memmap of
        None \<Rightarrow> None
      | Some largest \<Rightarrow>
          let base = me_base largest;
              tot = me_length largest div BLOCK_SIZE;
              bm = base + hhdm s;
              bmsize = (tot + 7) div 8;
              m1 = memset (ram s) bm 0 8;
              bitmap_pages = (bmsize + BLOCK_SIZE - 1) div BLOCK_SIZE;
              m2 = bitmap_set_range m1 bm 0 (unat bitmap_pages)
          in Some (s\<lparr>ram := m2, physical_base := base, physical_size := me_length largest,
                     bitmap := bm, total_pages := tot, bitmap_size := bmsize,
                     usable_base := base + bitmap_pages * BLOCK_SIZE\<rparr>))"

text \<open>The total that \<open>printMemoryMaps\<close> reports as available memory.\<close>

definition total_available :: "limine_memmap_entry list \<Rightarrow> u64" where
  "total_available memmap =
     fold (\<lambda>e tot. if me_type e = 1 then tot + me_length e else tot) memmap 0"

definition test_pmm :: "'a pmm_scheme \<Rightarrow> 'a pmm_scheme" where
  "test_pmm s =
     (let (p1, s1) = pmm_alloc_page s 1;
          (_, s2) = pmm_alloc_page s1 100;
          s3 = pmm_free s2 p1 1;
          (_, s4) = pmm_alloc_page s3 100
      in s4)"

section \<open>Bits of the bitmap\<close>

lemma BITMAP_TEST_bit: "BITMAP_TEST m bm k \<longleftrightarrow> bit (m (bm + of_nat (k div 8))) (k mod 8)"
  by (simp add: BITMAP_TEST_def bit_iff_and_push_bit_not_eq_0)

lemma bitmap_byte_eq_iff:
  assumes "i < 2 ^ 60" and "k < 2 ^ 60"
  shows "of_nat (i div 8) = (of_nat (k div 8) :: u64) \<longleftrightarrow> i div 8 = k div 8"
proof -
  have "i div 8 < 2 ^ LENGTH(64)" and "k div 8 < 2 ^ LENGTH(64)" using assms by auto
  then show ?thesis
    by (metis unat_of_nat_small)
qed

lemma bit_byte_exp: "bit (2 ^ n :: u8) i \<longleftrightarrow> i = n \<and> n < 8"
  by (auto simp: bit_exp_iff)

lemma BITMAP_TEST_SET:
  assumes "i < 2 ^ 60" and "k < 2 ^ 60"
  shows "BITMAP_TEST (BITMAP_SET m bm k) bm i \<longleftrightarrow> i = k \<or> BITMAP_TEST m bm i"
proof -
  have "i div 8 = k div 8 \<Longrightarrow> i mod 8 = k mod 8 \<Longrightarrow> i = k" by (metis div_mult_mod_eq)
  then show ?thesis
    by (auto simp: BITMAP_TEST_bit BITMAP_SET_def Let_def bitmap_byte_eq_iff[OF assms]
        bit_or_iff bit_byte_exp)
qed

lemma BITMAP_TEST_CLEAR:
  assumes "i < 2 ^ 60" and "k < 2 ^ 60"
  shows "BITMAP_TEST (BITMAP_CLEAR m bm k) bm i \<longleftrightarrow> i \<noteq> k \<and> BITMAP_TEST m bm i"
proof -
  have "i div 8 = k div 8 \<Longrightarrow> i mod 8 = k mod 8 \<Longrightarrow> i = k" by (metis div_mult_mod_eq)
  then show ?thesis
    by (auto simp: BITMAP_TEST_bit BITMAP_CLEAR_def Let_def bitmap_byte_eq_iff[OF assms]
        bit_and_iff bit_not_iff bit_byte_exp)
qed

lemma BITMAP_TEST_set_range:
  assumes "i < 2 ^ 60" and "j \<le> 2 ^ 60"
  shows "BITMAP_TEST (bitmap_set_range m bm k j) bm i \<longleftrightarrow> (k \<le> i \<and> i < j) \<or> BITMAP_TEST m bm i"
  using assms(2)
proof (induction m bm k j rule: bitmap_set_range.induct)
  case (1 m bm k j)
  show ?case
  proof (cases "k < j")
    case True
    with "1" have "BITMAP_TEST (bitmap_set_range (BITMAP_SET m bm k) bm (Suc k) j) bm i \<longleftrightarrow>
        (Suc k \<le> i \<and> i < j) \<or> BITMAP_TEST (BITMAP_SET m bm k) bm i"
      by simp
    moreover have "BITMAP_TEST (BITMAP_SET m bm k) bm i \<longleftrightarrow> i = k \<or> BITMAP_TEST m bm i"
      using True "1.prems" by (intro BITMAP_TEST_SET assms(1)) simp
    ultimately show ?thesis
      using True by (auto simp: bitmap_set_range.simps[of m bm k j])
  qed (auto simp: bitmap_set_range.simps[of m bm k j])
qed

lemma BITMAP_TEST_clear_range:
  assumes "i < 2 ^ 60" and "j \<le> 2 ^ 60"
  shows "BITMAP_TEST (bitmap_clear_range m bm k j) bm i \<longleftrightarrow> \<not> (k \<le> i \<and> i < j) \<and> BITMAP_TEST m bm i"
  using assms(2)
proof (induction m bm k j rule: bitmap_clear_range.induct)
  case (1 m bm k j)
  show ?case
  proof (cases "k < j")
    case True
    with "1" have "BITMAP_TEST (bitmap_clear_range (BITMAP_CLEAR m bm k) bm (Suc k) j) bm i \<longleftrightarrow>
        \<not> (Suc k \<le> i \<and> i < j) \<and> BITMAP_TEST (BITMAP_CLEAR m bm k) bm i"
      by simp
    moreover have "BITMAP_TEST (BITMAP_CLEAR m bm k) bm i \<longleftrightarrow> i \<noteq> k \<and> BITMAP_TEST m bm i"
      using True "1.prems" by (intro BITMAP_TEST_CLEAR assms(1)) simp
    ultimately show ?thesis
      using True by (auto simp: bitmap_clear_range.simps[of m bm k j])
  qed (auto simp: bitmap_clear_range.simps[of m bm k j])
qed

text \<open>Memory outside the bytes that hold bits below \<open>j\<close> is untouched.\<close>

lemma BITMAP_SET_frame: "k < 8 * unat (x - bm) \<Longrightarrow> BITMAP_SET m bm k x = m x"
  by (auto simp: BITMAP_SET_def Let_def dest!: order.strict_trans2[OF _ mult_le_mono2[OF unat_of_nat_le]])

lemma BITMAP_CLEAR_frame: "k < 8 * unat (x - bm) \<Longrightarrow> BITMAP_CLEAR m bm k x = m x"
  by (auto simp: BITMAP_CLEAR_def Let_def dest!: order.strict_trans2[OF _ mult_le_mono2[OF unat_of_nat_le]])

lemma bitmap_set_range_frame:
  "j \<le> 8 * unat (x - bm) \<Longrightarrow> bitmap_set_range m bm k j x = m x"
proof (induction m bm k j rule: bitmap_set_range.induct)
  case (1 m bm k j)
  then show ?case
    by (cases "k < j") (auto simp: bitmap_set_range.simps[of m bm k j] BITMAP_SET_frame)
qed

lemma bitmap_clear_range_frame:
  "j \<le> 8 * unat (x - bm) \<Longrightarrow> bitmap_clear_range m bm k j x = m x"
proof (induction m bm k j rule: bitmap_clear_range.induct)
  case (1 m bm k j)
  then show ?case
    by (cases "k < j") (auto simp: bitmap_clear_range.simps[of m bm k j] BITMAP_CLEAR_frame)
qed

section \<open>First fit\<close>

definition free_run :: "mem \<Rightarrow> u64 \<Rightarrow> nat \<Rightarrow> nat \<Rightarrow> nat \<Rightarrow> bool" where
  "free_run m bm need tot q \<longleftrightarrow> q + need \<le> tot \<and> (\<forall>k \<in> {q..<q + need}. \<not> BITMAP_TEST m bm k)"

lemma run_end_spec:
  "(\<forall>k \<in> {j..<run_end m bm j lim tot}. \<not> BITMAP_TEST m bm k) \<and>
   run_end m bm j lim tot \<le> max j (min lim tot) \<and>
   (run_end m bm j lim tot < lim \<longrightarrow> run_end m bm j lim tot < tot \<longrightarrow>
      BITMAP_TEST m bm (run_end m bm j lim tot))"
proof (induction m bm j lim tot rule: run_end.induct)
  case (1 m bm j lim tot)
  show ?case
  proof (cases "j < lim \<and> j < tot \<and> \<not> BITMAP_TEST m bm j")
    case True
    then have eq: "run_end m bm j lim tot = run_end m bm (Suc j) lim tot"
      by (simp add: run_end.simps[of m bm j lim tot])
    have "{j..<run_end m bm (Suc j) lim tot} \<subseteq> insert j {Suc j..<run_end m bm (Suc j) lim tot}"
      by auto
    with "1.IH" True show ?thesis unfolding eq by (auto 0 3 simp: max_def split: if_splits)
  next
    case False
    then have "run_end m bm j lim tot = j" by (auto simp: run_end.simps[of m bm j lim tot])
    with False show ?thesis by auto
  qed
qed

lemma find_run_first_fit:
  assumes "0 < need"
  shows "first_fit (free_run m bm need tot) i (find_run m bm need i tot)"
  using assms
proof (induction m bm need i tot rule: find_run.induct)
  case (1 m bm need i tot)
  let ?j = "run_end m bm i (i + need) tot" and ?free = "free_run m bm need tot"
  consider "tot \<le> i" | "i < tot" "BITMAP_TEST m bm i"
    | "i < tot" "\<not> BITMAP_TEST m bm i" "?j = i + need"
    | "i < tot" "\<not> BITMAP_TEST m bm i" "?j \<noteq> i + need"
    by linarith
  then show ?case
  proof cases
    case 1
    then have "\<not> ?free q" if "i \<le> q" for q using that "1.prems" by (auto simp: free_run_def)
    with 1 show ?thesis by (simp add: find_run.simps[of m bm need i] first_fit_None)
  next
    case 2
    then have "find_run m bm need i tot = find_run m bm need (Suc i) tot"
      by (simp add: find_run.simps[of m bm need i])
    moreover have "\<not> ?free i" using 2 "1.prems" by (auto simp: free_run_def)
    then have "\<not> ?free q" if "i \<le> q" "q < Suc i" for q
      using that by (cases "q = i") auto
    ultimately show ?thesis
      using first_fit_skip[OF "1.IH"(1)[OF 2 "1.prems"], of i] by simp
  next
    case 3
    have "?j \<le> max i (min (i + need) tot)" and "\<forall>k \<in> {i..<?j}. \<not> BITMAP_TEST m bm k"
      using run_end_spec by blast+
    with 3 "1.prems" have "?free i" by (auto simp: free_run_def max_def split: if_splits)
    with 3 show ?thesis by (simp add: find_run.simps[of m bm need i] first_fit_here)
  next
    case 4
    have ge: "i \<le> ?j" by (rule run_end_ge)
    have "?j \<le> max i (min (i + need) tot)" using run_end_spec by blast
    then have lt: "?j < i + need" using 4 "1.prems" by linarith
    have hit: "?j < tot \<Longrightarrow> BITMAP_TEST m bm ?j" using run_end_spec lt by blast
    have none: "\<not> ?free q" if "i \<le> q" "q < Suc ?j" for q
    proof
      assume f: "?free q"
      then have "q + need \<le> tot" and clear: "\<forall>k \<in> {q..<q + need}. \<not> BITMAP_TEST m bm k"
        by (simp_all add: free_run_def)
      then have "?j < tot" and "?j \<in> {q..<q + need}" using that lt by auto
      with clear hit show False by blast
    qed
    have "find_run m bm need i tot = find_run m bm need (Suc ?j) tot"
      using 4 by (simp add: find_run.simps[of m bm need i] Let_def)
    then show ?thesis
      using first_fit_skip[OF "1.IH"(2)[OF 4(1,2) refl 4(3) "1.prems"], of i] none ge by simp
  qed
qed

section \<open>The allocator\<close>

definition pages_of :: "u64 \<Rightarrow> nat" where
  "pages_of sz = unat ((sz + BLOCK_SIZE - 1) div BLOCK_SIZE)"

abbreviation page_count :: "'a pmm_scheme \<Rightarrow> nat" where
  "page_count s \<equiv> unat (total_pages s)"

definition page_used :: "'a pmm_scheme \<Rightarrow> nat \<Rightarrow> bool" where
  "page_used s k = BITMAP_TEST (ram s) (bitmap s) k"

definition page_addr :: "'a pmm_scheme \<Rightarrow> nat \<Rightarrow> u64" where
  "page_addr s k = physical_base s + of_nat k * BLOCK_SIZE"

definition bitmap_pages :: "'a pmm_scheme \<Rightarrow> nat" where
  "bitmap_pages s = ((page_count s + 7) div 8 + 4095) div 4096"

text \<open>
  What \<open>init_PMM\<close> establishes and every call keeps: the managed region and its image in the direct map
  lie inside the address space, the bitmap is at the start of that image, and the pages that hold the
  bitmap are never free.
\<close>

definition pmm_wf :: "'a pmm_scheme \<Rightarrow> bool" where
  "pmm_wf s \<longleftrightarrow>
     unat (hhdm s) + unat (physical_base s) + page_count s * 4096 \<le> 2 ^ 64 \<and>
     bitmap s = physical_base s + hhdm s \<and>
     (\<forall>k < bitmap_pages s. page_used s k)"

definition free_pages :: "'a pmm_scheme \<Rightarrow> nat \<Rightarrow> nat \<Rightarrow> bool" where
  "free_pages s n i \<longleftrightarrow> i + n \<le> page_count s \<and> (\<forall>k \<in> {i..<i + n}. \<not> page_used s k)"

lemma pages_of_le: "pages_of sz \<le> 2 ^ 52"
proof -
  have "unat (sz + BLOCK_SIZE - 1) < 2 ^ 64" by (rule unat_lt64)
  then show ?thesis by (simp add: pages_of_def unat_div)
qed

lemma pmm_wf_page_count: "pmm_wf s \<Longrightarrow> page_count s \<le> 2 ^ 52"
  by (simp add: pmm_wf_def)

lemma bitmap_pages_le: "bitmap_pages s \<le> page_count s"
  by (simp add: bitmap_pages_def)

lemma bitmap_pages_pos: "0 < page_count s \<Longrightarrow> 0 < bitmap_pages s"
  by (simp add: bitmap_pages_def)

lemma unat_page_addr:
  assumes "pmm_wf s" and "k < page_count s"
  shows "unat (page_addr s k) = unat (physical_base s) + k * 4096"
proof -
  have lt: "unat (physical_base s) + k * 4096 < 2 ^ 64"
    using assms by (simp add: pmm_wf_def)
  then have "unat (of_nat k * BLOCK_SIZE) = k * 4096"
    using unat_of_nat_small[of "k * 4096", where ?'a = 64] by simp
  with lt show ?thesis by (simp add: page_addr_def unat_add_nowrap)
qed

lemma page_index:
  assumes "pmm_wf s" and "k < page_count s"
  shows "unat ((page_addr s k - physical_base s) div BLOCK_SIZE) = k"
proof -
  have "unat (page_addr s k - physical_base s) = k * 4096"
    using unat_page_addr[OF assms] by (simp add: unat_sub_nowrap)
  then show ?thesis by (simp add: unat_div)
qed

lemma page_addr_nonzero:
  assumes "pmm_wf s" and "k < page_count s" and "\<not> page_used s k"
  shows "page_addr s k \<noteq> 0"
proof -
  have "k \<noteq> 0" using assms bitmap_pages_pos[of s] by (intro notI) (auto simp: pmm_wf_def)
  with unat_page_addr[OF assms(1,2)] show ?thesis by auto
qed

lemma pmm_alloc_first_fit:
  assumes "0 < pages_of sz"
  obtains (found) i where "first_fit (free_pages s (pages_of sz)) 0 (Some i)"
      and "pmm_alloc_page s sz =
        (page_addr s i, s\<lparr>ram := bitmap_set_range (ram s) (bitmap s) i (i + pages_of sz)\<rparr>)"
    | (full) "first_fit (free_pages s (pages_of sz)) 0 None" and "pmm_alloc_page s sz = (0, s)"
proof -
  have ff: "first_fit (free_pages s (pages_of sz)) 0
      (find_run (ram s) (bitmap s) (pages_of sz) 0 (page_count s))"
    using find_run_first_fit[OF assms, of "ram s" "bitmap s" "page_count s" 0]
    by (simp add: free_pages_def[abs_def] free_run_def[abs_def] page_used_def)
  show thesis
  proof (cases "find_run (ram s) (bitmap s) (pages_of sz) 0 (page_count s)")
    case None
    with ff show thesis
      by (intro full) (simp_all add: pmm_alloc_page_def pages_of_def)
  next
    case (Some i)
    with ff show thesis
      by (intro found[of i]) (simp_all add: pmm_alloc_page_def pages_of_def page_addr_def Let_def)
  qed
qed

lemma pmm_alloc_zero:
  assumes "pmm_wf s" and "0 < pages_of sz" and "pmm_alloc_page s sz = (0, s')"
  shows "s' = s"
proof (rule pmm_alloc_first_fit[OF assms(2), of s])
  fix i
  assume ff: "first_fit (free_pages s (pages_of sz)) 0 (Some i)"
    and "pmm_alloc_page s sz =
      (page_addr s i, s\<lparr>ram := bitmap_set_range (ram s) (bitmap s) i (i + pages_of sz)\<rparr>)"
  moreover have "i < page_count s" "\<not> page_used s i"
    using ff assms(2) by (auto simp: first_fit_Some free_pages_def)
  ultimately show ?thesis using page_addr_nonzero[OF assms(1)] assms(3) by auto
qed (use assms(3) in auto)

lemma page_used_after_set:
  assumes "pmm_wf s" and "k < page_count s" and "j \<le> page_count s"
  shows "page_used (s\<lparr>ram := bitmap_set_range (ram s) (bitmap s) i j\<rparr>) k \<longleftrightarrow>
    (i \<le> k \<and> k < j) \<or> page_used s k"
  using assms pmm_wf_page_count[OF assms(1)] by (simp add: page_used_def BITMAP_TEST_set_range)

lemma page_used_after_clear:
  assumes "pmm_wf s" and "k < page_count s" and "j \<le> page_count s"
  shows "page_used (s\<lparr>ram := bitmap_clear_range (ram s) (bitmap s) i j\<rparr>) k \<longleftrightarrow>
    \<not> (i \<le> k \<and> k < j) \<and> page_used s k"
  using assms pmm_wf_page_count[OF assms(1)] by (simp add: page_used_def BITMAP_TEST_clear_range)

text \<open>
  C5. \<open>pmm_alloc_page\<close> is a correct and complete first-fit allocator. If some run of the pages that
  the request needs is free, the call returns the lowest such run, a non-null address, and marks
  exactly those pages used; otherwise it returns 0 and changes nothing. No byte of memory outside
  the bitmap changes.
\<close>

theorem pmm_alloc_page_correct:
  assumes "pmm_wf s" and "0 < pages_of sz"
  shows "case pmm_alloc_page s sz of (p, s') \<Rightarrow>
    (if \<exists>i. free_pages s (pages_of sz) i
     then \<exists>i. free_pages s (pages_of sz) i \<and> (\<forall>q < i. \<not> free_pages s (pages_of sz) q) \<and>
            p = page_addr s i \<and> p \<noteq> 0 \<and>
            (\<forall>k < page_count s. page_used s' k \<longleftrightarrow> page_used s k \<or> i \<le> k \<and> k < i + pages_of sz)
     else p = 0 \<and> s' = s) \<and>
    (\<forall>x. page_count s \<le> 8 * unat (x - bitmap s) \<longrightarrow> ram s' x = ram s x)"
proof (rule pmm_alloc_first_fit[OF assms(2), of s])
  fix i
  assume ff: "first_fit (free_pages s (pages_of sz)) 0 (Some i)"
    and eq: "pmm_alloc_page s sz =
      (page_addr s i, s\<lparr>ram := bitmap_set_range (ram s) (bitmap s) i (i + pages_of sz)\<rparr>)"
  have fp: "free_pages s (pages_of sz) i" using ff by (simp add: first_fit_Some)
  then have lim: "i + pages_of sz \<le> page_count s" by (simp add: free_pages_def)
  have "i < page_count s" and "\<not> page_used s i"
    using fp assms(2) by (auto simp: free_pages_def)
  then have nz: "page_addr s i \<noteq> 0" by (rule page_addr_nonzero[OF assms(1)])
  have used: "page_used (s\<lparr>ram := bitmap_set_range (ram s) (bitmap s) i (i + pages_of sz)\<rparr>) k \<longleftrightarrow>
      page_used s k \<or> i \<le> k \<and> k < i + pages_of sz" if "k < page_count s" for k
    using page_used_after_set[OF assms(1) that lim] by blast
  have frame: "bitmap_set_range (ram s) (bitmap s) i (i + pages_of sz) x = ram s x"
    if "page_count s \<le> 8 * unat (x - bitmap s)" for x
    using that lim by (intro bitmap_set_range_frame) simp
  from ff fp nz used frame show ?thesis unfolding eq by (auto simp: first_fit_Some)
next
  assume "first_fit (free_pages s (pages_of sz)) 0 None" and "pmm_alloc_page s sz = (0, s)"
  then show ?thesis by (simp add: first_fit_None)
qed

definition ex_pmm :: pmm where
  "ex_pmm =
     \<lparr>ram = (\<lambda>_. 0)(0x80001000 := 0x35), hhdm = 0x80000000, trace = [], heap = 0, brk = 0, endp = 0, base = 0,
      physical_base = 0x1000, physical_size = 0x10000, bitmap = 0x80001000, total_pages = 16, bitmap_size = 2,
      usable_base = 0x2000\<rparr>"

lemma ex_pmm_wf: "pmm_wf ex_pmm"
  by (simp add: pmm_wf_def ex_pmm_def bitmap_pages_def page_used_def BITMAP_TEST_def)

theorem pmm_alloc_page_correct_witness:
  "pmm_wf ex_pmm \<and> 0 < pages_of 8192 \<and>
   (case pmm_alloc_page ex_pmm 8192 of (p, s') \<Rightarrow>
    (if \<exists>i. free_pages ex_pmm (pages_of 8192) i
     then \<exists>i. free_pages ex_pmm (pages_of 8192) i \<and> (\<forall>q < i. \<not> free_pages ex_pmm (pages_of 8192) q) \<and>
            p = page_addr ex_pmm i \<and> p \<noteq> 0 \<and>
            (\<forall>k < page_count ex_pmm.
               page_used s' k \<longleftrightarrow> page_used ex_pmm k \<or> i \<le> k \<and> k < i + pages_of 8192)
     else p = 0 \<and> s' = ex_pmm) \<and>
    (\<forall>x. page_count ex_pmm \<le> 8 * unat (x - bitmap ex_pmm) \<longrightarrow> ram s' x = ram ex_pmm x))"
proof -
  have "0 < pages_of 8192" by (simp add: pages_of_def)
  with pmm_alloc_page_correct[OF ex_pmm_wf this] ex_pmm_wf show ?thesis by blast
qed

lemma pmm_alloc_page_example: "fst (pmm_alloc_page ex_pmm 8192) = 0x7000"
  by (simp add: pmm_alloc_page_def ex_pmm_def find_run.simps run_end.simps BITMAP_TEST_def)

section \<open>The page-frame interface\<close>

text \<open>
  What the other components rely on when they ask for one page: a frame that was not taken before,
  given back by releasing it. \<open>reserved\<close> are the frames the provider keeps for itself.
\<close>

locale frame_source =
  fixes alloc :: "'s \<Rightarrow> u64 \<times> 's"
    and release :: "'s \<Rightarrow> u64 \<Rightarrow> 's"
    and ok :: "'s \<Rightarrow> bool"
    and taken :: "'s \<Rightarrow> u64 set"
    and reserved :: "'s \<Rightarrow> u64 set"
  assumes alloc_fresh: "ok s \<Longrightarrow> alloc s = (p, s') \<Longrightarrow> p \<noteq> 0 \<Longrightarrow>
      p \<notin> taken s \<and> taken s' = insert p (taken s) \<and> reserved s' = reserved s \<and> ok s'"
    and alloc_full: "ok s \<Longrightarrow> alloc s = (p, s') \<Longrightarrow> p = 0 \<Longrightarrow> s' = s"
    and release_taken: "ok s \<Longrightarrow> p \<in> taken s \<Longrightarrow> p \<notin> reserved s \<Longrightarrow> p \<noteq> 0 \<Longrightarrow>
      taken (release s p) = taken s - {p} \<and> reserved (release s p) = reserved s \<and> ok (release s p)"
    and reserved_taken: "ok s \<Longrightarrow> reserved s \<subseteq> taken s"
begin

lemma alloc_ok: "ok s \<Longrightarrow> alloc s = (p, s') \<Longrightarrow> ok s'"
  using alloc_fresh alloc_full by (cases "p = 0") blast+

lemma alloc_release:
  assumes "ok s" and "alloc s = (p, s')" and "p \<noteq> 0"
  shows "taken (release s' p) = taken s \<and> reserved (release s' p) = reserved s \<and> ok (release s' p)"
proof -
  from alloc_fresh[OF assms] reserved_taken[OF assms(1)]
  have "ok s'" "p \<in> taken s'" "p \<notin> reserved s'" and eq: "taken s' - {p} = taken s"
      "reserved s' = reserved s"
    by auto
  from release_taken[OF this(1-3) assms(3)] eq show ?thesis by simp
qed

lemma two_allocs_differ:
  assumes "ok s" and "alloc s = (p, s')" and "p \<noteq> 0" and "alloc s' = (q, s'')" and "q \<noteq> 0"
  shows "p \<noteq> q"
  using alloc_fresh[OF assms(1-3)] alloc_fresh[OF _ assms(4,5)] by auto

end

definition taken_frames :: "'a pmm_scheme \<Rightarrow> u64 set" where
  "taken_frames s = page_addr s ` {k. k < page_count s \<and> page_used s k}"

definition bitmap_frames :: "'a pmm_scheme \<Rightarrow> u64 set" where
  "bitmap_frames s = page_addr s ` {k. k < bitmap_pages s}"

lemma page_addr_inj:
  assumes "pmm_wf s" and "i < page_count s" and "k < page_count s"
  shows "page_addr s i = page_addr s k \<longleftrightarrow> i = k"
  using page_index[OF assms(1,2)] page_index[OF assms(1,3)] by metis

lemma page_addr_ram [simp]: "page_addr (s\<lparr>ram := m\<rparr>) = page_addr s"
  by (simp add: page_addr_def fun_eq_iff)

lemma bitmap_pages_ram [simp]: "bitmap_pages (s\<lparr>ram := m\<rparr>) = bitmap_pages s"
  by (simp add: bitmap_pages_def)

lemma pmm_wf_set:
  assumes "pmm_wf s" and "j \<le> page_count s"
  shows "pmm_wf (s\<lparr>ram := bitmap_set_range (ram s) (bitmap s) i j\<rparr>)"
proof -
  have "page_used (s\<lparr>ram := bitmap_set_range (ram s) (bitmap s) i j\<rparr>) k" if "k < bitmap_pages s" for k
    using that assms bitmap_pages_le[of s]
    by (subst page_used_after_set) (auto simp: pmm_wf_def)
  with assms show ?thesis by (simp add: pmm_wf_def)
qed

lemma pmm_wf_clear:
  assumes "pmm_wf s" and "j \<le> page_count s" and "bitmap_pages s \<le> i"
  shows "pmm_wf (s\<lparr>ram := bitmap_clear_range (ram s) (bitmap s) i j\<rparr>)"
proof -
  have "page_used (s\<lparr>ram := bitmap_clear_range (ram s) (bitmap s) i j\<rparr>) k" if "k < bitmap_pages s" for k
    using that assms bitmap_pages_le[of s]
    by (subst page_used_after_clear) (auto simp: pmm_wf_def)
  with assms show ?thesis by (simp add: pmm_wf_def)
qed

lemma pmm_free_at:
  assumes "pmm_wf s" and "i + n \<le> page_count s" and "0 < n" and "page_addr s i \<noteq> 0"
  shows "pmm_free s (page_addr s i) (of_nat n) =
    s\<lparr>ram := bitmap_clear_range (ram s) (bitmap s) i (i + n)\<rparr>"
proof -
  let ?idx = "(page_addr s i - physical_base s) div BLOCK_SIZE"
  have idx: "unat ?idx = i" using assms by (intro page_index) auto
  have "i + n < 2 ^ 64" using assms(2) pmm_wf_page_count[OF assms(1)] by simp
  then have "unat (?idx + of_nat n) = i + n"
    by (subst unat_add_nowrap) (simp_all add: idx unat_of_nat_small)
  with assms(4) idx show ?thesis by (simp add: pmm_free_def Let_def)
qed

abbreviation pmm_alloc_1 :: "'a pmm_scheme \<Rightarrow> u64 \<times> 'a pmm_scheme" where
  "pmm_alloc_1 s \<equiv> pmm_alloc_page s 4096"

abbreviation pmm_free_1 :: "'a pmm_scheme \<Rightarrow> u64 \<Rightarrow> 'a pmm_scheme" where
  "pmm_free_1 s p \<equiv> pmm_free s p 1"

lemma pages_of_4096: "pages_of 4096 = 1" and pages_of_1: "pages_of 1 = 1"
  by (simp_all add: pages_of_def)

lemma pmm_alloc_one_page:
  assumes "pmm_wf s" and "pages_of sz = 1" and "pmm_alloc_page s sz = (p, s')"
  obtains (page) i where "p = page_addr s i" "p \<noteq> 0" "i < page_count s" "\<not> page_used s i"
      "s' = s\<lparr>ram := bitmap_set_range (ram s) (bitmap s) i (Suc i)\<rparr>"
    | (none) "p = 0" "s' = s" "\<forall>k < page_count s. page_used s k"
proof (rule pmm_alloc_first_fit[of sz s])
  show "0 < pages_of sz" using assms(2) by simp
next
  fix i
  assume "first_fit (free_pages s (pages_of sz)) 0 (Some i)"
    and eq: "pmm_alloc_page s sz =
      (page_addr s i, s\<lparr>ram := bitmap_set_range (ram s) (bitmap s) i (i + pages_of sz)\<rparr>)"
  then have "i < page_count s" "\<not> page_used s i"
    using assms(2) by (auto simp: first_fit_Some free_pages_def)
  with eq assms(2,3) page_addr_nonzero[OF assms(1) this] show thesis
    by (intro page[of i]) auto
next
  assume "first_fit (free_pages s (pages_of sz)) 0 None" and "pmm_alloc_page s sz = (0, s)"
  with assms(2,3) show thesis by (intro none) (auto simp: first_fit_None free_pages_def)
qed

lemma taken_frames_set:
  assumes "pmm_wf s" and "i < page_count s"
  shows "taken_frames (s\<lparr>ram := bitmap_set_range (ram s) (bitmap s) i (Suc i)\<rparr>) =
    insert (page_addr s i) (taken_frames s)"
proof -
  have "{k. k < page_count s \<and>
      page_used (s\<lparr>ram := bitmap_set_range (ram s) (bitmap s) i (Suc i)\<rparr>) k} =
      insert i {k. k < page_count s \<and> page_used s k}"
    using assms page_used_after_set[OF assms(1), of _ "Suc i" i] by auto
  then show ?thesis by (simp add: taken_frames_def)
qed

interpretation pf: frame_source pmm_alloc_1 pmm_free_1 pmm_wf taken_frames bitmap_frames
proof (unfold_locales, goal_cases)
  case (1 s p s')
  from pmm_alloc_one_page[OF 1(1) pages_of_4096 1(2)] obtain i where
    i: "p = page_addr s i" "i < page_count s" "\<not> page_used s i"
      "s' = s\<lparr>ram := bitmap_set_range (ram s) (bitmap s) i (Suc i)\<rparr>"
    using 1(3) by metis
  have "p \<notin> taken_frames s" using i page_addr_inj[OF 1(1)] by (auto simp: taken_frames_def)
  with i 1(1) show ?case
    by (simp add: taken_frames_set pmm_wf_set bitmap_frames_def)
next
  case (2 s p s')
  from pmm_alloc_one_page[OF 2(1) pages_of_4096 2(2)] 2(3) show ?case by metis
next
  case (3 s p)
  then obtain i where i: "p = page_addr s i" "i < page_count s" "page_used s i"
    by (auto simp: taken_frames_def)
  with 3 have "bitmap_pages s \<le> i" by (auto simp: bitmap_frames_def not_less[symmetric])
  let ?s = "s\<lparr>ram := bitmap_clear_range (ram s) (bitmap s) i (Suc i)\<rparr>"
  have eq: "pmm_free s p 1 = ?s" using pmm_free_at[OF 3(1), of i 1] i 3(4) by simp
  have "{k. k < page_count s \<and> page_used ?s k} = {k. k < page_count s \<and> page_used s k} - {i}"
    using i(2) page_used_after_clear[OF 3(1), of _ "Suc i" i] by auto
  then have "taken_frames ?s = taken_frames s - {p}"
    using i page_addr_inj[OF 3(1)] by (auto simp: taken_frames_def)
  then show ?case
    using 3(1) i(2) \<open>bitmap_pages s \<le> i\<close> unfolding eq
    by (simp add: pmm_wf_clear bitmap_frames_def)
next
  case (4 s)
  then show ?case
    using bitmap_pages_le[of s] by (auto simp: bitmap_frames_def taken_frames_def pmm_wf_def)
qed

section \<open>Initialisation\<close>

abbreviation usable :: "limine_memmap_entry \<Rightarrow> bool" where
  "usable e \<equiv> me_type e = LIMINE_MEMMAP_USABLE"

lemma largest_usable_max:
  assumes "largest_usable l es = r" and "\<And>e. l = Some e \<Longrightarrow> usable e"
  shows "(case r of
      None \<Rightarrow> l = None \<and> (\<forall>e \<in> set es. \<not> usable e)
    | Some e \<Rightarrow> usable e \<and> (l = Some e \<or> e \<in> set es) \<and>
        (\<forall>e' \<in> set es. usable e' \<longrightarrow> me_length e' \<le> me_length e) \<and>
        (\<forall>e'. l = Some e' \<longrightarrow> me_length e' \<le> me_length e))"
  using assms
proof (induction es arbitrary: l)
  case Nil
  then show ?case by (auto split: option.splits)
next
  case (Cons x es)
  let ?l = "if usable x then
      (case l of None \<Rightarrow> Some x | Some y \<Rightarrow> if me_length x > me_length y then Some x else l) else l"
  have "\<And>e. ?l = Some e \<Longrightarrow> usable e"
    using Cons.prems(2) by (auto split: if_splits option.splits)
  moreover have "largest_usable ?l es = r" using Cons.prems(1) by simp
  ultimately have IH: "case r of
      None \<Rightarrow> ?l = None \<and> (\<forall>e \<in> set es. \<not> usable e)
    | Some e \<Rightarrow> usable e \<and> (?l = Some e \<or> e \<in> set es) \<and>
        (\<forall>e' \<in> set es. usable e' \<longrightarrow> me_length e' \<le> me_length e) \<and>
        (\<forall>e'. ?l = Some e' \<longrightarrow> me_length e' \<le> me_length e)"
    by (rule Cons.IH[rotated])
  show ?case
  proof (cases r)
    case None
    with IH show ?thesis by (auto split: if_splits option.splits)
  next
    case (Some e)
    with IH Cons.prems(2) show ?thesis by (auto split: if_splits option.splits)
  qed
qed

definition map_in_range :: "limine_memmap_entry list \<Rightarrow> 'a machine_scheme \<Rightarrow> bool" where
  "map_in_range memmap s \<longleftrightarrow>
     (\<forall>e \<in> set memmap. usable e \<longrightarrow>
        unat (hhdm s) + unat (me_base e) + unat (me_length e) \<le> 2 ^ 64)"

lemma init_PMM_fields:
  assumes "init_PMM memmap s = Some s'"
  obtains e where "largest_usable None memmap = Some e"
    and "total_pages s' = me_length e div BLOCK_SIZE" and "hhdm s' = hhdm s"
    and "physical_base s' = me_base e" and "physical_size s' = me_length e"
    and "bitmap s' = me_base e + hhdm s"
    and "ram s' = bitmap_set_range (memset (ram s) (me_base e + hhdm s) 0 8) (me_base e + hhdm s)
           0 (bitmap_pages s')"
    and "usable_base s' = page_addr s' (bitmap_pages s')"
proof -
  obtain e where e: "largest_usable None memmap = Some e"
    using assms by (auto simp: init_PMM_def split: option.splits)
  let ?tot = "me_length e div BLOCK_SIZE"
  have tot: "unat ?tot \<le> 2 ^ 52" using unat_lt64[of "me_length e"] by (simp add: unat_div)
  have "unat (?tot + 7) = unat ?tot + 7"
    using tot unat_add_nowrap[of ?tot 7] by simp
  then have bms: "unat ((?tot + 7) div 8) = (unat ?tot + 7) div 8" by (simp add: unat_div)
  have "unat ((?tot + 7) div 8 + 4095) = (unat ?tot + 7) div 8 + 4095"
    using tot unat_add_nowrap[of "(?tot + 7) div 8" 4095] by (simp add: bms)
  then have bmp: "unat (((?tot + 7) div 8 + 4095) div 4096) = ((unat ?tot + 7) div 8 + 4095) div 4096"
    by (simp add: unat_div)
  have "of_nat (((unat ?tot + 7) div 8 + 4095) div 4096) = ((?tot + 7) div 8 + 4095) div (4096 :: u64)"
    by (subst bmp[symmetric]) simp
  with e assms bmp show thesis
    by (intro that[of e]) (auto simp: init_PMM_def Let_def bitmap_pages_def page_addr_def
        add.commute[of 4095 "(?tot + 7) div 8"])
qed

lemma init_PMM_wf:
  assumes "map_in_range memmap s" and "init_PMM memmap s = Some s'"
  shows "pmm_wf s'"
proof (rule init_PMM_fields[OF assms(2)])
  fix e
  assume e: "largest_usable None memmap = Some e"
    and f: "total_pages s' = me_length e div BLOCK_SIZE" "hhdm s' = hhdm s"
      "physical_base s' = me_base e" "bitmap s' = me_base e + hhdm s"
      "ram s' = bitmap_set_range (memset (ram s) (me_base e + hhdm s) 0 8) (me_base e + hhdm s)
         0 (bitmap_pages s')"
  have "usable e" "e \<in> set memmap" using largest_usable_max[OF e] by simp_all
  moreover have "page_count s' * 4096 \<le> unat (me_length e)" by (simp add: f unat_div)
  ultimately have geo: "unat (hhdm s') + unat (physical_base s') + page_count s' * 4096 \<le> 2 ^ 64"
    using assms(1) by (force simp: f map_in_range_def)
  then have "page_count s' \<le> 2 ^ 52" by simp
  then have "page_used s' k" if "k < bitmap_pages s'" for k
    using that bitmap_pages_le[of s'] by (simp add: page_used_def f BITMAP_TEST_set_range)
  with geo f show ?thesis by (simp add: pmm_wf_def)
qed

text \<open>
  C6. \<open>init_PMM\<close> manages a usable region of the memory map that no other usable region exceeds in
  length, and leaves the allocator well-formed with every page of the bitmap reserved, provided the
  usable regions and their images in the direct map lie inside the address space.
\<close>

theorem init_PMM_correct:
  assumes "map_in_range memmap s" and "init_PMM memmap s = Some s'"
  shows "pmm_wf s' \<and>
    (\<exists>e \<in> set memmap. usable e \<and> physical_base s' = me_base e \<and> physical_size s' = me_length e \<and>
       (\<forall>e' \<in> set memmap. usable e' \<longrightarrow> me_length e' \<le> me_length e))"
proof (rule init_PMM_fields[OF assms(2)])
  fix e
  assume e: "largest_usable None memmap = Some e"
    and f: "physical_base s' = me_base e" "physical_size s' = me_length e"
  have "usable e \<and> e \<in> set memmap \<and> (\<forall>e' \<in> set memmap. usable e' \<longrightarrow> me_length e' \<le> me_length e)"
    using largest_usable_max[OF e] by simp
  with f init_PMM_wf[OF assms] show ?thesis by auto
qed

definition ex_memmap :: "limine_memmap_entry list" where
  "ex_memmap =
     [\<lparr>me_base = 0, me_length = 0x1000, me_type = 0\<rparr>, \<lparr>me_base = 0x1000, me_length = 0x200000, me_type = 0\<rparr>,
      \<lparr>me_base = 0x400000, me_length = 0x800000, me_type = 1\<rparr>]"

definition ex_boot :: pmm where
  "ex_boot =
     \<lparr>ram = (\<lambda>_. 0xFF), hhdm = 0x80000000, trace = [], heap = 0, brk = 0, endp = 0, base = 0,
      physical_base = 0, physical_size = 0,
      bitmap = 0, total_pages = 0, bitmap_size = 0, usable_base = 0\<rparr>"

theorem init_PMM_correct_witness:
  "\<exists>s'. init_PMM ex_memmap ex_boot = Some s' \<and> pmm_wf s' \<and>
    (\<exists>e \<in> set ex_memmap. usable e \<and> physical_base s' = me_base e \<and> physical_size s' = me_length e \<and>
       (\<forall>e' \<in> set ex_memmap. usable e' \<longrightarrow> me_length e' \<le> me_length e))"
proof -
  obtain s' where s': "init_PMM ex_memmap ex_boot = Some s'"
    by (simp add: init_PMM_def ex_memmap_def Let_def)
  moreover have "map_in_range ex_memmap ex_boot"
    by (simp add: map_in_range_def ex_memmap_def ex_boot_def)
  ultimately show ?thesis using init_PMM_correct[of ex_memmap ex_boot s'] by blast
qed

text \<open>
  C7. \<open>init_PMM\<close> clears only the first 64 bits of its bitmap, because it passes \<open>sizeof(bitmap_size)\<close>
  rather than the bitmap's size to \<open>memset\<close>: every page from 64 on (past the bitmap's own pages) counts
  as used or free according to whatever the memory held before the boot.
\<close>

theorem init_PMM_stale_bits:
  assumes "init_PMM memmap s = Some s'" and "64 \<le> k" and "bitmap_pages s' \<le> k" and "k < 2 ^ 52"
  shows "page_used s' k = BITMAP_TEST (ram s) (bitmap s') k"
proof (rule init_PMM_fields[OF assms(1)])
  fix e
  assume f: "bitmap s' = me_base e + hhdm s"
    "ram s' = bitmap_set_range (memset (ram s) (me_base e + hhdm s) 0 8) (me_base e + hhdm s)
       0 (bitmap_pages s')"
  have "k div 8 < 2 ^ LENGTH(64)" and "8 \<le> k div 8" using assms(2,4) by auto
  then have "memset (ram s) (bitmap s') 0 8 (bitmap s' + of_nat (k div 8)) =
      ram s (bitmap s' + of_nat (k div 8))"
    by (simp add: memset_spec unat_of_nat_small)
  with assms(3,4) show ?thesis
    by (simp add: page_used_def f BITMAP_TEST_set_range) (simp add: BITMAP_TEST_bit f)
qed

theorem init_PMM_stale_bits_witness:
  "\<exists>s'. init_PMM ex_memmap ex_boot = Some s' \<and> page_used s' 100 = BITMAP_TEST (ram ex_boot) (bitmap s') 100"
proof -
  obtain s' where s': "init_PMM ex_memmap ex_boot = Some s'" and "bitmap_pages s' \<le> 100"
    by (simp add: init_PMM_def ex_memmap_def Let_def bitmap_pages_def)
  then show ?thesis using init_PMM_stale_bits[OF s', of 100] by auto
qed

section \<open>Every run of the allocator\<close>

text \<open>
  The histories of the allocator after \<open>init_PMM\<close>, with the set of live allocations (address and
  number of pages): allocations that succeed or fail, releases of live allocations, and stores by
  clients through the direct map into the pages they hold.
\<close>

inductive pmm_run :: "'a pmm_scheme \<Rightarrow> (u64 \<times> nat) set \<Rightarrow> bool" where
  start: "map_in_range memmap s \<Longrightarrow> init_PMM memmap s = Some s' \<Longrightarrow> pmm_run s' {}"
| alloc: "pmm_run s live \<Longrightarrow> 0 < pages_of sz \<Longrightarrow> pmm_alloc_page s sz = (p, s') \<Longrightarrow> p \<noteq> 0 \<Longrightarrow>
    pmm_run s' (insert (p, pages_of sz) live)"
| fail: "pmm_run s live \<Longrightarrow> 0 < pages_of sz \<Longrightarrow> pmm_alloc_page s sz = (p, s') \<Longrightarrow> p = 0 \<Longrightarrow>
    pmm_run s' live"
| free: "pmm_run s live \<Longrightarrow> (p, n) \<in> live \<Longrightarrow> pmm_run (pmm_free s p (of_nat n)) (live - {(p, n)})"
| store: "pmm_run s live \<Longrightarrow> (p, n) \<in> live \<Longrightarrow> d < n * 4096 \<Longrightarrow>
    pmm_run (s\<lparr>ram := (ram s)(hhdm s + p + of_nat d := b)\<rparr>) live"

definition byte_range :: "u64 \<times> nat \<Rightarrow> nat set" where
  "byte_range a = {unat (fst a) ..< unat (fst a) + snd a * 4096}"

definition separate :: "(u64 \<times> nat) set \<Rightarrow> bool" where
  "separate live \<longleftrightarrow> pairwise (\<lambda>a b. disjnt (byte_range a) (byte_range b)) live"

text \<open>An allocation seen as a run of used pages behind the bitmap.\<close>

definition extent :: "'a pmm_scheme \<Rightarrow> u64 \<times> nat \<Rightarrow> nat \<Rightarrow> bool" where
  "extent s a i \<longleftrightarrow> fst a = page_addr s i \<and> bitmap_pages s \<le> i \<and> i + snd a \<le> page_count s \<and>
     0 < snd a \<and> (\<forall>k \<in> {i..<i + snd a}. page_used s k)"

definition live_ok :: "'a pmm_scheme \<Rightarrow> (u64 \<times> nat) set \<Rightarrow> bool" where
  "live_ok s live \<longleftrightarrow> pmm_wf s \<and> separate live \<and> (\<forall>a \<in> live. \<exists>i. extent s a i)"

lemma extent_byte_range:
  assumes "pmm_wf s" and "extent s a i"
  shows "byte_range a = {unat (physical_base s) + i * 4096 ..< unat (physical_base s) + (i + snd a) * 4096}"
  using assms unat_page_addr[OF assms(1), of i] by (simp add: byte_range_def extent_def add_mult_distrib add.assoc)

lemma extents_disjnt:
  assumes "pmm_wf s" and "extent s a i" and "extent s b j"
  shows "disjnt (byte_range a) (byte_range b) \<longleftrightarrow> i + snd a \<le> j \<or> j + snd b \<le> i"
proof
  assume d: "disjnt (byte_range a) (byte_range b)"
  show "i + snd a \<le> j \<or> j + snd b \<le> i"
  proof (rule ccontr)
    assume "\<not> ?thesis"
    then have "unat (physical_base s) + max i j * 4096 \<in> byte_range a \<inter> byte_range b"
      using assms(2,3)
      by (simp add: extent_byte_range[OF assms(1,2)] extent_byte_range[OF assms(1,3)] extent_def max_def)
    with d show False by (auto simp: disjnt_def)
  qed
next
  assume "i + snd a \<le> j \<or> j + snd b \<le> i"
  then show "disjnt (byte_range a) (byte_range b)"
    by (auto simp: extent_byte_range[OF assms(1,2)] extent_byte_range[OF assms(1,3)] disjnt_def)
qed

lemma extent_keep:
  assumes "extent s a i" and "\<And>k. i \<le> k \<Longrightarrow> k < i + snd a \<Longrightarrow> page_used s k \<Longrightarrow> page_used (s\<lparr>ram := m\<rparr>) k"
  shows "extent (s\<lparr>ram := m\<rparr>) a i"
  using assms by (simp add: extent_def)

lemma live_ok_alloc:
  assumes "live_ok s live" and "0 < pages_of sz" and "pmm_alloc_page s sz = (p, s')" and "p \<noteq> 0"
  shows "live_ok s' (insert (p, pages_of sz) live)"
proof (rule pmm_alloc_first_fit[OF assms(2), of s])
  let ?n = "pages_of sz"
  fix i
  let ?s = "s\<lparr>ram := bitmap_set_range (ram s) (bitmap s) i (i + ?n)\<rparr>"
  assume ff: "first_fit (free_pages s ?n) 0 (Some i)" and "pmm_alloc_page s sz = (page_addr s i, ?s)"
  with assms(3) have eq: "p = page_addr s i" "s' = ?s" by auto
  have wf: "pmm_wf s" using assms(1) by (simp add: live_ok_def)
  have lim: "i + ?n \<le> page_count s" and free: "\<And>k. i \<le> k \<Longrightarrow> k < i + ?n \<Longrightarrow> \<not> page_used s k"
    using ff by (auto simp: first_fit_Some free_pages_def)
  note used = page_used_after_set[OF wf _ lim]
  have "bitmap_pages s \<le> i"
    using wf free[of i] assms(2) by (auto simp: pmm_wf_def not_less[symmetric])
  then have new: "extent ?s (p, ?n) i"
    using lim assms(2) used by (simp add: extent_def eq)
  have wf': "pmm_wf ?s" by (rule pmm_wf_set[OF wf lim])
  have old: "\<exists>j. extent ?s a j \<and> (i + ?n \<le> j \<or> j + snd a \<le> i)" if a: "a \<in> live" for a
  proof -
    obtain j where j: "extent s a j" using assms(1) a unfolding live_ok_def by blast
    have "page_used ?s k" if "k < j + snd a" "page_used s k" for k
      using that j used[of k] by (simp add: extent_def)
    with j have "extent ?s a j" by (intro extent_keep) simp_all
    moreover have "i + ?n \<le> j \<or> j + snd a \<le> i"
    proof (rule ccontr)
      assume "\<not> ?thesis"
      then have "page_used s (max i j)" and "max i j < i + ?n"
        using j assms(2) by (simp_all add: extent_def)
      with free[of "max i j"] show False by simp
    qed
    ultimately show ?thesis by blast
  qed
  have dis: "disjnt (byte_range (p, ?n)) (byte_range a)" if a: "a \<in> live" for a
  proof -
    from old[OF a] obtain j where "extent ?s a j" "i + ?n \<le> j \<or> j + snd a \<le> i" by blast
    then show ?thesis using extents_disjnt[OF wf' new] by simp
  qed
  then have "disjnt (byte_range a) (byte_range (p, ?n))" if "a \<in> live" for a
    using that by (simp add: disjnt_sym)
  with dis have "separate (insert (p, ?n) live)"
    using assms(1) by (simp add: live_ok_def separate_def pairwise_insert)
  with wf' new old show ?thesis unfolding eq live_ok_def by blast
next
  assume "pmm_alloc_page s sz = (0, s)"
  with assms(3,4) show ?thesis by simp
qed

lemma live_ok_free:
  assumes "live_ok s live" and "(p, n) \<in> live"
  shows "live_ok (pmm_free s p (of_nat n)) (live - {(p, n)})"
proof -
  have wf: "pmm_wf s" using assms(1) by (simp add: live_ok_def)
  obtain i where i: "extent s (p, n) i" using assms by (auto simp: live_ok_def)
  then have lim: "i + n \<le> page_count s" and pos: "0 < n" "bitmap_pages s \<le> i" and p: "p = page_addr s i"
    by (auto simp: extent_def)
  let ?s = "s\<lparr>ram := bitmap_clear_range (ram s) (bitmap s) i (i + n)\<rparr>"
  have "i \<noteq> 0" using pos lim bitmap_pages_pos[of s] by auto
  then have "page_addr s i \<noteq> 0" using unat_page_addr[OF wf, of i] lim pos by auto
  then have eq: "pmm_free s p (of_nat n) = ?s" using pmm_free_at[OF wf lim pos(1)] p by simp
  note used = page_used_after_clear[OF wf _ lim]
  have "\<exists>j. extent ?s a j" if a: "a \<in> live - {(p, n)}" for a
  proof -
    obtain j where j: "extent s a j" using assms(1) a unfolding live_ok_def by blast
    have "disjnt (byte_range a) (byte_range (p, n))"
      using assms a by (auto simp: live_ok_def separate_def dest: pairwiseD)
    then have "j + snd a \<le> i \<or> i + n \<le> j" using extents_disjnt[OF wf j i] by simp
    then have "extent ?s a j" by (intro extent_keep[OF j]) (use j in \<open>auto simp: used extent_def\<close>)
    then show ?thesis ..
  qed
  with assms(1) pmm_wf_clear[OF wf lim pos(2)] show ?thesis unfolding eq
    by (auto simp: live_ok_def separate_def intro: pairwise_subset)
qed

lemma live_ok_write:
  assumes "live_ok s live" and "(p, n) \<in> live" and "d < n * 4096"
  shows "live_ok (s\<lparr>ram := (ram s)(hhdm s + p + of_nat d := b)\<rparr>) live"
proof -
  let ?x = "hhdm s + p + of_nat d" and ?s = "s\<lparr>ram := (ram s)(hhdm s + p + of_nat d := b)\<rparr>"
  have wf: "pmm_wf s" using assms(1) by (simp add: live_ok_def)
  obtain i where i: "extent s (p, n) i" using assms by (auto simp: live_ok_def)
  then have lim: "i + n \<le> page_count s" and pos: "bitmap_pages s \<le> i" and p: "p = page_addr s i"
    by (auto simp: extent_def)
  have off: "?x - bitmap s = of_nat (i * 4096 + d)"
    using wf by (simp add: pmm_wf_def p page_addr_def algebra_simps)
  have "i * 4096 + d < 2 ^ 64" using lim assms(3) pmm_wf_page_count[OF wf] by simp
  then have far: "unat (?x - bitmap s) = i * 4096 + d" by (simp only: off) (rule unat_of_nat_small, simp)
  have same: "page_used ?s k = page_used s k" if k: "k < page_count s" for k
  proof -
    have "k div 8 < bitmap_pages s * 4096" using k by (auto simp: bitmap_pages_def)
    then have "unat (?x - bitmap s) \<noteq> k div 8" using far pos by linarith
    moreover have "unat (of_nat (k div 8) :: u64) = k div 8"
      using k pmm_wf_page_count[OF wf] by (intro unat_of_nat_small) simp
    ultimately have "bitmap s + of_nat (k div 8) \<noteq> ?x" by (metis add_diff_cancel_left')
    then show ?thesis by (simp add: page_used_def BITMAP_TEST_bit)
  qed
  then have "pmm_wf ?s" using wf bitmap_pages_le[of s] by (simp add: pmm_wf_def)
  moreover have "extent ?s a j" if "extent s a j" for a j
    using that by (intro extent_keep) (auto simp: same extent_def)
  ultimately show ?thesis using assms(1) unfolding live_ok_def by fast
qed

lemma pmm_run_live_ok: "pmm_run s live \<Longrightarrow> live_ok s live"
proof (induction rule: pmm_run.induct)
  case (start memmap s s')
  then show ?case using init_PMM_wf by (simp add: live_ok_def separate_def)
next
  case (alloc s live sz p s')
  then show ?case by (intro live_ok_alloc)
next
  case (fail s live sz p s')
  then have "s' = s" using pmm_alloc_zero[of s sz s'] by (simp add: live_ok_def)
  with fail show ?case by simp
next
  case (free s live p n)
  then show ?case by (intro live_ok_free)
next
  case (store s live p n d b)
  then show ?case by (intro live_ok_write)
qed

text \<open>
  C4. In every run of the physical allocator from \<open>init_PMM\<close> on, whatever the order of allocations,
  failed allocations, releases and stores through the direct map, the live allocations occupy
  pairwise disjoint ranges of physical memory, all inside the managed region and behind the pages of
  the bitmap.
\<close>

theorem pmm_run_separate:
  assumes "pmm_run s live"
  shows "separate live \<and>
    (\<forall>a \<in> live. byte_range a \<subseteq>
       {unat (physical_base s) + bitmap_pages s * 4096 ..< unat (physical_base s) + page_count s * 4096})"
proof -
  have ok: "live_ok s live" by (rule pmm_run_live_ok[OF assms])
  have "byte_range a \<subseteq>
      {unat (physical_base s) + bitmap_pages s * 4096 ..< unat (physical_base s) + page_count s * 4096}"
    if a: "a \<in> live" for a
  proof -
    obtain i where i: "extent s a i" using ok a unfolding live_ok_def by blast
    have "pmm_wf s" using ok by (simp add: live_ok_def)
    from extent_byte_range[OF this i] i show ?thesis by (simp add: extent_def)
  qed
  with ok show ?thesis by (simp add: live_ok_def)
qed

definition ex_small :: "limine_memmap_entry list" where
  "ex_small = [\<lparr>me_base = 0x1000, me_length = 0x8000, me_type = 0\<rparr>]"

lemma ex_run:
  "\<exists>s. pmm_run (s :: pmm) {(0x2000, 1), (0x3000, 2)}"
proof -
  obtain s0 where s0: "init_PMM ex_small ex_boot = Some s0" by (simp add: init_PMM_def ex_small_def Let_def)
  have r0: "pmm_run s0 {}"
    by (rule pmm_run.start[OF _ s0]) (simp add: map_in_range_def ex_small_def ex_boot_def)
  have f: "bitmap s0 = 0x80001000" "total_pages s0 = 8" "physical_base s0 = 0x1000"
      "ram s0 0x80001000 = 1"
    using s0 by (auto simp: init_PMM_def ex_small_def ex_boot_def Let_def bitmap_set_range.simps
        BITMAP_SET_def memset_def memset_loop.simps)
  define s1 where "s1 = snd (pmm_alloc_page s0 1)"
  have "pmm_alloc_page s0 1 = (0x2000, s1)" "bitmap s1 = 0x80001000" "total_pages s1 = 8"
      "physical_base s1 = 0x1000" "ram s1 0x80001000 = 3"
    by (simp_all add: s1_def pmm_alloc_page_def f find_run.simps run_end.simps BITMAP_TEST_def
        bitmap_set_range.simps BITMAP_SET_def)
  note a1 = this
  define s2 where "s2 = snd (pmm_alloc_page s1 8192)"
  have a2: "pmm_alloc_page s1 8192 = (0x3000, s2)"
    by (simp add: s2_def pmm_alloc_page_def a1 find_run.simps run_end.simps BITMAP_TEST_def)
  have "pmm_run s1 (insert (0x2000, pages_of 1) {})"
    by (rule pmm_run.alloc[OF r0 _ a1(1)]) (simp_all add: pages_of_def)
  from pmm_run.alloc[OF this _ a2] have "pmm_run s2 (insert (0x3000, pages_of 8192) {(0x2000, pages_of 1)})"
    by (simp add: pages_of_def)
  then show ?thesis by (auto simp: pages_of_def insert_commute)
qed

theorem pmm_run_separate_witness:
  "\<exists>s :: pmm. pmm_run s {(0x2000, 1), (0x3000, 2)} \<and> separate {(0x2000, 1), (0x3000, 2)} \<and>
    (\<forall>a \<in> {(0x2000, 1), (0x3000, 2)}. byte_range a \<subseteq>
       {unat (physical_base s) + bitmap_pages s * 4096 ..< unat (physical_base s) + page_count s * 4096})"
  using ex_run pmm_run_separate by blast

text \<open>
  A request of 0 bytes, or of more than \<open>2 ^ 64 - 4096\<close>, needs no pages by the rounding of
  \<open>pmm_alloc_page\<close>: as soon as one page is free the call returns its address without reserving it, so
  the next caller is given the same page.
\<close>

theorem pmm_alloc_page_zero:
  assumes "pages_of sz = 0" and "k < page_count s" and "\<not> page_used s k"
    and "\<forall>j < k. page_used s j"
  shows "pmm_alloc_page s sz = (page_addr s k, s)"
proof -
  have "find_run (ram s) (bitmap s) 0 i (page_count s) = Some k" if "i \<le> k" for i
    using that
  proof (induction "k - i" arbitrary: i)
    case 0
    with assms show ?case
      by (simp add: find_run.simps run_end.simps page_used_def)
  next
    case (Suc n)
    then have "find_run (ram s) (bitmap s) 0 (Suc i) (page_count s) = Some k" by simp
    moreover have "page_used s i" using assms(4) Suc by simp
    ultimately show ?case using Suc assms(2)
      by (subst find_run.simps) (simp add: page_used_def)
  qed
  from this[of 0] assms(1) show ?thesis
    by (simp add: pmm_alloc_page_def pages_of_def page_addr_def bitmap_set_range.simps)
qed

theorem pmm_alloc_page_zero_witness: "pmm_alloc_page ex_pmm 0 = (0x2000, ex_pmm)"
proof -
  have "pages_of 0 = 0" by (simp add: pages_of_def)
  moreover have "\<not> page_used ex_pmm 1" "\<forall>j < 1. page_used ex_pmm j" "1 < page_count ex_pmm"
    by (simp_all add: page_used_def ex_pmm_def BITMAP_TEST_def)
  ultimately have "pmm_alloc_page ex_pmm 0 = (page_addr ex_pmm 1, ex_pmm)"
    by (intro pmm_alloc_page_zero)
  then show ?thesis by (simp add: page_addr_def ex_pmm_def)
qed

end
