(* ===== verification/Paging.thy ===== *)
theory Paging
  imports Pmm
begin

text \<open>
  The four-level page tables of \<^verbatim>\<open>mem/paging.c\<close>. The tables live in page frames that
  the physical allocator hands out and are read and written through the direct map, so the model keeps
  them in the same byte memory as everything else.

  A \<open>PageEntry\<close> is the 64-bit word that its bit fields occupy: flags in bits 0 to 8, \<open>avl1\<close> in
  9 to 11, the frame number in 12 to 51, \<open>avl2\<close> in 52 to 62, \<open>no_execute\<close> in bit 63. The shift
  \<open>physical_address << 12\<close> is taken in the declared type \<open>uintptr_t\<close>; for physical addresses below
  \<open>2 ^ 40\<close>, which the theorems ask for, a compiler that shifts at the width of the field computes
  the same. \<open>invlpg\<close> and the load of CR3 have no effect on memory: the model keeps the value of
  \<open>kernel.cr3\<close>. \<open>NULL\<close> is the address 0.
\<close>

section \<open>State\<close>

record vmm = pmm +
  PML4 :: u64
  cr3 :: u64
  kernel_virtual_base :: u64
  kernel_physical_base :: u64

text \<open>The symbols that the linker script places around the kernel image.\<close>

record kernel_image =
  p_kernel_start :: u64
  p_writeallowed_start :: u64
  p_kernel_end :: u64

section \<open>Page table entries\<close>

text \<open>Assignment of the value \<open>v\<close> to the bit field of width \<open>w\<close> at bit \<open>i\<close>.\<close>

definition put_field :: "nat \<Rightarrow> nat \<Rightarrow> u64 \<Rightarrow> u64 \<Rightarrow> u64" where
  "put_field i w v e = (e AND NOT (push_bit i (mask w))) OR push_bit i (take_bit w v)"

definition entry_present :: "u64 \<Rightarrow> bool" where
  "entry_present e = bit e 0"

definition entry_physical_address :: "u64 \<Rightarrow> u64" where
  "entry_physical_address e = take_bit 40 (drop_bit 12 e)"

definition flag_bit :: "u8 \<Rightarrow> u32 \<Rightarrow> u64" where
  "flag_bit flags m = (if (ucast flags :: u32) AND m \<noteq> 0 then 1 else 0)"

definition setPageTableEntry :: "u64 \<Rightarrow> u8 \<Rightarrow> u64 \<Rightarrow> u16 \<Rightarrow> u64" where
  "setPageTableEntry entry flags physical_address available =
     (let e0 = put_field 0 1 (flag_bit flags 1) entry;
          e1 = put_field 1 1 (flag_bit flags 2) e0;
          e2 = put_field 2 1 (flag_bit flags 4) e1;
          e3 = put_field 3 1 (flag_bit flags 8) e2;
          e4 = put_field 4 1 (flag_bit flags 16) e3;
          e5 = put_field 5 1 0 e4;
          e6 = put_field 6 1 0 e5;
          e7 = put_field 8 1 (flag_bit flags 256) e6;
          e8 = put_field 9 3 (ucast (available AND 3)) e7;
          e9 = put_field 12 40 (drop_bit 12 physical_address) e8;
          e10 = put_field 52 11 (ucast (drop_bit 3 available)) e9
      in put_field 63 1 (flag_bit flags 512) e10)"

section \<open>Operations\<close>

definition phys_to_virt :: "'a vmm_scheme \<Rightarrow> u64 \<Rightarrow> u64" where
  "phys_to_virt s phys = phys + hhdm s"

abbreviation entry_at :: "'a vmm_scheme \<Rightarrow> u64 \<Rightarrow> u64 \<Rightarrow> u64" where
  "entry_at s table index \<equiv> ld64 (ram s) (table + 8 * index)"

definition next_table :: "'a vmm_scheme \<Rightarrow> u64 \<Rightarrow> u64" where
  "next_table s e = phys_to_virt s (push_bit 12 (entry_physical_address e))"

definition pt_idx :: "u64 \<Rightarrow> u64" where "pt_idx v = drop_bit 12 v AND 0x1FF"
definition pd_idx :: "u64 \<Rightarrow> u64" where "pd_idx v = drop_bit 21 v AND 0x1FF"
definition pdp_idx :: "u64 \<Rightarrow> u64" where "pdp_idx v = drop_bit 30 v AND 0x1FF"
definition pml4_idx :: "u64 \<Rightarrow> u64" where "pml4_idx v = drop_bit 39 v AND 0x1FF"

definition getPhysicalAddress :: "'a vmm_scheme \<Rightarrow> u64 \<Rightarrow> u64" where
  "getPhysicalAddress s virt_add =
     (let offset = virt_add AND 0xFFF;
          e4 = entry_at s (PML4 s) (pml4_idx virt_add)
      in if \<not> entry_present e4 then 0
         else let e3 = entry_at s (next_table s e4) (pdp_idx virt_add)
              in if \<not> entry_present e3 then 0
                 else let e2 = entry_at s (next_table s e3) (pd_idx virt_add)
                      in if \<not> entry_present e2 then 0
                         else let e1 = entry_at s (next_table s e2) (pt_idx virt_add)
                              in if \<not> entry_present e1 then 0
                                 else push_bit 12 (entry_physical_address e1) + offset)"

definition virt_to_phys :: "'a vmm_scheme \<Rightarrow> u64 \<Rightarrow> u64" where
  "virt_to_phys s addr =
     (if addr \<ge> hhdm s then addr - hhdm s
      else if addr \<ge> kernel_virtual_base s
           then addr - (kernel_virtual_base s - kernel_physical_base s)
           else getPhysicalAddress s addr)"

definition allocateEntry :: "'a vmm_scheme \<Rightarrow> u64 \<Rightarrow> u64 \<Rightarrow> u8 \<Rightarrow> u64 \<times> 'a vmm_scheme" where
  "allocateEntry s table index flags =
     (let (phys, s1) = pmm_alloc_page s 1
      in if phys = 0 then (0, s1)
         else let m1 = memset (ram s1) (phys_to_virt s1 phys) 0 4096;
                  slot = table + 8 * index;
                  m2 = st64 m1 slot (setPageTableEntry (ld64 m1 slot) (flags OR 1 OR 2) phys 0)
              in (phys, s1\<lparr>ram := m2\<rparr>))"

text \<open>One level of the descent of \<open>map_page\<close>: allocate the table below if there is none (the result of
  \<open>allocateEntry\<close> is not looked at), then read its address from the entry.\<close>

definition descend :: "'a vmm_scheme \<Rightarrow> u64 \<Rightarrow> u64 \<Rightarrow> u64 \<times> 'a vmm_scheme" where
  "descend s table index =
     (let s1 = (if \<not> entry_present (entry_at s table index)
                then snd (allocateEntry s table index 2) else s)
      in (next_table s1 (entry_at s1 table index), s1))"

text \<open>The body of the loop of \<open>map_page\<close>. \<open>setPageTableEntry\<close> takes the flags as \<open>uint8_t\<close>.\<close>

definition map_one :: "'a vmm_scheme \<Rightarrow> u64 \<Rightarrow> u64 \<Rightarrow> u64 \<Rightarrow> 'a vmm_scheme" where
  "map_one s vir phy flags =
     (let (pdp, s1) = descend s (PML4 s) (pml4_idx vir);
          (pd, s2) = descend s1 pdp (pdp_idx vir);
          (pt, s3) = descend s2 pd (pd_idx vir);
          slot = pt + 8 * pt_idx vir
      in s3\<lparr>ram := st64 (ram s3) slot (setPageTableEntry (ld64 (ram s3) slot) (ucast flags) phy 0)\<rparr>)"

definition map_page :: "'a vmm_scheme \<Rightarrow> u64 \<Rightarrow> u64 \<Rightarrow> u64 \<Rightarrow> u64 \<Rightarrow> 'a vmm_scheme" where
  "map_page s virt phys flags num_pages =
     fold (\<lambda>i s. map_one s (virt + of_nat i * 4096) (phys + of_nat i * 4096) flags)
       [0..<unat num_pages] s"

definition map_kernel :: "kernel_image \<Rightarrow> 'a vmm_scheme \<Rightarrow> 'a vmm_scheme" where
  "map_kernel img s =
     (let offset = kernel_virtual_base s - kernel_physical_base s;
          virt_ro_start = p_kernel_start img;
          virt_rw_start = p_writeallowed_start img;
          virt_end = p_kernel_end img;
          readonly_pages = (virt_rw_start - virt_ro_start + 4096 - 1) div 4096;
          writable_pages = (virt_end - virt_rw_start + 4096 - 1) div 4096;
          s1 = map_page s virt_ro_start (virt_ro_start - offset) 1 readonly_pages
      in map_page s1 virt_rw_start (virt_rw_start - offset) 3 writable_pages)"

definition map_entry :: "limine_memmap_entry \<Rightarrow> 'a vmm_scheme \<Rightarrow> 'a vmm_scheme" where
  "map_entry entry s =
     (if me_type entry = LIMINE_MEMMAP_RESERVED \<or> me_type entry = LIMINE_MEMMAP_BAD_MEMORY then s
      else map_page s (me_base entry + hhdm s) (me_base entry) 3 ((me_length entry + 4096 - 1) div 4096))"

definition map_all_mem :: "limine_memmap_entry list \<Rightarrow> kernel_image \<Rightarrow> 'a vmm_scheme \<Rightarrow> 'a vmm_scheme" where
  "map_all_mem memmap img s = map_kernel img (fold map_entry memmap s)"

definition initPML4 :: "limine_memmap_entry list \<Rightarrow> kernel_image \<Rightarrow> 'a vmm_scheme \<Rightarrow> 'a vmm_scheme" where
  "initPML4 memmap img s =
     (let (pml4_phys, s1) = pmm_alloc_page s 1;
          pml4 = phys_to_virt s1 pml4_phys;
          s2 = s1\<lparr>PML4 := pml4, ram := memset (ram s1) pml4 0 4096\<rparr>;
          s3 = map_all_mem memmap img s2
      in s3\<lparr>cr3 := pml4_phys\<rparr>)"

section \<open>The bits of an entry\<close>

lemma bit_put_field:
  assumes "i + w \<le> 64"
  shows "bit (put_field i w v e) n \<longleftrightarrow> (if i \<le> n \<and> n < i + w then bit v (n - i) else bit e n)"
proof (cases "n < 64")
  case True
  then show ?thesis
    by (auto simp: put_field_def bit_or_iff bit_and_iff bit_not_iff bit_push_bit_iff bit_mask_iff
        bit_take_bit_iff)
next
  case False
  then have "\<not> bit x n" for x :: u64 using bit_imp_le_length[of x n] by auto
  with False assms show ?thesis by auto
qed

lemma bit_flag_bit: "bit (flag_bit flags (2 ^ m)) n \<longleftrightarrow> n = 0 \<and> m < 32 \<and> bit flags m"
proof -
  have "(ucast flags :: u32) AND 2 ^ m \<noteq> 0 \<longleftrightarrow> m < 32 \<and> bit flags m"
    by (auto simp: and_exp_eq_0_iff_not_bit bit_ucast_iff)
  then show ?thesis by (auto simp: flag_bit_def bit_1_iff)
qed

lemmas bit_flags =
  bit_flag_bit[of _ 0, simplified] bit_flag_bit[of _ 1, simplified] bit_flag_bit[of _ 2, simplified]
  bit_flag_bit[of _ 3, simplified] bit_flag_bit[of _ 4, simplified] bit_flag_bit[of _ 8, simplified]
  bit_flag_bit[of _ 9, simplified]

lemma bit_out_of_range: "\<not> bit (x :: u8) 8" "\<not> bit x 9" "64 \<le> n \<Longrightarrow> \<not> bit (y :: u64) n"
  using bit_imp_le_length[of x] bit_imp_le_length[of y n] by fastforce+

lemma bit_setPageTableEntry:
  "bit (setPageTableEntry entry flags phys available) n \<longleftrightarrow>
    (if n \<le> 4 then bit flags n
     else if n = 7 then bit entry 7
     else if n = 9 \<or> n = 10 then bit available (n - 9)
     else if 12 \<le> n \<and> n < 52 then bit phys n
     else if 52 \<le> n \<and> n < 63 then bit available (n - 49)
     else False)"
proof (cases "n < 64")
  case True
  then consider "n < 12" | "12 \<le> n" "n < 52" | "52 \<le> n" "n < 63" | "n = 63"
    by linarith
  then show ?thesis
  proof cases
    case 1
    then have n: "n \<in> {0, 1, 2, 3, 4, 5, 6, 7, 8, 9, 10, 11}" by (simp, arith)
    have "bit (3 :: u16) 0" "bit (3 :: u16) 1" "\<not> bit (3 :: u16) 2" by simp_all
    with n show ?thesis
      by (elim insertE emptyE; simp add: setPageTableEntry_def Let_def bit_put_field bit_flags
          bit_out_of_range bit_ucast_iff bit_and_iff)
  next
    case 2
    then show ?thesis
      by (simp add: setPageTableEntry_def Let_def bit_put_field bit_drop_bit_eq)
  next
    case 3
    then have "n - 52 < 64" by simp
    with 3 show ?thesis
      by (simp add: setPageTableEntry_def Let_def bit_put_field bit_drop_bit_eq bit_ucast_iff)
  next
    case 4
    then show ?thesis
      by (simp add: setPageTableEntry_def Let_def bit_put_field bit_flags bit_out_of_range)
  qed
next
  case False
  then show ?thesis by (auto simp: bit_out_of_range)
qed

lemma entry_present_set:
  "entry_present (setPageTableEntry entry flags phys available) = bit flags 0"
  by (simp add: entry_present_def bit_setPageTableEntry)

lemma entry_physical_address_set:
  "push_bit 12 (entry_physical_address (setPageTableEntry entry flags phys available)) =
    push_bit 12 (take_bit 40 (drop_bit 12 phys))"
  by (rule bit_eqI)
    (auto simp: entry_physical_address_def bit_push_bit_iff bit_take_bit_iff bit_drop_bit_eq
      bit_setPageTableEntry)

section \<open>Frames in the direct map\<close>

definition frame_va :: "'a vmm_scheme \<Rightarrow> nat \<Rightarrow> u64" where
  "frame_va s k = phys_to_virt s (page_addr s k)"

lemma frame_va_ram [simp]: "frame_va (s\<lparr>ram := m\<rparr>) = frame_va s"
  by (simp add: frame_va_def phys_to_virt_def fun_eq_iff)

lemma frame_va_offset:
  assumes "pmm_wf s" and "k < page_count s" and "d < 4096"
  shows "unat (frame_va s k + of_nat d - bitmap s) = k * 4096 + d"
proof -
  have "k * 4096 + d < 2 ^ 64" using assms pmm_wf_page_count[OF assms(1)] by simp
  then have u: "unat (of_nat (k * 4096 + d) :: u64) = k * 4096 + d" by (intro unat_of_nat_small) simp
  have "frame_va s k + of_nat d - bitmap s = of_nat (k * 4096 + d)"
    using assms(1) by (simp add: frame_va_def phys_to_virt_def page_addr_def pmm_wf_def)
  then show ?thesis by (simp only: u)
qed

lemma frame_va_inj:
  assumes "pmm_wf s" and "k < page_count s" and "k' < page_count s"
  shows "frame_va s k = frame_va s k' \<longleftrightarrow> k = k'"
proof
  assume eq: "frame_va s k = frame_va s k'"
  have "k * 4096 + 0 = k' * 4096 + 0"
    using frame_va_offset[OF assms(1,2), of 0] frame_va_offset[OF assms(1,3), of 0]
    unfolding eq by linarith
  then show "k = k'" by simp
qed simp

lemma slot_nat: "8 * i = of_nat (8 * unat (i :: u64))"
  by simp

lemma index_bound: "i < 512 \<Longrightarrow> 8 * unat (i :: u64) + 8 \<le> 4096"
  by (simp add: word_less_nat_alt)

lemma slot_offset:
  assumes "pmm_wf s" and "k < page_count s" and "i < 512"
  shows "unat (frame_va s k + 8 * i - bitmap s) = k * 4096 + 8 * unat i"
  using frame_va_offset[OF assms(1,2), of "8 * unat i"] index_bound[OF assms(3)] by simp

lemma page_count_bound: "pmm_wf s \<Longrightarrow> k < page_count s \<Longrightarrow> k * 4096 + 4096 \<le> 2 ^ 64"
  using pmm_wf_page_count[of s] by simp

lemma slot_sep:
  assumes "pmm_wf s" and "k < page_count s" and "k' < page_count s" and "i < 512" and "j < 512"
    and "k \<noteq> k' \<or> i \<noteq> j"
  shows "sep (frame_va s k + 8 * i) 8 (frame_va s k' + 8 * j) 8"
proof -
  note o1 = slot_offset[OF assms(1,2,4)] and o2 = slot_offset[OF assms(1,3,5)]
  note b = index_bound[OF assms(4)] index_bound[OF assms(5)]
    page_count_bound[OF assms(1,2)] page_count_bound[OF assms(1,3)]
  have "k * 4096 + 8 * unat i + 8 \<le> k' * 4096 + 8 * unat j \<or>
      k' * 4096 + 8 * unat j + 8 \<le> k * 4096 + 8 * unat i"
    using assms(6) b(1,2) by (cases k k' rule: linorder_cases) (auto simp: word_unat_eq_iff)
  then show ?thesis
  proof
    assume "k * 4096 + 8 * unat i + 8 \<le> k' * 4096 + 8 * unat j"
    with o1 o2 b show ?thesis by (intro sep_at_offset[where c = "bitmap s"]) linarith+
  next
    assume "k' * 4096 + 8 * unat j + 8 \<le> k * 4096 + 8 * unat i"
    with o1 o2 b show ?thesis
      by (subst sep_sym, intro sep_at_offset[where c = "bitmap s"]) linarith+
  qed
qed

text \<open>The page of the managed region whose image holds an address, and what lies in it.\<close>

definition frame_of :: "'a vmm_scheme \<Rightarrow> u64 \<Rightarrow> nat" where
  "frame_of s x = unat (x - bitmap s) div 4096"

lemma frame_of_ram [simp]: "frame_of (s\<lparr>ram := m\<rparr>) = frame_of s"
  by (simp add: frame_of_def fun_eq_iff)

lemma frame_of_va:
  assumes "pmm_wf s" and "k < page_count s" and "unat (x - frame_va s k) < 4096"
  shows "frame_of s x = k"
proof -
  let ?d = "unat (x - frame_va s k)"
  have "frame_va s k + of_nat ?d = x" by simp
  then have "unat (x - bitmap s) = k * 4096 + ?d"
    using frame_va_offset[OF assms] by (simp only:)
  then show ?thesis using assms(3) by (simp add: frame_of_def)
qed

lemma frame_of_slot:
  assumes "pmm_wf s" and "k < page_count s" and "i < 512" and "b < 8"
  shows "frame_of s (frame_va s k + 8 * i + of_nat b) = k"
proof (rule frame_of_va[OF assms(1,2)])
  have lt: "8 * unat i + b < 4096" using index_bound[OF assms(3)] assms(4) by linarith
  then have "unat (of_nat (8 * unat i + b) :: u64) = 8 * unat i + b" by (intro unat_of_nat_small) simp
  moreover have "frame_va s k + 8 * i + of_nat b - frame_va s k = of_nat (8 * unat i + b)" by simp
  ultimately show "unat (frame_va s k + 8 * i + of_nat b - frame_va s k) < 4096" using lt by (simp only:)
qed

lemma entry_cong:
  assumes "pmm_wf s" and "k < page_count s" and "i < 512"
    and "\<And>x. frame_of s x = k \<Longrightarrow> m x = m' x"
  shows "ld64 m (frame_va s k + 8 * i) = ld64 m' (frame_va s k + 8 * i)"
  by (intro ldn_cong assms(4) frame_of_slot[OF assms(1-3)])

lemma memset_frame:
  assumes "pmm_wf s" and "k < page_count s" and "frame_of s x \<noteq> k"
  shows "memset m (frame_va s k) 0 4096 x = m x"
proof -
  have "\<not> unat (x - frame_va s k) < 4096" using frame_of_va[OF assms(1,2), of x] assms(3) by blast
  then show ?thesis by (simp add: memset_spec)
qed

lemma entry_memset:
  assumes "pmm_wf s" and "k < page_count s" and "j < 512"
  shows "ld64 (memset m (frame_va s k) 0 4096) (frame_va s k + 8 * j) = 0"
proof -
  have "memset m (frame_va s k) 0 4096 (frame_va s k + 8 * j + of_nat b) = 0" if "b < 8" for b
  proof -
    have eq: "frame_va s k + 8 * j + of_nat b - frame_va s k = of_nat (8 * unat j + b)" by simp
    have lt: "8 * unat j + b < 4096" using index_bound[OF assms(3)] that by linarith
    then have "unat (of_nat (8 * unat j + b) :: u64) = 8 * unat j + b"
      by (intro unat_of_nat_small) simp
    with lt show ?thesis unfolding memset_spec eq by simp
  qed
  then show ?thesis by (intro bit_eqI) (auto simp: bit_ldn)
qed

lemma st64_frame:
  assumes "pmm_wf s" and "k < page_count s" and "i < 512" and "frame_of s x \<noteq> k"
  shows "st64 m (frame_va s k + 8 * i) v x = m x"
proof -
  have "\<not> unat (x - (frame_va s k + 8 * i)) < 8"
  proof
    assume "unat (x - (frame_va s k + 8 * i)) < 8"
    from frame_of_slot[OF assms(1-3) this] assms(4) show False by simp
  qed
  then show ?thesis by (simp add: stn_def)
qed

lemma bitmap_region: "page_count s \<le> 8 * (bitmap_pages s * 4096)"
  unfolding bitmap_pages_def by linarith

lemma bitmap_set_frame:
  assumes "bitmap_pages s \<le> frame_of s x" and "j \<le> page_count s"
  shows "bitmap_set_range m (bitmap s) lo j x = m x"
proof (rule bitmap_set_range_frame)
  have "bitmap_pages s * 4096 \<le> unat (x - bitmap s)"
    using assms(1) unfolding frame_of_def by (meson div_times_less_eq_dividend mult_le_mono1 order_trans)
  with assms(2) bitmap_region[of s] show "j \<le> 8 * unat (x - bitmap s)" by linarith
qed

lemma page_used_cong:
  assumes "pmm_wf s" and "n < page_count s" and "\<And>x. frame_of s x < bitmap_pages s \<Longrightarrow> m x = m' x"
  shows "page_used (s\<lparr>ram := m\<rparr>) n = page_used (s\<lparr>ram := m'\<rparr>) n"
proof -
  have "unat (of_nat (n div 8) :: u64) = n div 8"
    using assms(2) pmm_wf_page_count[OF assms(1)] by (intro unat_of_nat_small) simp
  then have "frame_of s (bitmap s + of_nat (n div 8)) < bitmap_pages s"
    using assms(2) unfolding frame_of_def bitmap_pages_def by simp
  from assms(3)[OF this] show ?thesis by (simp add: page_used_def BITMAP_TEST_bit)
qed

section \<open>The tree of page tables\<close>

text \<open>The table reached from table \<open>t\<close> by following the entries at the given indices.\<close>

fun walk :: "'a vmm_scheme \<Rightarrow> u64 \<Rightarrow> u64 list \<Rightarrow> u64 option" where
  "walk s t [] = Some t"
| "walk s t (i # is) =
     (if entry_present (entry_at s t i) then walk s (next_table s (entry_at s t i)) is else None)"

abbreviation table_at :: "'a vmm_scheme \<Rightarrow> u64 list \<Rightarrow> u64 option" where
  "table_at s p \<equiv> walk s (PML4 s) p"

lemma walk_append: "walk s t (p @ q) = Option.bind (walk s t p) (\<lambda>u. walk s u q)"
  by (induction p arbitrary: t) auto

definition is_path :: "u64 list \<Rightarrow> bool" where
  "is_path p \<longleftrightarrow> length p \<le> 3 \<and> (\<forall>i \<in> set p. i < 512)"

definition table_set :: "'a vmm_scheme \<Rightarrow> u64 set" where
  "table_set s = {t. \<exists>p. is_path p \<and> table_at s p = Some t}"

definition owned_frame :: "'a vmm_scheme \<Rightarrow> nat \<Rightarrow> bool" where
  "owned_frame s k \<longleftrightarrow> bitmap_pages s \<le> k \<and> k < page_count s \<and> page_used s k"

text \<open>
  The invariant: the allocator is well-formed and manages page-aligned memory below \<open>2 ^ 40\<close>; every
  table is a frame that the allocator has handed out, and no frame holds two tables.
\<close>

definition vm_ok :: "'a vmm_scheme \<Rightarrow> bool" where
  "vm_ok s \<longleftrightarrow> pmm_wf s \<and> unat (physical_base s) mod 4096 = 0 \<and>
     unat (physical_base s) + page_count s * 4096 \<le> 2 ^ 40 \<and>
     (\<forall>p t. is_path p \<and> table_at s p = Some t \<longrightarrow> (\<exists>k. t = frame_va s k \<and> owned_frame s k)) \<and>
     (\<forall>p q t. is_path p \<and> is_path q \<and> table_at s p = Some t \<and> table_at s q = Some t \<longrightarrow> p = q)"

lemma vm_okI:
  assumes "pmm_wf s" and "unat (physical_base s) mod 4096 = 0"
    and "unat (physical_base s) + page_count s * 4096 \<le> 2 ^ 40"
    and "\<And>p t. is_path p \<Longrightarrow> table_at s p = Some t \<Longrightarrow> \<exists>k. t = frame_va s k \<and> owned_frame s k"
    and "\<And>p q t. is_path p \<Longrightarrow> is_path q \<Longrightarrow> table_at s p = Some t \<Longrightarrow> table_at s q = Some t \<Longrightarrow> p = q"
  shows "vm_ok s"
  unfolding vm_ok_def using assms by blast

lemma vm_ok_pmm: "vm_ok s \<Longrightarrow> pmm_wf s"
  by (simp add: vm_ok_def)

lemma vm_ok_frame:
  assumes "vm_ok s" and "is_path p" and "table_at s p = Some t"
  obtains k where "t = frame_va s k" and "owned_frame s k" and "k < page_count s" and "bitmap_pages s \<le> k"
  using assms unfolding vm_ok_def owned_frame_def by blast

lemma vm_ok_inj:
  "vm_ok s \<Longrightarrow> is_path p \<Longrightarrow> is_path q \<Longrightarrow> table_at s p = Some t \<Longrightarrow> table_at s q = Some t \<Longrightarrow> p = q"
  unfolding vm_ok_def by blast

lemma is_path_prefix: "is_path (p @ q) \<Longrightarrow> is_path p"
  by (auto simp: is_path_def)

text \<open>Changing the entry \<open>i\<close> of one table leaves every path that does not go through it.\<close>

lemma table_at_update:
  assumes "PML4 s' = PML4 s" and "hhdm s' = hhdm s"
    and other: "\<And>q u j. is_path q \<Longrightarrow> table_at s q = Some u \<Longrightarrow> j < 512 \<Longrightarrow> (q, j) \<noteq> (p, i) \<Longrightarrow>
      entry_at s' u j = entry_at s u j"
    and "is_path q" and "\<nexists>r. q = p @ i # r"
  shows "table_at s' q = table_at s q"
  using assms(4,5)
proof (induction q rule: rev_induct)
  case Nil
  then show ?case by (simp add: assms(1))
next
  case (snoc j q)
  have q: "is_path q" by (rule is_path_prefix[OF snoc.prems(1)])
  have IH: "table_at s' q = table_at s q"
    by (rule snoc.IH[OF q]) (use snoc.prems(2) in auto)
  show ?case
  proof (cases "table_at s q")
    case None
    with IH show ?thesis by (simp add: walk_append)
  next
    case (Some u)
    have "j < 512" using snoc.prems(1) by (simp add: is_path_def)
    moreover have "(q, j) \<noteq> (p, i)" using snoc.prems(2) by auto
    ultimately have "entry_at s' u j = entry_at s u j" by (rule other[OF q Some])
    with IH Some assms(2) show ?thesis by (simp add: walk_append next_table_def phys_to_virt_def)
  qed
qed

lemma aligned_frame_number:
  fixes x :: u64
  assumes "unat x mod 4096 = 0" and "unat x < 2 ^ 52"
  shows "push_bit 12 (take_bit 40 (drop_bit 12 x)) = x"
proof -
  have lo: "take_bit 12 x = 0" using assms(1)
    by (simp add: word_unat_eq_iff take_bit_eq_mod unat_mod)
  have hi: "take_bit 52 x = x" using assms(2)
    by (simp add: word_unat_eq_iff unsigned_take_bit_eq take_bit_nat_eq_self)
  have low: "\<not> bit x n" if "n < 12" for n
    using arg_cong[OF lo, of "\<lambda>y. bit y n"] that by (simp add: bit_take_bit_iff)
  have high: "n < 52" if "bit x n" for n
    using arg_cong[OF hi, of "\<lambda>y. bit y n"] that by (simp add: bit_take_bit_iff)
  show ?thesis
  proof (rule bit_eqI)
    fix n assume "possible_bit TYPE(u64) n"
    then show "bit (push_bit 12 (take_bit 40 (drop_bit 12 x))) n = bit x n"
      using low[of n] high[of n]
      by (cases "n < 12") (auto simp: bit_push_bit_iff bit_take_bit_iff bit_drop_bit_eq)
  qed
qed

lemma next_table_set:
  assumes "vm_ok s" and "k < page_count s"
  shows "next_table s (setPageTableEntry e flags (page_addr s k) available) = frame_va s k"
proof -
  have u: "unat (page_addr s k) = unat (physical_base s) + k * 4096"
    by (rule unat_page_addr[OF vm_ok_pmm[OF assms(1)] assms(2)])
  have "unat (page_addr s k) mod 4096 = 0"
    using assms(1) unfolding u by (simp add: vm_ok_def mod_add_eq[symmetric])
  moreover have "unat (page_addr s k) < 2 ^ 52" using assms unfolding u by (simp add: vm_ok_def)
  ultimately show ?thesis
    by (simp add: next_table_def entry_physical_address_set aligned_frame_number frame_va_def)
qed

text \<open>The bytes that belong neither to the bitmap nor to a free page nor to a page table.\<close>

definition client_byte :: "'a vmm_scheme \<Rightarrow> u64 \<Rightarrow> bool" where
  "client_byte s x \<longleftrightarrow> bitmap_pages s \<le> frame_of s x \<and>
     (frame_of s x < page_count s \<longrightarrow>
        page_used s (frame_of s x) \<and> frame_va s (frame_of s x) \<notin> table_set s)"

lemma allocateEntry_effect:
  assumes ok: "vm_ok s" and p: "is_path p" "table_at s p = Some t" and i: "i < 512"
    and free: "\<exists>k < page_count s. \<not> page_used s k"
  obtains k m e where "k < page_count s" "\<not> page_used s k" "bitmap_pages s \<le> k"
    "allocateEntry s t i flags = (page_addr s k, s\<lparr>ram := m\<rparr>)"
    "ld64 m (t + 8 * i) = setPageTableEntry e (flags OR 1 OR 2) (page_addr s k) 0"
    "\<And>j. j < 512 \<Longrightarrow> ld64 m (frame_va s k + 8 * j) = 0"
    "\<And>q u j. is_path q \<Longrightarrow> table_at s q = Some u \<Longrightarrow> j < 512 \<Longrightarrow> (q, j) \<noteq> (p, i) \<Longrightarrow>
       ld64 m (u + 8 * j) = entry_at s u j"
    "\<And>n. n < page_count s \<Longrightarrow> page_used (s\<lparr>ram := m\<rparr>) n \<longleftrightarrow> n = k \<or> page_used s n"
    "\<And>x. client_byte s x \<Longrightarrow> m x = ram s x"
proof -
  have wf: "pmm_wf s" by (rule vm_ok_pmm[OF ok])
  obtain phys s1 where a: "pmm_alloc_page s 1 = (phys, s1)" by fastforce
  from pmm_alloc_one_page[OF wf pages_of_1 this] free obtain k where
    k: "phys = page_addr s k" "phys \<noteq> 0" "k < page_count s" "\<not> page_used s k"
    and s1: "s1 = s\<lparr>ram := bitmap_set_range (ram s) (bitmap s) k (Suc k)\<rparr>"
    by metis
  obtain kt where t: "t = frame_va s kt" and kt: "owned_frame s kt" "kt < page_count s" "bitmap_pages s \<le> kt"
    by (rule vm_ok_frame[OF ok p])
  have kb: "bitmap_pages s \<le> k" using wf k(4) by (auto simp: pmm_wf_def not_less[symmetric])
  have ne: "kt \<noteq> k" using kt(1) k(4) by (auto simp: owned_frame_def)
  let ?b = "bitmap_set_range (ram s) (bitmap s) k (Suc k)"
  let ?m1 = "memset ?b (frame_va s k) 0 4096"
  let ?m = "st64 ?m1 (t + 8 * i) (setPageTableEntry (ld64 ?m1 (t + 8 * i)) (flags OR 1 OR 2) (page_addr s k) 0)"
  have keep: "?m x = ram s x" if "bitmap_pages s \<le> frame_of s x" "frame_of s x \<noteq> k" "frame_of s x \<noteq> kt" for x
    unfolding t using that k(3)
    by (simp add: st64_frame[OF wf kt(2) i] memset_frame[OF wf k(3)] bitmap_set_frame)
  have old: "ld64 ?m (u + 8 * j) = entry_at s u j"
    if q: "is_path q" "table_at s q = Some u" and j: "j < 512" and other: "(q, j) \<noteq> (p, i)" for q u j
  proof (cases "u = t")
    case True
    then have "j \<noteq> i" using vm_ok_inj[OF ok q(1) p(1) q(2)] p(2) other by auto
    then have "sep (t + 8 * i) 8 (t + 8 * j) 8"
      unfolding t using slot_sep[OF wf kt(2) kt(2) i j] by simp
    moreover have "ld64 ?m1 (t + 8 * j) = entry_at s t j"
      unfolding t using ne kt(3) k(3)
      by (intro entry_cong[OF wf kt(2) j]) (simp add: memset_frame[OF wf k(3)] bitmap_set_frame)
    ultimately show ?thesis unfolding True by (simp add: ldn_stn_sep)
  next
    case False
    obtain ku where u: "u = frame_va s ku" and ku: "owned_frame s ku" "ku < page_count s" "bitmap_pages s \<le> ku"
      by (rule vm_ok_frame[OF ok q])
    have "ku \<noteq> k" "ku \<noteq> kt" using ku(1) k(4) False t u by (auto simp: owned_frame_def)
    with ku(3) show ?thesis unfolding u by (intro entry_cong[OF wf ku(2) j] keep) simp_all
  qed
  have zero: "ld64 ?m (frame_va s k + 8 * j) = 0" if j: "j < 512" for j
  proof -
    have "ld64 ?m (frame_va s k + 8 * j) = ld64 ?m1 (frame_va s k + 8 * j)"
      using ne unfolding t by (intro entry_cong[OF wf k(3) j] st64_frame[OF wf kt(2) i]) simp
    then show ?thesis by (simp add: entry_memset[OF wf k(3) j])
  qed
  have used: "page_used (s\<lparr>ram := ?m\<rparr>) n \<longleftrightarrow> n = k \<or> page_used s n" if n: "n < page_count s" for n
  proof -
    have "page_used (s\<lparr>ram := ?m\<rparr>) n = page_used (s\<lparr>ram := ?b\<rparr>) n"
      unfolding t using kb kt(3)
      by (intro page_used_cong[OF wf n]) (simp add: st64_frame[OF wf kt(2) i] memset_frame[OF wf k(3)])
    also have "\<dots> \<longleftrightarrow> n = k \<or> page_used s n"
      using k(3) n by (subst page_used_after_set[OF wf]) auto
    finally show ?thesis .
  qed
  have client: "?m x = ram s x" if "client_byte s x" for x
  proof (rule keep)
    have "t \<in> table_set s" using p by (auto simp: table_set_def)
    with that k(3,4) kt(2) t show "bitmap_pages s \<le> frame_of s x" "frame_of s x \<noteq> k" "frame_of s x \<noteq> kt"
      by (auto simp: client_byte_def)
  qed
  have "allocateEntry s t i flags = (page_addr s k, s\<lparr>ram := ?m\<rparr>)"
    using k(1,2) by (simp add: allocateEntry_def a s1 Let_def frame_va_def phys_to_virt_def)
  then show thesis
    by (rule that[OF k(3,4) kb _ ld64_st64_same]) (erule zero old used client; assumption)+
qed

section \<open>Translation as a walk\<close>

definition table_path :: "u64 \<Rightarrow> u64 list" where
  "table_path v = [pml4_idx v, pdp_idx v, pd_idx v]"

definition leaf_translation :: "'a vmm_scheme \<Rightarrow> u64 \<Rightarrow> u64 \<Rightarrow> u64" where
  "leaf_translation s t v =
     (let e = entry_at s t (pt_idx v)
      in if entry_present e then push_bit 12 (entry_physical_address e) + (v AND 0xFFF) else 0)"

lemma getPhysicalAddress_walk:
  "getPhysicalAddress s v =
    (case table_at s (table_path v) of None \<Rightarrow> 0 | Some t \<Rightarrow> leaf_translation s t v)"
  by (simp add: getPhysicalAddress_def leaf_translation_def table_path_def Let_def)

lemma index_less: "x AND 0x1FF < (512 :: u64)"
proof -
  have "x AND 0x1FF = take_bit 9 x" by (simp add: take_bit_eq_mask mask_eq_exp_minus_1)
  moreover have "unat (take_bit 9 x) < 2 ^ 9"
    unfolding unsigned_take_bit_eq by (rule take_bit_nat_less_exp)
  ultimately show ?thesis by (simp add: word_less_nat_alt)
qed

lemma idx_less [simp]: "pml4_idx v < 512" "pdp_idx v < 512" "pd_idx v < 512" "pt_idx v < 512"
  by (simp_all only: pml4_idx_def pdp_idx_def pd_idx_def pt_idx_def index_less)

lemma is_path_table_path: "is_path (table_path v)"
  by (simp add: is_path_def table_path_def)

section \<open>Extending the tree\<close>

definition free_count :: "'a pmm_scheme \<Rightarrow> nat" where
  "free_count s = card {k. k < page_count s \<and> \<not> page_used s k}"

lemma free_count_pos: "0 < free_count s \<longleftrightarrow> (\<exists>k < page_count s. \<not> page_used s k)"
  by (auto simp: free_count_def card_gt_0_iff)

lemma free_count_take:
  assumes "k < page_count s" and "\<And>n. n < page_count s \<Longrightarrow> page_used (s\<lparr>ram := m\<rparr>) n \<longleftrightarrow> n = k \<or> page_used s n"
  shows "free_count s \<le> free_count (s\<lparr>ram := m\<rparr>) + 1"
proof -
  have "{n. n < page_count s \<and> \<not> page_used s n} \<subseteq>
      insert k {n. n < page_count s \<and> \<not> page_used (s\<lparr>ram := m\<rparr>) n}"
    using assms(2) by auto
  then have "free_count s \<le> card (insert k {n. n < page_count s \<and> \<not> page_used (s\<lparr>ram := m\<rparr>) n})"
    unfolding free_count_def by (intro card_mono) auto
  also have "\<dots> \<le> free_count (s\<lparr>ram := m\<rparr>) + 1"
    unfolding free_count_def by (simp add: card_insert_le_m1 card_insert_if)
  finally show ?thesis .
qed

text \<open>What adding up to \<open>n\<close> tables keeps: every translation, every table, and every client byte.\<close>

definition extends :: "nat \<Rightarrow> 'a vmm_scheme \<Rightarrow> 'a vmm_scheme \<Rightarrow> bool" where
  "extends n s s' \<longleftrightarrow> (\<exists>m. s' = s\<lparr>ram := m\<rparr>) \<and> vm_ok s' \<and> free_count s \<le> free_count s' + n \<and>
     (\<forall>v. getPhysicalAddress s' v = getPhysicalAddress s v) \<and>
     (\<forall>q t. is_path q \<longrightarrow> table_at s q = Some t \<longrightarrow> table_at s' q = Some t) \<and>
     (\<forall>x. client_byte s x \<longrightarrow> client_byte s' x \<and> ram s' x = ram s x)"

lemma extends_refl: "vm_ok s \<Longrightarrow> extends n s s"
  unfolding extends_def by (auto intro: exI[of _ "ram s"])

lemma extends_trans: "extends n s s' \<Longrightarrow> extends n' s' s'' \<Longrightarrow> extends (n + n') s s''"
  unfolding extends_def by (elim conjE exE) auto

lemma new_table:
  assumes ok: "vm_ok s" and p: "is_path (p @ [i])" "table_at s p = Some t"
    and absent: "\<not> entry_present (entry_at s t i)"
    and k: "k < page_count s" "\<not> page_used s k" "bitmap_pages s \<le> k"
    and e: "ld64 m (t + 8 * i) = setPageTableEntry e (flags OR 1 OR 2) (page_addr s k) 0"
    and zero: "\<And>j. j < 512 \<Longrightarrow> ld64 m (frame_va s k + 8 * j) = 0"
    and old: "\<And>q u j. is_path q \<Longrightarrow> table_at s q = Some u \<Longrightarrow> j < 512 \<Longrightarrow> (q, j) \<noteq> (p, i) \<Longrightarrow>
       ld64 m (u + 8 * j) = entry_at s u j"
    and q: "is_path q"
  shows "walk (s\<lparr>ram := m\<rparr>) (PML4 s) q =
    (if q = p @ [i] then Some (frame_va s k) else table_at s q)"
proof (cases "\<exists>r. q = p @ i # r")
  case False
  then have "table_at (s\<lparr>ram := m\<rparr>) q = table_at s q"
    by (intro table_at_update[OF _ _ _ q]) (simp_all add: old)
  with False show ?thesis by auto
next
  case True
  then obtain r where r: "q = p @ i # r" by blast
  have "table_at (s\<lparr>ram := m\<rparr>) p = table_at s p"
    by (rule table_at_update[OF _ _ _ is_path_prefix[OF p(1)], where p = p and i = i])
      (simp_all add: old)
  moreover have "bit (flags OR 1 OR 2) 0" by (simp add: bit_or_iff bit_1_iff)
  moreover have "next_table (s\<lparr>ram := m\<rparr>) x = next_table s x" for x
    by (simp add: next_table_def phys_to_virt_def)
  ultimately have new: "table_at (s\<lparr>ram := m\<rparr>) q = walk (s\<lparr>ram := m\<rparr>) (frame_va s k) r"
    using p(2) e next_table_set[OF ok k(1)] by (simp add: r walk_append entry_present_set)
  have none: "table_at s q = None" using p(2) absent by (simp add: r walk_append)
  show ?thesis
  proof (cases r)
    case Nil
    with new r show ?thesis by simp
  next
    case (Cons j r')
    have "j < 512" using q by (simp add: r Cons is_path_def)
    then have "\<not> entry_present (ld64 m (frame_va s k + 8 * j))" by (simp add: zero entry_present_def)
    with new none show ?thesis by (simp add: Cons r)
  qed
qed

lemma vm_ok_new_table:
  assumes ok: "vm_ok s" and p: "is_path (p @ [i])"
    and k: "k < page_count s" "\<not> page_used s k" "bitmap_pages s \<le> k"
    and used: "\<And>n. n < page_count s \<Longrightarrow> page_used (s\<lparr>ram := m\<rparr>) n \<longleftrightarrow> n = k \<or> page_used s n"
    and tab: "\<And>q. is_path q \<Longrightarrow> walk (s\<lparr>ram := m\<rparr>) (PML4 s) q =
      (if q = p @ [i] then Some (frame_va s k) else table_at s q)"
  shows "vm_ok (s\<lparr>ram := m\<rparr>)"
proof -
  let ?s = "s\<lparr>ram := m\<rparr>"
  have wf: "pmm_wf s" by (rule vm_ok_pmm[OF ok])
  then have wf': "pmm_wf ?s" using used bitmap_pages_le[of s] by (simp add: pmm_wf_def)
  have own: "owned_frame ?s n" if "owned_frame s n \<or> n = k" for n
    using that used k by (auto simp: owned_frame_def)
  have frames: "\<exists>n. t = frame_va s n \<and> owned_frame ?s n" if "is_path q" "table_at ?s q = Some t" for q t
  proof (cases "q = p @ [i]")
    case True
    with that own show ?thesis by (auto simp: tab)
  next
    case False
    with that have "table_at s q = Some t" by (simp add: tab)
    from vm_ok_frame[OF ok that(1) this] own show ?thesis by metis
  qed
  have fresh: "table_at s q \<noteq> Some (frame_va s k)" if q: "is_path q" for q
  proof
    assume "table_at s q = Some (frame_va s k)"
    from vm_ok_frame[OF ok q this] obtain n where "frame_va s k = frame_va s n" "owned_frame s n" "n < page_count s"
      by metis
    with k frame_va_inj[OF wf k(1)] show False by (auto simp: owned_frame_def)
  qed
  have "q = r" if "is_path q" "is_path r" "table_at ?s q = Some t" "table_at ?s r = Some t" for q r t
    using that fresh[of q] fresh[of r] vm_ok_inj[OF ok that(1,2)]
    by (simp add: tab split: if_splits)
  then show ?thesis
    using ok frames by (intro vm_okI[OF wf']) (simp_all add: vm_ok_def)
qed

lemma allocateEntry_extends:
  assumes ok: "vm_ok s" and p: "is_path (p @ [i])" "table_at s p = Some t"
    and absent: "\<not> entry_present (entry_at s t i)" and free: "0 < free_count s"
    and s': "s' = snd (allocateEntry s t i flags)"
  shows "extends 1 s s' \<and> (\<exists>u. table_at s' (p @ [i]) = Some u)"
proof -
  have pp: "is_path p" and i: "i < 512" and len: "length p \<le> 2" using p(1) by (auto simp: is_path_def)
  have wf: "pmm_wf s" by (rule vm_ok_pmm[OF ok])
  obtain k m e where k: "k < page_count s" "\<not> page_used s k" "bitmap_pages s \<le> k"
    and a: "allocateEntry s t i flags = (page_addr s k, s\<lparr>ram := m\<rparr>)"
    and e: "ld64 m (t + 8 * i) = setPageTableEntry e (flags OR 1 OR 2) (page_addr s k) 0"
    and zero: "\<And>j. j < 512 \<Longrightarrow> ld64 m (frame_va s k + 8 * j) = 0"
    and old: "\<And>q u j. is_path q \<Longrightarrow> table_at s q = Some u \<Longrightarrow> j < 512 \<Longrightarrow> (q, j) \<noteq> (p, i) \<Longrightarrow>
       ld64 m (u + 8 * j) = entry_at s u j"
    and used: "\<And>n. n < page_count s \<Longrightarrow> page_used (s\<lparr>ram := m\<rparr>) n \<longleftrightarrow> n = k \<or> page_used s n"
    and client: "\<And>x. client_byte s x \<Longrightarrow> m x = ram s x"
    using allocateEntry_effect[OF ok pp p(2) i, where flags = flags] free unfolding free_count_pos by blast
  let ?s = "s\<lparr>ram := m\<rparr>"
  have s'_eq: "s' = ?s" by (simp add: s' a)
  have tab: "walk ?s (PML4 s) q = (if q = p @ [i] then Some (frame_va s k) else table_at s q)"
    if "is_path q" for q
    by (rule new_table[OF ok p absent k e _ _ that]) (erule zero old; assumption)+
  have none: "table_at s (p @ [i]) = None" using p(2) absent by (simp add: walk_append)
  have trans: "getPhysicalAddress ?s v = getPhysicalAddress s v" for v
  proof (cases "table_path v = p @ [i]")
    case True
    have "\<not> entry_present (ld64 m (frame_va s k + 8 * pt_idx v))" by (simp add: zero entry_present_def)
    with tab[OF is_path_table_path[of v]] True none show ?thesis
      unfolding getPhysicalAddress_walk by (simp add: leaf_translation_def)
  next
    case False
    have "table_path v \<noteq> p" using len by (auto simp: table_path_def)
    then show ?thesis
      using tab[OF is_path_table_path[of v]] False old[OF is_path_table_path]
      unfolding getPhysicalAddress_walk
      by (auto simp: leaf_translation_def split: option.split)
  qed
  have "table_set ?s \<subseteq> insert (frame_va s k) (table_set s)"
    using tab by (auto simp: table_set_def split: if_splits)
  then have "client_byte ?s x" if "client_byte s x" for x
    using that used[of "frame_of s x"] k frame_va_inj[OF wf _ k(1), of "frame_of s x"]
    by (auto simp: client_byte_def)
  with vm_ok_new_table[OF ok p(1) k used tab] free_count_take[OF k(1) used] trans client tab none p(1)
  show ?thesis unfolding s'_eq extends_def by auto
qed

lemma descend_extends:
  assumes ok: "vm_ok s" and p: "is_path (p @ [i])" "table_at s p = Some t" and free: "table_at s (p @ [i]) = None \<Longrightarrow> 0 < free_count s"
    and d: "descend s t i = (u, s')"
  shows "extends (if table_at s (p @ [i]) = None then 1 else 0) s s' \<and> table_at s' (p @ [i]) = Some u"
proof (cases "entry_present (entry_at s t i)")
  case True
  with d p(2) extends_refl[OF ok] show ?thesis by (auto simp: descend_def walk_append Let_def)
next
  case False
  let ?s = "snd (allocateEntry s t i 2)"
  have eq: "s' = ?s" "u = next_table ?s (entry_at ?s t i)" using d False by (auto simp: descend_def Let_def)
  have none: "table_at s (p @ [i]) = None" using p(2) False by (simp add: walk_append)
  from allocateEntry_extends[OF ok p False free[OF none] refl] obtain w where
    ext: "extends 1 s ?s" and w: "table_at ?s (p @ [i]) = Some w"
    by blast
  have "table_at ?s p = Some t" using ext p is_path_prefix[OF p(1)] by (simp add: extends_def)
  with w have "w = next_table ?s (entry_at ?s t i)" by (simp add: walk_append split: if_splits)
  with ext w eq none show ?thesis by simp
qed

section \<open>Tables that are missing\<close>

text \<open>The tables below the top level that the translation of an address goes through, and those of them that do not exist yet.\<close>

definition table_paths :: "u64 \<Rightarrow> u64 list set" where
  "table_paths v = {[pml4_idx v], [pml4_idx v, pdp_idx v], table_path v}"

definition missing :: "'a vmm_scheme \<Rightarrow> u64 set \<Rightarrow> u64 list set" where
  "missing s V = {q \<in> \<Union> (table_paths ` V). table_at s q = None}"

definition tables_needed :: "'a vmm_scheme \<Rightarrow> u64 set \<Rightarrow> nat" where
  "tables_needed s V = card (missing s V)"

lemma table_paths_path: "q \<in> table_paths v \<Longrightarrow> is_path q"
  by (auto simp: table_paths_def is_path_def table_path_def)

lemma finite_missing: "finite V \<Longrightarrow> finite (missing s V)"
  by (simp add: missing_def table_paths_def)

lemma tables_needed_mono: "V \<subseteq> W \<Longrightarrow> finite W \<Longrightarrow> tables_needed s V \<le> tables_needed s W"
  unfolding tables_needed_def by (intro card_mono finite_missing) (auto simp: missing_def)

lemma tables_needed_le:
  assumes "finite V"
  shows "tables_needed s V \<le> 3 * card V"
proof -
  have three: "card (table_paths v) \<le> 3" for v by (simp add: table_paths_def card_insert_if)
  have "tables_needed s V \<le> card (\<Union> (table_paths ` V))"
    unfolding tables_needed_def missing_def using assms by (intro card_mono) (auto simp: table_paths_def)
  also have "\<dots> \<le> (\<Sum>v \<in> V. card (table_paths v))" by (rule card_UN_le[OF assms])
  also have "\<dots> \<le> of_nat (card V) * 3" by (rule sum_bounded_above) (rule three)
  finally show ?thesis by simp
qed

text \<open>Every frame that goes from \<open>s\<close> to \<open>s'\<close> becomes a table that \<open>V\<close> needs.\<close>

definition thrifty :: "u64 set \<Rightarrow> 'a vmm_scheme \<Rightarrow> 'a vmm_scheme \<Rightarrow> bool" where
  "thrifty V s s' \<longleftrightarrow> tables_needed s' V + free_count s \<le> tables_needed s V + free_count s'"

lemma thrifty_trans: "thrifty V s s' \<Longrightarrow> thrifty V s' s'' \<Longrightarrow> thrifty V s s''"
  by (simp add: thrifty_def)

lemma thrifty_room: "thrifty V s s' \<Longrightarrow> tables_needed s V \<le> free_count s \<Longrightarrow> tables_needed s' V \<le> free_count s'"
  by (simp add: thrifty_def)

lemma descend_thrifty:
  assumes ok: "vm_ok s" and p: "p @ [i] \<in> table_paths v" "table_at s p = Some t" and room: "tables_needed s {v} \<le> free_count s"
    and V: "v \<in> V" "finite V" and d: "descend s t i = (u, s')"
  shows "extends 1 s s'" "table_at s' (p @ [i]) = Some u" "thrifty V s s'"
proof -
  have none: "p @ [i] \<in> missing s W" if "table_at s (p @ [i]) = None" "v \<in> W" for W
    using p(1) that unfolding missing_def by blast
  have "0 < free_count s" if "table_at s (p @ [i]) = None"
  proof -
    have "0 < tables_needed s {v}"
      using none[OF that, of "{v}"] finite_missing[of "{v}" s] by (auto simp: tables_needed_def card_gt_0_iff)
    with room show ?thesis by simp
  qed
  note x = descend_extends[OF ok table_paths_path[OF p(1)] p(2) this d]
  then show "table_at s' (p @ [i]) = Some u" by simp
  show "extends 1 s s'" using x by (auto simp: extends_def split: if_splits)
  have sub: "missing s' V \<subseteq> missing s V - {p @ [i]}"
  proof
    fix q assume q: "q \<in> missing s' V"
    then have "is_path q" using table_paths_path by (auto simp: missing_def)
    with q x show "q \<in> missing s V - {p @ [i]}" by (auto simp: missing_def extends_def)
  qed
  show "thrifty V s s'"
  proof (cases "table_at s (p @ [i]) = None")
    case True
    have "card (missing s' V) \<le> card (missing s V - {p @ [i]})" using sub V by (intro card_mono) (simp_all add: finite_missing)
    also have "\<dots> < card (missing s V)"
      using none[OF True V(1)] V(2) by (intro card_Diff1_less finite_missing)
    finally show ?thesis using x True by (simp add: thrifty_def tables_needed_def extends_def)
  next
    case False
    have "card (missing s' V) \<le> card (missing s V)" using sub V(2) by (intro card_mono finite_missing) auto
    then show ?thesis using x False by (auto simp: thrifty_def tables_needed_def extends_def)
  qed
qed

section \<open>Mapping one page\<close>

text \<open>The virtual page number that the tables translate, and the start of a page.\<close>

definition vpage :: "u64 \<Rightarrow> u64" where
  "vpage v = take_bit 36 (drop_bit 12 v)"

definition page_start :: "u64 \<Rightarrow> u64" where
  "page_start x = push_bit 12 (drop_bit 12 x)"

lemma idx_bits:
  "bit (pt_idx v) n \<longleftrightarrow> n < 9 \<and> bit v (12 + n)" "bit (pd_idx v) n \<longleftrightarrow> n < 9 \<and> bit v (21 + n)"
  "bit (pdp_idx v) n \<longleftrightarrow> n < 9 \<and> bit v (30 + n)" "bit (pml4_idx v) n \<longleftrightarrow> n < 9 \<and> bit v (39 + n)"
proof -
  have "x AND 0x1FF = take_bit 9 x" for x :: u64 by (simp add: take_bit_eq_mask mask_eq_exp_minus_1)
  then show "bit (pt_idx v) n \<longleftrightarrow> n < 9 \<and> bit v (12 + n)" "bit (pd_idx v) n \<longleftrightarrow> n < 9 \<and> bit v (21 + n)"
    "bit (pdp_idx v) n \<longleftrightarrow> n < 9 \<and> bit v (30 + n)" "bit (pml4_idx v) n \<longleftrightarrow> n < 9 \<and> bit v (39 + n)"
    by (simp_all add: pt_idx_def pd_idx_def pdp_idx_def pml4_idx_def bit_take_bit_iff bit_drop_bit_eq)
qed

lemma vpage_eq_iff: "vpage v = vpage w \<longleftrightarrow> table_path v = table_path w \<and> pt_idx v = pt_idx w"
proof
  assume eq: "vpage v = vpage w"
  have b: "bit v (12 + n) = bit w (12 + n)" if "n < 36" for n
    using arg_cong[OF eq, of "\<lambda>x. bit x n"] that
    by (simp add: vpage_def bit_take_bit_iff bit_drop_bit_eq)
  have "bit v (21 + n) = bit w (21 + n)" "bit v (30 + n) = bit w (30 + n)"
    "bit v (39 + n) = bit w (39 + n)" if "n < 9" for n
    using b[of "n + 9"] b[of "n + 18"] b[of "n + 27"] that by simp_all
  then show "table_path v = table_path w \<and> pt_idx v = pt_idx w"
    using b by (auto simp: table_path_def idx_bits intro!: bit_eqI)
next
  assume "table_path v = table_path w \<and> pt_idx v = pt_idx w"
  then have eq: "pt_idx v = pt_idx w" "pd_idx v = pd_idx w" "pdp_idx v = pdp_idx w" "pml4_idx v = pml4_idx w"
    by (simp_all add: table_path_def)
  have b: "bit v (12 + n) = bit w (12 + n)" "bit v (21 + n) = bit w (21 + n)"
    "bit v (30 + n) = bit w (30 + n)" "bit v (39 + n) = bit w (39 + n)" if "n < 9" for n
    using eq[THEN arg_cong[where f = "\<lambda>x. bit x n"]] that by (simp_all add: idx_bits)
  have "bit v (12 + n) = bit w (12 + n)" if n: "n < 36" for n
  proof -
    consider "n < 9" | "n - 9 < 9" "9 \<le> n" | "n - 18 < 9" "18 \<le> n" | "n - 27 < 9" "27 \<le> n"
      using n by linarith
    then show ?thesis
      by cases (use b(1)[of n] b(2)[of "n - 9"] b(3)[of "n - 18"] b(4)[of "n - 27"] in simp_all)
  qed
  then show "vpage v = vpage w"
    by (intro bit_eqI) (auto simp: vpage_def bit_take_bit_iff bit_drop_bit_eq)
qed

lemma page_start_field:
  assumes "unat x < 2 ^ 52"
  shows "push_bit 12 (take_bit 40 (drop_bit 12 x)) = page_start x"
proof -
  have hi: "take_bit 52 x = x" using assms
    by (simp add: word_unat_eq_iff unsigned_take_bit_eq take_bit_nat_eq_self)
  have "n < 52" if "bit x n" for n
    using arg_cong[OF hi, of "\<lambda>y. bit y n"] that by (simp add: bit_take_bit_iff)
  then show ?thesis
    unfolding page_start_def
    by (intro bit_eqI) (force simp: bit_push_bit_iff bit_take_bit_iff bit_drop_bit_eq)
qed

text \<open>Writing an entry of a last-level table changes one translation and no table.\<close>

lemma leaf_write:
  assumes ok: "vm_ok s" and t: "table_at s (table_path vir) = Some t"
    and e: "entry_present e" "push_bit 12 (entry_physical_address e) = page_start phy"
    and s': "s' = s\<lparr>ram := st64 (ram s) (t + 8 * pt_idx vir) e\<rparr>"
  shows "vm_ok s'" "free_count s' = free_count s" "client_byte s x \<Longrightarrow> client_byte s' x \<and> ram s' x = ram s x"
    "getPhysicalAddress s' v =
       (if vpage v = vpage vir then page_start phy + (v AND 0xFFF) else getPhysicalAddress s v)"
    "is_path q \<Longrightarrow> table_at s' q = table_at s q"
proof -
  have wf: "pmm_wf s" by (rule vm_ok_pmm[OF ok])
  obtain kt where kt: "t = frame_va s kt" "kt < page_count s" "bitmap_pages s \<le> kt"
    by (rule vm_ok_frame[OF ok is_path_table_path t])
  let ?m = "st64 (ram s) (t + 8 * pt_idx vir) e"
  have keep: "?m y = ram s y" if "frame_of s y \<noteq> kt" for y
    unfolding kt(1) using that by (simp add: st64_frame[OF wf kt(2)])
  have old: "ld64 ?m (u + 8 * j) = entry_at s u j"
    if q: "is_path q" "table_at s q = Some u" and j: "j < 512" and other: "(q, j) \<noteq> (table_path vir, pt_idx vir)"
    for q u j
  proof -
    obtain ku where ku: "u = frame_va s ku" "ku < page_count s" by (rule vm_ok_frame[OF ok q])
    have "ku \<noteq> kt \<or> j \<noteq> pt_idx vir"
      using other vm_ok_inj[OF ok q(1) is_path_table_path q(2)] t ku(1) kt(1) by auto
    then show ?thesis
      unfolding ku(1) kt(1) using slot_sep[OF wf kt(2) ku(2) _ j, of "pt_idx vir"]
      by (intro ldn_stn_sep) auto
  qed
  have len: "\<nexists>r. q = table_path vir @ pt_idx vir # r" if "is_path q" for q
    using that by (auto simp: is_path_def table_path_def)
  have tab: "walk s' (PML4 s) q = table_at s q" if "is_path q" for q
    using table_at_update[of s' s "table_path vir" "pt_idx vir" q] old len[OF that] that by (simp add: s')
  then show "is_path q \<Longrightarrow> table_at s' q = table_at s q" by (simp add: s')
  have used: "page_used s' n = page_used s n" if "n < page_count s" for n
    using page_used_cong[OF wf that, of ?m "ram s"] keep kt(3) by (simp add: s')
  then show fc: "free_count s' = free_count s"
    unfolding free_count_def s' by (intro arg_cong[where f = card]) auto
  have wf': "pmm_wf s'" using wf used bitmap_pages_le[of s] by (simp add: pmm_wf_def s')
  have own: "owned_frame s' n = owned_frame s n" for n
    using used[of n] by (auto simp: owned_frame_def s')
  show "vm_ok s'"
  proof (rule vm_okI[OF wf'])
    show "\<exists>k. u = frame_va s' k \<and> owned_frame s' k" if "is_path p" "table_at s' p = Some u" for p u
      using vm_ok_frame[OF ok that(1), of u] that(2) tab[OF that(1)] own by (simp add: s') metis
    show "p = q" if "is_path p" "is_path q" "table_at s' p = Some u" "table_at s' q = Some u" for p q u
      using vm_ok_inj[OF ok that(1,2)] that(3,4) tab that(1,2) by (simp add: s')
  qed (use ok in \<open>simp_all add: vm_ok_def s'\<close>)
  have "table_set s' = table_set s" using tab by (auto simp: table_set_def s')
  moreover have "t \<in> table_set s" using t is_path_table_path by (auto simp: table_set_def)
  ultimately show "client_byte s' x \<and> ram s' x = ram s x" if "client_byte s x"
    using that used[of "frame_of s x"] keep[of x] kt by (auto simp: client_byte_def s')
  show "getPhysicalAddress s' v =
       (if vpage v = vpage vir then page_start phy + (v AND 0xFFF) else getPhysicalAddress s v)"
    unfolding getPhysicalAddress_walk vpage_eq_iff leaf_translation_def
    using tab[OF is_path_table_path[of v]] old[OF is_path_table_path[of v]] t e
    by (auto simp: s' split: option.split)
qed

lemma map_one_correct:
  assumes ok: "vm_ok s" and room: "tables_needed s {vir} \<le> free_count s" and flags: "bit flags 0" and phy: "unat phy < 2 ^ 40"
  shows "vm_ok (map_one s vir phy flags)" "vir \<in> V \<Longrightarrow> finite V \<Longrightarrow> thrifty V s (map_one s vir phy flags)"
    "getPhysicalAddress (map_one s vir phy flags) v =
       (if vpage v = vpage vir then page_start phy + (v AND 0xFFF) else getPhysicalAddress s v)"
    "client_byte s x \<Longrightarrow>
       client_byte (map_one s vir phy flags) x \<and> ram (map_one s vir phy flags) x = ram s x"
proof -
  obtain pdp s1 where d1: "descend s (PML4 s) (pml4_idx vir) = (pdp, s1)" by fastforce
  obtain pd s2 where d2: "descend s1 pdp (pdp_idx vir) = (pd, s2)" by fastforce
  obtain pt s3 where d3: "descend s2 pd (pd_idx vir) = (pt, s3)" by fastforce
  have t: "[] @ [pml4_idx vir] \<in> table_paths vir" "[pml4_idx vir] @ [pdp_idx vir] \<in> table_paths vir"
    "[pml4_idx vir, pdp_idx vir] @ [pd_idx vir] \<in> table_paths vir" by (simp_all add: table_paths_def table_path_def)
  have vir: "vir \<in> {vir}" "finite {vir}" by simp_all
  have root: "table_at s [] = Some (PML4 s)" by simp
  note x1 = descend_thrifty[OF ok t(1) root room _ _ d1]
  have ok1: "vm_ok s1" using x1(1)[OF vir] by (simp add: extends_def)
  have p1: "table_at s1 [pml4_idx vir] = Some pdp" using x1(2)[OF vir] by simp
  note r1 = thrifty_room[OF x1(3)[OF vir] room]
  note x2 = descend_thrifty[OF ok1 t(2) p1 r1 _ _ d2]
  have ok2: "vm_ok s2" using x2(1)[OF vir] by (simp add: extends_def)
  have p2: "table_at s2 [pml4_idx vir, pdp_idx vir] = Some pd" using x2(2)[OF vir] by simp
  note x3 = descend_thrifty[OF ok2 t(3) p2 thrifty_room[OF x2(3)[OF vir] r1] _ _ d3]
  have ext: "extends (1 + 1 + 1) s s3"
    by (rule extends_trans[OF extends_trans[OF x1(1)[OF vir] x2(1)[OF vir]] x3(1)[OF vir]])
  have thr: "thrifty V s s3" if "vir \<in> V" "finite V" for V
    by (rule thrifty_trans[OF thrifty_trans[OF x1(3)[OF that] x2(3)[OF that]] x3(3)[OF that]])
  have pt: "table_at s3 (table_path vir) = Some pt" using x3(2)[OF vir] by (simp add: table_path_def)
  let ?e = "setPageTableEntry (ld64 (ram s3) (pt + 8 * pt_idx vir)) (ucast flags) phy 0"
  have e: "entry_present ?e" "push_bit 12 (entry_physical_address ?e) = page_start phy"
    using flags phy by (simp_all add: entry_present_set bit_ucast_iff entry_physical_address_set page_start_field)
  have eq: "map_one s vir phy flags = s3\<lparr>ram := st64 (ram s3) (pt + 8 * pt_idx vir) ?e\<rparr>"
    by (simp add: map_one_def d1 d2 d3 Let_def)
  have ok3: "vm_ok s3" using ext by (simp add: extends_def)
  note leaf = leaf_write[OF ok3 pt e eq]
  from leaf(1) show "vm_ok (map_one s vir phy flags)" .
  have "missing (map_one s vir phy flags) V = missing s3 V" for V
    using leaf(5) table_paths_path by (auto simp: missing_def)
  then show "thrifty V s (map_one s vir phy flags)" if "vir \<in> V" "finite V"
    using thr[OF that] leaf(2) by (simp add: thrifty_def tables_needed_def)
  from leaf(3) ext show "client_byte (map_one s vir phy flags) x \<and> ram (map_one s vir phy flags) x = ram s x"
    if "client_byte s x" using that by (simp add: extends_def)
  from leaf(4) ext show "getPhysicalAddress (map_one s vir phy flags) v =
       (if vpage v = vpage vir then page_start phy + (v AND 0xFFF) else getPhysicalAddress s v)"
    by (simp add: extends_def)
qed

section \<open>The address-space interface\<close>

text \<open>
  What clients of the page tables rely on: mapping a page sets the translation of that page and keeps
  all others, uses up a bounded amount of room, and leaves the memory of clients alone.
\<close>

locale address_space =
  fixes map1 :: "'s \<Rightarrow> u64 \<Rightarrow> u64 \<Rightarrow> 's"
    and translate :: "'s \<Rightarrow> u64 \<Rightarrow> u64"
    and ok :: "'s \<Rightarrow> bool"
    and room :: "'s \<Rightarrow> nat"
    and need :: "'s \<Rightarrow> u64 set \<Rightarrow> nat"
    and kept :: "'s \<Rightarrow> u64 \<Rightarrow> bool"
    and contents :: "'s \<Rightarrow> u64 \<Rightarrow> u8"
  assumes map1_ok: "ok s \<Longrightarrow> need s {vir} \<le> room s \<Longrightarrow> unat phy < 2 ^ 40 \<Longrightarrow> ok (map1 s vir phy)"
    and map1_room: "ok s \<Longrightarrow> need s {vir} \<le> room s \<Longrightarrow> unat phy < 2 ^ 40 \<Longrightarrow> vir \<in> V \<Longrightarrow> finite V \<Longrightarrow>
      need (map1 s vir phy) V + room s \<le> need s V + room (map1 s vir phy)"
    and map1_translate: "ok s \<Longrightarrow> need s {vir} \<le> room s \<Longrightarrow> unat phy < 2 ^ 40 \<Longrightarrow>
      translate (map1 s vir phy) v =
        (if vpage v = vpage vir then page_start phy + (v AND 0xFFF) else translate s v)"
    and map1_kept: "ok s \<Longrightarrow> need s {vir} \<le> room s \<Longrightarrow> unat phy < 2 ^ 40 \<Longrightarrow> kept s x \<Longrightarrow>
      kept (map1 s vir phy) x \<and> contents (map1 s vir phy) x = contents s x"
    and need_mono: "V \<subseteq> W \<Longrightarrow> finite W \<Longrightarrow> need s V \<le> need s W"
begin

lemma map_pages:
  assumes "ok s" and "need s (V ` {..<n}) \<le> room s"
    and "\<forall>i < n. unat (P i) < 2 ^ 40" and "inj_on (\<lambda>i. vpage (V i)) {..<n}"
  shows "ok (fold (\<lambda>i s. map1 s (V i) (P i)) [0..<n] s) \<and>
    (\<forall>W. V ` {..<n} \<subseteq> W \<longrightarrow> finite W \<longrightarrow>
       need (fold (\<lambda>i s. map1 s (V i) (P i)) [0..<n] s) W + room s \<le> need s W + room (fold (\<lambda>i s. map1 s (V i) (P i)) [0..<n] s)) \<and>
    (\<forall>i < n. \<forall>v. vpage v = vpage (V i) \<longrightarrow>
       translate (fold (\<lambda>i s. map1 s (V i) (P i)) [0..<n] s) v = page_start (P i) + (v AND 0xFFF)) \<and>
    (\<forall>v. (\<forall>i < n. vpage v \<noteq> vpage (V i)) \<longrightarrow>
       translate (fold (\<lambda>i s. map1 s (V i) (P i)) [0..<n] s) v = translate s v) \<and>
    (\<forall>x. kept s x \<longrightarrow> kept (fold (\<lambda>i s. map1 s (V i) (P i)) [0..<n] s) x \<and>
       contents (fold (\<lambda>i s. map1 s (V i) (P i)) [0..<n] s) x = contents s x)"
  using assms(2-4)
proof (induction n)
  case 0
  then show ?case using assms(1) by simp
next
  case (Suc n)
  let ?s = "fold (\<lambda>i s. map1 s (V i) (P i)) [0..<n] s" and ?W = "V ` {..<Suc n}"
  have "inj_on (\<lambda>i. vpage (V i)) {..<n}" using Suc.prems(3) by (rule inj_on_subset) auto
  moreover have "need s (V ` {..<n}) \<le> need s ?W" by (rule need_mono) auto
  ultimately have IH: "ok ?s" "\<And>W. V ` {..<n} \<subseteq> W \<Longrightarrow> finite W \<Longrightarrow> need ?s W + room s \<le> need s W + room ?s"
    "\<And>i v. i < n \<Longrightarrow> vpage v = vpage (V i) \<Longrightarrow> translate ?s v = page_start (P i) + (v AND 0xFFF)"
    "\<And>v. (\<forall>i < n. vpage v \<noteq> vpage (V i)) \<Longrightarrow> translate ?s v = translate s v"
    "\<And>x. kept s x \<Longrightarrow> kept ?s x \<and> contents ?s x = contents s x"
    using Suc.IH Suc.prems(1,2) by auto
  have "need ?s ?W + room s \<le> need s ?W + room ?s" by (rule IH(2)) auto
  moreover have "need ?s {V n} \<le> need ?s ?W" by (rule need_mono) auto
  ultimately have c: "need ?s {V n} \<le> room ?s" "unat (P n) < 2 ^ 40" using Suc.prems(1,2) by auto
  have ne: "vpage (V i) \<noteq> vpage (V n)" if "i < n" for i
    using inj_onD[OF Suc.prems(3), of i n] that by auto
  have "need (map1 ?s (V n) (P n)) W + room s \<le> need s W + room (map1 ?s (V n) (P n))" if "?W \<subseteq> W" "finite W" for W
    using map1_room[OF IH(1) c _ that(2)] IH(2)[OF _ that(2)] that(1) by fastforce
  moreover note step = map1_ok[OF IH(1) c] map1_translate[OF IH(1) c] map1_kept[OF IH(1) c]
  ultimately show ?case using IH ne by (auto simp: less_Suc_eq)
qed

end

lemma bit_present: "bit (flags OR 1 :: u64) 0"
  by (simp add: bit_or_iff bit_1_iff)

interpretation as: address_space "\<lambda>s v p. map_one s v p (flags OR 1)" getPhysicalAddress vm_ok free_count tables_needed
  client_byte ram for flags
  by unfold_locales (simp_all add: map_one_correct[OF _ _ bit_present] map_one_correct(2)[OF _ _ bit_present, unfolded thrifty_def] tables_needed_mono)

lemma add_mod_cancel:
  fixes a i j m :: nat
  assumes "(a + i) mod m = (a + j) mod m"
  shows "i mod m = j mod m"
proof (cases "i \<le> j")
  case True
  then show ?thesis using assms mod_eq_dvd_iff_nat[of "a + i" "a + j" m] mod_eq_dvd_iff_nat[of i j m]
    by (metis add_diff_cancel_left add_left_mono)
next
  case False
  then show ?thesis using assms mod_eq_dvd_iff_nat[of "a + j" "a + i" m] mod_eq_dvd_iff_nat[of j i m]
    by (metis add_diff_cancel_left add_left_mono nat_le_linear)
qed

lemma unat_vpage: "unat (vpage (virt + of_nat i * 4096)) = (unat virt div 4096 + i) mod 2 ^ 36"
proof -
  let ?v = "virt + of_nat i * 4096"
  have "unat ?v = unat (of_nat (unat virt + i * 4096) :: u64)" by simp
  also have "\<dots> = (unat virt + i * 4096) mod (4096 * 2 ^ 52)"
    by (simp only: unsigned_of_nat take_bit_eq_mod) simp
  finally have "unat ?v div 4096 = (unat virt + i * 4096) div 4096 mod 2 ^ 52"
    by (simp only: mod_mult2_eq)
  moreover have "(unat virt + i * 4096) div 4096 = unat virt div 4096 + i" by simp
  ultimately have "unat ?v div 4096 = (unat virt div 4096 + i) mod 2 ^ 52" by (simp only:)
  moreover have "unat (vpage ?v) = unat ?v div 4096 mod 2 ^ 36"
    by (simp add: vpage_def take_bit_eq_mod drop_bit_eq_div unat_mod unat_div)
  ultimately show ?thesis by (simp add: mod_mod_cancel)
qed

lemma vpage_range_inj:
  assumes "n \<le> 2 ^ 36"
  shows "inj_on (\<lambda>i. vpage (virt + of_nat i * 4096)) {..<n}"
proof (rule inj_onI)
  fix i j
  assume ij: "i \<in> {..<n}" "j \<in> {..<n}" and eq: "vpage (virt + of_nat i * 4096) = vpage (virt + of_nat j * 4096)"
  have "(unat virt div 4096 + i) mod 2 ^ 36 = (unat virt div 4096 + j) mod 2 ^ 36"
    using arg_cong[OF eq, of unat] unfolding unat_vpage .
  then have "i mod 2 ^ 36 = j mod 2 ^ 36" by (rule add_mod_cancel)
  then show "i = j" using ij assms by simp
qed

text \<open>The pages of a range of virtual addresses.\<close>

definition page_set :: "u64 \<Rightarrow> u64 \<Rightarrow> u64 set" where
  "page_set virt n = (\<lambda>i. virt + of_nat i * 4096) ` {..<unat n}"

lemma finite_page_set [simp]: "finite (page_set virt n)"
  by (simp add: page_set_def)

lemma map_page_sharp:
  assumes ok: "vm_ok s" and flags: "bit flags 0" and room: "tables_needed s (page_set virt num_pages) \<le> free_count s"
    and phys: "unat phys + unat num_pages * 4096 \<le> 2 ^ 40" and s': "s' = map_page s virt phys flags num_pages"
  shows "vm_ok s'" "page_set virt num_pages \<subseteq> W \<Longrightarrow> finite W \<Longrightarrow> thrifty W s s'"
    "i < unat num_pages \<Longrightarrow> vpage v = vpage (virt + of_nat i * 4096) \<Longrightarrow>
       getPhysicalAddress s' v = page_start (phys + of_nat i * 4096) + (v AND 0xFFF)"
    "(\<And>i. i < unat num_pages \<Longrightarrow> vpage v \<noteq> vpage (virt + of_nat i * 4096)) \<Longrightarrow>
       getPhysicalAddress s' v = getPhysicalAddress s v"
    "client_byte s x \<Longrightarrow> client_byte s' x \<and> ram s' x = ram s x"
proof -
  have fl: "flags OR 1 = flags" using flags by (intro bit_eqI) (auto simp: bit_or_iff bit_1_iff)
  have "unat num_pages \<le> 2 ^ 28" using phys by simp
  then have inj: "inj_on (\<lambda>i. vpage (virt + of_nat i * 4096)) {..<unat num_pages}"
    by (intro vpage_range_inj) simp
  have low: "\<forall>i < unat num_pages. unat (phys + of_nat i * 4096) < 2 ^ 40"
  proof (intro allI impI)
    fix i assume "i < unat num_pages"
    then have lt: "unat phys + i * 4096 < 2 ^ 40" using phys by simp
    then have "unat (of_nat (i * 4096) :: u64) = i * 4096" by (intro unat_of_nat_small) simp
    with lt have "unat (phys + of_nat (i * 4096)) = unat phys + i * 4096" by (simp add: unat_add_nowrap)
    with lt show "unat (phys + of_nat i * 4096) < 2 ^ 40" by simp
  qed
  note all = as.map_pages[OF ok room[unfolded page_set_def] low inj, where flags = flags, unfolded fl, folded map_page_def s']
  show "vm_ok s'" "page_set virt num_pages \<subseteq> W \<Longrightarrow> finite W \<Longrightarrow> thrifty W s s'"
    "i < unat num_pages \<Longrightarrow> vpage v = vpage (virt + of_nat i * 4096) \<Longrightarrow>
       getPhysicalAddress s' v = page_start (phys + of_nat i * 4096) + (v AND 0xFFF)"
    "(\<And>i. i < unat num_pages \<Longrightarrow> vpage v \<noteq> vpage (virt + of_nat i * 4096)) \<Longrightarrow>
       getPhysicalAddress s' v = getPhysicalAddress s v"
    "client_byte s x \<Longrightarrow> client_byte s' x \<and> ram s' x = ram s x"
    using all by (simp_all add: thrifty_def page_set_def)
qed

text \<open>Three frames for every page are always enough.\<close>

lemma page_set_needs: "tables_needed s (page_set virt n) \<le> 3 * unat n"
proof -
  have "card (page_set virt n) \<le> unat n" unfolding page_set_def by (rule order_trans[OF card_image_le]) simp_all
  with tables_needed_le[of "page_set virt n" s] show ?thesis by simp
qed

lemma map_page_facts:
  assumes ok: "vm_ok s" and flags: "bit flags 0" and room: "3 * unat num_pages \<le> free_count s"
    and phys: "unat phys + unat num_pages * 4096 \<le> 2 ^ 40" and s': "s' = map_page s virt phys flags num_pages"
  shows "vm_ok s'" "free_count s \<le> free_count s' + 3 * unat num_pages"
    "i < unat num_pages \<Longrightarrow> vpage v = vpage (virt + of_nat i * 4096) \<Longrightarrow>
       getPhysicalAddress s' v = page_start (phys + of_nat i * 4096) + (v AND 0xFFF)"
    "(\<And>i. i < unat num_pages \<Longrightarrow> vpage v \<noteq> vpage (virt + of_nat i * 4096)) \<Longrightarrow>
       getPhysicalAddress s' v = getPhysicalAddress s v"
    "client_byte s x \<Longrightarrow> client_byte s' x \<and> ram s' x = ram s x"
proof -
  note f = map_page_sharp[OF ok flags order_trans[OF page_set_needs room] phys s']
  show "vm_ok s'" by (rule f(1))
  show "free_count s \<le> free_count s' + 3 * unat num_pages"
    using f(2)[OF order.refl finite_page_set] page_set_needs[of s virt num_pages] by (simp add: thrifty_def)
qed (rule map_page_sharp[OF ok flags order_trans[OF page_set_needs room] phys s']; assumption)+

text \<open>
  C8. \<open>map_page\<close> maps \<open>num_pages\<close> pages: if the flags contain the present bit and as many frames
  are free as tables are missing, then afterwards \<open>getPhysicalAddress\<close> takes every address of the i-th page to the same offset
  of the i-th physical page, every other translation is unchanged, the tree of tables is well-formed,
  and no byte outside the bitmap, the free pages and the page tables has changed.
\<close>

theorem map_page_correct:
  assumes "vm_ok s" and "bit flags 0" and "tables_needed s (page_set virt num_pages) \<le> free_count s"
    and "unat phys + unat num_pages * 4096 \<le> 2 ^ 40" and "s' = map_page s virt phys flags num_pages"
  shows "vm_ok s' \<and>
    (\<forall>i < unat num_pages. \<forall>v. vpage v = vpage (virt + of_nat i * 4096) \<longrightarrow>
       getPhysicalAddress s' v = page_start (phys + of_nat i * 4096) + (v AND 0xFFF)) \<and>
    (\<forall>v. (\<forall>i < unat num_pages. vpage v \<noteq> vpage (virt + of_nat i * 4096)) \<longrightarrow>
       getPhysicalAddress s' v = getPhysicalAddress s v) \<and>
    (\<forall>x. client_byte s x \<longrightarrow> ram s' x = ram s x)"
  using map_page_sharp[OF assms] by blast

section \<open>Building the address space\<close>

lemma pmm_alloc_only_ram: "\<exists>m. snd (pmm_alloc_page s sz) = s\<lparr>ram := m\<rparr>"
  by (auto simp: pmm_alloc_page_def Let_def intro: exI[of _ "ram s"] split: option.split)

lemma allocateEntry_only_ram: "\<exists>m. snd (allocateEntry s t i flags) = s\<lparr>ram := m\<rparr>"
  using pmm_alloc_only_ram[of s 1] by (auto simp: allocateEntry_def Let_def split: prod.splits)

lemma descend_only_ram: "\<exists>m. snd (descend s t i) = s\<lparr>ram := m\<rparr>"
  using allocateEntry_only_ram[of s t i 2] by (auto simp: descend_def Let_def intro: exI[of _ "ram s"])

lemma map_one_only_ram: "\<exists>m. map_one s vir phy flags = s\<lparr>ram := m\<rparr>"
proof -
  obtain pdp s1 where d1: "descend s (PML4 s) (pml4_idx vir) = (pdp, s1)" by fastforce
  obtain pd s2 where d2: "descend s1 pdp (pdp_idx vir) = (pd, s2)" by fastforce
  obtain pt s3 where d3: "descend s2 pd (pd_idx vir) = (pt, s3)" by fastforce
  obtain m1 m2 m3 where "s1 = s\<lparr>ram := m1\<rparr>" "s2 = s1\<lparr>ram := m2\<rparr>" "s3 = s2\<lparr>ram := m3\<rparr>"
    using descend_only_ram[of s] descend_only_ram[of s1] descend_only_ram[of s2] d1 d2 d3 by (metis snd_conv)
  moreover have "\<exists>m. map_one s vir phy flags = s3\<lparr>ram := m\<rparr>" by (auto simp: map_one_def d1 d2 d3 Let_def)
  ultimately show ?thesis by auto
qed

lemma map_page_only_ram: "\<exists>m. map_page s virt phys flags num_pages = s\<lparr>ram := m\<rparr>"
proof -
  have "\<exists>m. fold (\<lambda>i s. map_one s (virt + of_nat i * 4096) (phys + of_nat i * 4096) flags) xs s = s\<lparr>ram := m\<rparr>"
    for xs
  proof (induction xs arbitrary: s)
    case Nil
    show ?case by (auto intro: exI[of _ "ram s"])
  next
    case (Cons i xs)
    obtain m where "map_one s (virt + of_nat i * 4096) (phys + of_nat i * 4096) flags = s\<lparr>ram := m\<rparr>"
      using map_one_only_ram by blast
    with Cons.IH[of "s\<lparr>ram := m\<rparr>"] show ?case by auto
  qed
  then show ?thesis by (simp add: map_page_def)
qed

lemma map_page_hhdm [simp]: "hhdm (map_page s virt phys flags n) = hhdm s"
  using map_page_only_ram[of s virt phys flags n] by auto

text \<open>A zeroed top-level table is a well-formed address space that translates nothing.\<close>

lemma fresh_tables:
  assumes wf: "pmm_wf s" and geo: "unat (physical_base s) mod 4096 = 0"
      "unat (physical_base s) + page_count s * 4096 \<le> 2 ^ 40"
    and free: "0 < free_count s" and a: "pmm_alloc_page s 1 = (p, s1)"
    and s2: "s2 = s1\<lparr>PML4 := phys_to_virt s1 p, ram := memset (ram s1) (phys_to_virt s1 p) 0 4096\<rparr>"
  shows "vm_ok s2" "free_count s \<le> free_count s2 + 1" "getPhysicalAddress s2 v = 0" "hhdm s2 = hhdm s"
    "page_count s \<le> frame_of s x \<Longrightarrow> client_byte s2 x \<and> ram s2 x = ram s x"
proof -
  from pmm_alloc_one_page[OF wf pages_of_1 a] free obtain k where
    k: "p = page_addr s k" "k < page_count s" "\<not> page_used s k"
    and s1: "s1 = s\<lparr>ram := bitmap_set_range (ram s) (bitmap s) k (Suc k)\<rparr>"
    unfolding free_count_pos by metis
  let ?b = "bitmap_set_range (ram s) (bitmap s) k (Suc k)"
  let ?m = "memset ?b (frame_va s k) 0 4096"
  have s2_eq: "s2 = s\<lparr>PML4 := frame_va s k, ram := ?m\<rparr>"
    by (simp add: s2 s1 k(1) frame_va_def phys_to_virt_def)
  have kb: "bitmap_pages s \<le> k" using wf k(3) by (auto simp: pmm_wf_def not_less[symmetric])
  have used: "page_used (s\<lparr>ram := ?m\<rparr>) n \<longleftrightarrow> n = k \<or> page_used s n" if n: "n < page_count s" for n
  proof -
    have "page_used (s\<lparr>ram := ?m\<rparr>) n = page_used (s\<lparr>ram := ?b\<rparr>) n"
      using kb by (intro page_used_cong[OF wf n]) (simp add: memset_frame[OF wf k(2)])
    also have "\<dots> \<longleftrightarrow> n = k \<or> page_used s n"
      using k(2) n by (subst page_used_after_set[OF wf]) auto
    finally show ?thesis .
  qed
  have used2: "page_used s2 n = page_used (s\<lparr>ram := ?m\<rparr>) n" for n by (simp add: page_used_def s2_eq)
  have tab: "table_at s2 q = (if q = [] then Some (frame_va s k) else None)" if q: "is_path q" for q
  proof (cases q)
    case (Cons j r)
    then have "j < 512" using q by (simp add: is_path_def)
    then show ?thesis by (simp add: Cons s2_eq entry_memset[OF wf k(2)] entry_present_def)
  qed (simp add: s2_eq)
  have va: "frame_va s2 = frame_va s"
    by (simp add: s2_eq frame_va_def phys_to_virt_def page_addr_def fun_eq_iff)
  have wf2: "pmm_wf s2"
    using wf used bitmap_pages_le[of s] unfolding pmm_wf_def used2 by (simp add: s2_eq bitmap_pages_def)
  have geo2: "page_count s2 = page_count s" "bitmap_pages s2 = bitmap_pages s" "physical_base s2 = physical_base s"
    by (simp_all add: s2_eq bitmap_pages_def)
  have own: "owned_frame s2 k" using k(2) kb used[OF k(2)] by (simp add: owned_frame_def used2 geo2)
  have only: "q = [] \<and> t = frame_va s2 k" if "is_path q" "table_at s2 q = Some t" for q t
    using that(2) unfolding tab[OF that(1)] va by (simp split: if_splits)
  show "vm_ok s2"
    by (rule vm_okI[OF wf2]) (use geo own only in \<open>simp add: geo2\<close>, use geo in \<open>simp add: geo2\<close>,
      use own only in blast, use only in blast)
  show "free_count s \<le> free_count s2 + 1"
    using free_count_take[OF k(2) used] unfolding free_count_def used2 by (simp add: s2_eq)
  show "getPhysicalAddress s2 v = 0"
    unfolding getPhysicalAddress_walk tab[OF is_path_table_path] by (simp add: table_path_def)
  show "hhdm s2 = hhdm s" by (simp add: s2_eq)
  show "client_byte s2 x \<and> ram s2 x = ram s x" if x: "page_count s \<le> frame_of s x"
  proof -
    have b: "bitmap_pages s \<le> frame_of s x" using x bitmap_pages_le[of s] by simp
    have "frame_of s2 x = frame_of s x" by (simp add: s2_eq frame_of_def)
    then have "client_byte s2 x" using x b by (simp add: client_byte_def geo2)
    moreover have "ram s2 x = ram s x"
      using x b k(2) by (simp add: s2_eq memset_frame[OF wf k(2)] bitmap_set_frame)
    ultimately show ?thesis by simp
  qed
qed

section \<open>The direct map\<close>

lemma offset_nat: "x AND 0xFFF = of_nat (unat (x :: u64) mod 4096)"
proof -
  have "x AND 0xFFF = take_bit 12 x" by (simp add: take_bit_eq_mask mask_eq_exp_minus_1)
  moreover have "unat (take_bit 12 x) = unat x mod 4096" by (simp add: take_bit_eq_mod unat_mod)
  ultimately show ?thesis by (metis of_nat_unat ucast_id)
qed

lemma page_start_nat: "page_start x = of_nat (unat x div 4096 * 4096)"
proof -
  have "unat (drop_bit 12 x) = unat x div 4096" by (simp add: drop_bit_eq_div unat_div)
  then have "drop_bit 12 x = of_nat (unat x div 4096)" by (metis of_nat_unat ucast_id)
  then show ?thesis by (simp add: page_start_def push_bit_eq_mult)
qed

lemma vpage_direct:
  assumes "unat h mod 4096 = 0"
  shows "unat (vpage (p + h)) = (unat h div 4096 + unat p div 4096) mod 2 ^ 36"
proof -
  let ?r = "of_nat (unat p mod 4096) :: u64"
  have r: "unat ?r = unat p mod 4096" by (intro unat_of_nat_small) (simp add: mod_less_divisor less_trans)
  have small: "unat p mod 4096 < 4096" by simp
  obtain H where H: "unat h = H * 4096" using assms by (metis mod_0_imp_dvd dvdE mult.commute)
  then have "H * 4096 + unat p mod 4096 < 2 ^ 64" using unat_lt64[of h] small by simp
  then have "unat (h + ?r) = H * 4096 + unat p mod 4096" using r H by (simp add: unat_add_nowrap)
  then have d: "unat (h + ?r) div 4096 = unat h div 4096" using small H by simp
  have "of_nat (unat p mod 4096 + unat p div 4096 * 4096) = p" by (simp only: mod_div_mult_eq) simp
  then have "?r + of_nat (unat p div 4096) * 4096 = p" unfolding of_nat_add of_nat_mult by simp
  then have "p + h = (h + ?r) + of_nat (unat p div 4096) * 4096"
    by (simp only: add.assoc) (simp only: add.commute)
  then show ?thesis using unat_vpage[of "h + ?r" "unat p div 4096"] unfolding d by (simp only:)
qed

lemma direct_page:
  assumes h: "unat h mod 4096 = 0" and p: "unat p < 2 ^ 40" and b: "unat b < 2 ^ 40"
    and eq: "vpage (p + h) = vpage (b + h)"
  shows "page_start b + ((p + h) AND 0xFFF) = p"
proof -
  have "(unat h div 4096 + unat p div 4096) mod 2 ^ 36 = (unat h div 4096 + unat b div 4096) mod 2 ^ 36"
    using arg_cong[OF eq, of unat] unfolding vpage_direct[OF h] .
  then have "unat p div 4096 mod 2 ^ 36 = unat b div 4096 mod 2 ^ 36" by (rule add_mod_cancel)
  then have same: "unat p div 4096 = unat b div 4096" using p b by simp
  have "unat (p + h) mod 4096 = (unat p + unat h) mod 4096"
    by (simp add: unat_word_ariths mod_mod_cancel)
  also have "\<dots> = unat p mod 4096" using h by (simp add: mod_add_eq[symmetric])
  finally have "page_start b + ((p + h) AND 0xFFF) = of_nat (unat p div 4096 * 4096 + unat p mod 4096)"
    unfolding offset_nat page_start_nat same by simp
  then show ?thesis by (simp only: div_mult_mod_eq) simp
qed

definition entry_mapped :: "limine_memmap_entry \<Rightarrow> bool" where
  "entry_mapped e \<longleftrightarrow> me_type e \<noteq> LIMINE_MEMMAP_RESERVED \<and> me_type e \<noteq> LIMINE_MEMMAP_BAD_MEMORY"

definition entry_pages :: "limine_memmap_entry \<Rightarrow> nat" where
  "entry_pages e = (if entry_mapped e then unat ((me_length e + 4096 - 1) div 4096) else 0)"

definition entry_fits :: "limine_memmap_entry \<Rightarrow> bool" where
  "entry_fits e \<longleftrightarrow> (entry_mapped e \<longrightarrow>
     unat (me_base e) mod 4096 = 0 \<and> unat (me_base e) + unat (me_length e) + 4096 \<le> 2 ^ 40)"

definition entry_addrs :: "limine_memmap_entry \<Rightarrow> u64 set" where
  "entry_addrs e = {p. entry_mapped e \<and> unat (me_base e) \<le> unat p \<and>
     unat p < unat (me_base e) + unat (me_length e)}"

text \<open>The addresses of \<open>S\<close> are translated back from their image in the direct map.\<close>

definition direct_ok :: "'a vmm_scheme \<Rightarrow> u64 set \<Rightarrow> bool" where
  "direct_ok s S \<longleftrightarrow> (\<forall>p \<in> S. unat p < 2 ^ 40 \<and> getPhysicalAddress s (p + hhdm s) = p)"

lemma entry_pages_bounds:
  assumes "entry_fits e" and "entry_mapped e"
  shows "entry_pages e * 4096 \<le> unat (me_length e) + 4095" "unat (me_length e) \<le> entry_pages e * 4096"
proof -
  have "unat (me_length e) + 4096 \<le> 2 ^ 40" using assms by (simp add: entry_fits_def)
  then have "unat (me_length e + 4095) = unat (me_length e) + 4095" by (simp add: unat_add_nowrap)
  then have "entry_pages e = (unat (me_length e) + 4095) div 4096"
    using assms(2) by (simp add: entry_pages_def unat_div add.commute[of 4095 "me_length e"])
  then show "entry_pages e * 4096 \<le> unat (me_length e) + 4095" "unat (me_length e) \<le> entry_pages e * 4096"
    by simp_all
qed

text \<open>The virtual pages at which a region is mapped.\<close>

definition entry_vaddrs :: "u64 \<Rightarrow> limine_memmap_entry \<Rightarrow> u64 set" where
  "entry_vaddrs h e = (if entry_mapped e then page_set (me_base e + h) ((me_length e + 4096 - 1) div 4096) else {})"

lemma map_entry_direct:
  assumes ok: "vm_ok s" and h: "unat (hhdm s) mod 4096 = 0" and e: "entry_fits e"
    and V: "entry_vaddrs (hhdm s) e \<subseteq> V" "finite V" and room: "tables_needed s V \<le> free_count s" and d: "direct_ok s S"
  shows "vm_ok (map_entry e s) \<and> thrifty V s (map_entry e s) \<and>
    direct_ok (map_entry e s) (S \<union> entry_addrs e) \<and> (\<exists>m. map_entry e s = s\<lparr>ram := m\<rparr>)"
proof (cases "entry_mapped e")
  case False
  then have "map_entry e s = s" "entry_addrs e = {}" by (auto simp: map_entry_def entry_mapped_def entry_addrs_def)
  with ok d show ?thesis by (auto simp: thrifty_def intro: exI[of _ "ram s"])
next
  case True
  let ?n = "(me_length e + 4096 - 1) div 4096" and ?b = "me_base e"
  let ?s = "map_page s (?b + hhdm s) ?b 3 ?n"
  have n: "unat ?n = entry_pages e" using True by (simp add: entry_pages_def)
  have eq: "map_entry e s = ?s" using True by (simp add: map_entry_def entry_mapped_def)
  note len = entry_pages_bounds[OF e True]
  have fit: "unat ?b mod 4096 = 0" "unat ?b + entry_pages e * 4096 \<le> 2 ^ 40"
    using e True len(1) by (simp_all add: entry_fits_def)
  have three: "bit (3 :: u64) 0" by simp
  have sub: "page_set (?b + hhdm s) ?n \<subseteq> V" using V(1) True by (simp add: entry_vaddrs_def)
  have room': "tables_needed s (page_set (?b + hhdm s) ?n) \<le> free_count s"
    by (rule order_trans[OF tables_needed_mono[OF sub V(2)] room])
  have fit': "unat ?b + unat ?n * 4096 \<le> 2 ^ 40" using fit(2) unfolding n by simp
  note facts = map_page_sharp[where virt = "?b + hhdm s", OF ok three room' fit' refl]
  have addr: "unat (?b + of_nat i * 4096) = unat ?b + i * 4096" if "i < entry_pages e" for i
  proof -
    have "i * 4096 + unat ?b < 2 ^ 40" using that fit(2) by simp
    moreover from this have "unat (of_nat (i * 4096) :: u64) = i * 4096" by (intro unat_of_nat_small) simp
    ultimately show ?thesis by (simp add: unat_add_nowrap)
  qed
  have "getPhysicalAddress ?s (p + hhdm s) = p" if p: "p \<in> S \<union> entry_addrs e" and lt: "unat p < 2 ^ 40" for p
  proof (cases "\<exists>i < entry_pages e. vpage (p + hhdm s) = vpage (?b + of_nat i * 4096 + hhdm s)")
    case True
    then obtain i where i: "i < entry_pages e" "vpage (p + hhdm s) = vpage (?b + of_nat i * 4096 + hhdm s)"
      by blast
    moreover have "?b + hhdm s + of_nat i * 4096 = ?b + of_nat i * 4096 + hhdm s" by simp
    ultimately have "getPhysicalAddress ?s (p + hhdm s) = page_start (?b + of_nat i * 4096) + ((p + hhdm s) AND 0xFFF)"
      using facts(3)[of i "p + hhdm s"] unfolding n by (simp only:)
    moreover have "unat (?b + of_nat i * 4096) < 2 ^ 40" using addr[OF i(1)] i(1) fit(2) by simp
    ultimately show ?thesis using direct_page[OF h lt _ i(2)] by (simp only:)
  next
    case False
    have "p \<notin> entry_addrs e"
    proof
      assume "p \<in> entry_addrs e"
      then have r: "unat ?b \<le> unat p" "unat p < unat ?b + unat (me_length e)" by (simp_all add: entry_addrs_def)
      let ?i = "(unat p - unat ?b) div 4096"
      have i: "?i < entry_pages e" using r len(2) by (simp add: less_mult_imp_div_less)
      have "(unat ?b + ?i * 4096) div 4096 = unat p div 4096" using r fit(1) by (auto elim!: dvdE simp: mod_0_imp_dvd)
      then have "unat (vpage (p + hhdm s)) = unat (vpage (?b + of_nat ?i * 4096 + hhdm s))"
        unfolding vpage_direct[OF h] addr[OF i] by simp
      then have "vpage (p + hhdm s) = vpage (?b + of_nat ?i * 4096 + hhdm s)" by (simp only: word_unat_eq_iff)
      with False i show False by blast
    qed
    with p d have "getPhysicalAddress s (p + hhdm s) = p" by (simp add: direct_ok_def)
    moreover have "?b + hhdm s + of_nat i * 4096 = ?b + of_nat i * 4096 + hhdm s" for i by simp
    ultimately show ?thesis using facts(4)[of "p + hhdm s"] False unfolding n by (simp only:) blast
  qed
  moreover have "unat p < 2 ^ 40" if "p \<in> S \<union> entry_addrs e" for p
    using that d fit(2) len(2) by (auto simp: direct_ok_def entry_addrs_def)
  ultimately have "direct_ok ?s (S \<union> entry_addrs e)" by (simp add: direct_ok_def)
  with facts(1) facts(2)[OF sub V(2)] map_page_only_ram show ?thesis unfolding eq by blast
qed

lemma map_entries_direct:
  assumes "vm_ok s" and "unat (hhdm s) mod 4096 = 0" and "\<forall>e \<in> set es. entry_fits e"
    and "\<Union> (entry_vaddrs (hhdm s) ` set es) \<subseteq> V" and "finite V" and "tables_needed s V \<le> free_count s" and "direct_ok s S"
  shows "vm_ok (fold map_entry es s) \<and> thrifty V s (fold map_entry es s) \<and>
    direct_ok (fold map_entry es s) (S \<union> (\<Union>e \<in> set es. entry_addrs e)) \<and>
    (\<exists>m. fold map_entry es s = s\<lparr>ram := m\<rparr>)"
  using assms(1-4,6,7)
proof (induction es arbitrary: s S)
  case Nil
  then show ?case by (auto simp: thrifty_def intro: exI[of _ "ram s"])
next
  case (Cons e es)
  let ?s = "map_entry e s"
  have step: "vm_ok ?s \<and> thrifty V s ?s \<and> direct_ok ?s (S \<union> entry_addrs e) \<and> (\<exists>m. ?s = s\<lparr>ram := m\<rparr>)"
    using Cons.prems assms(5) by (intro map_entry_direct) auto
  then have "hhdm ?s = hhdm s" by auto
  moreover have "tables_needed ?s V \<le> free_count ?s" using thrifty_room[of V s ?s] step Cons.prems(5) by blast
  ultimately have "vm_ok (fold map_entry es ?s) \<and> thrifty V ?s (fold map_entry es ?s) \<and>
    direct_ok (fold map_entry es ?s) (S \<union> entry_addrs e \<union> (\<Union>e \<in> set es. entry_addrs e)) \<and>
    (\<exists>m. fold map_entry es ?s = ?s\<lparr>ram := m\<rparr>)"
    using Cons.prems(2-4) step by (intro Cons.IH) auto
  moreover from this step have "thrifty V s (fold map_entry es ?s)" using thrifty_trans by blast
  ultimately show ?case using step by (auto simp: Un_assoc)
qed

text \<open>The pages of the two parts of the kernel image, and what the linker script guarantees of them.\<close>

definition ro_pages :: "kernel_image \<Rightarrow> u64" where
  "ro_pages img = (p_writeallowed_start img - p_kernel_start img + 4096 - 1) div 4096"

definition rw_pages :: "kernel_image \<Rightarrow> u64" where
  "rw_pages img = (p_kernel_end img - p_writeallowed_start img + 4096 - 1) div 4096"

definition image_vpages :: "kernel_image \<Rightarrow> u64 set" where
  "image_vpages img =
     {vpage (p_kernel_start img + of_nat i * 4096) |i. i < unat (ro_pages img)} \<union>
     {vpage (p_writeallowed_start img + of_nat i * 4096) |i. i < unat (rw_pages img)}"

definition image_fits :: "kernel_image \<Rightarrow> 'a vmm_scheme \<Rightarrow> bool" where
  "image_fits img s \<longleftrightarrow>
     (let offset = kernel_virtual_base s - kernel_physical_base s in
      unat (p_kernel_start img - offset) + unat (ro_pages img) * 4096 \<le> 2 ^ 40 \<and>
      unat (p_writeallowed_start img - offset) + unat (rw_pages img) * 4096 \<le> 2 ^ 40)"

definition image_vaddrs :: "kernel_image \<Rightarrow> u64 set" where
  "image_vaddrs img = page_set (p_kernel_start img) (ro_pages img) \<union> page_set (p_writeallowed_start img) (rw_pages img)"

lemma map_kernel_keeps:
  assumes ok: "vm_ok s" and fit: "image_fits img s"
    and V: "image_vaddrs img \<subseteq> V" "finite V" and room: "tables_needed s V \<le> free_count s"
  shows "vm_ok (map_kernel img s)" "\<exists>m. map_kernel img s = s\<lparr>ram := m\<rparr>"
    "vpage v \<notin> image_vpages img \<Longrightarrow> getPhysicalAddress (map_kernel img s) v = getPhysicalAddress s v"
    "thrifty V s (map_kernel img s)"
proof -
  let ?off = "kernel_virtual_base s - kernel_physical_base s"
  let ?s1 = "map_page s (p_kernel_start img) (p_kernel_start img - ?off) 1 (ro_pages img)"
  let ?s2 = "map_page ?s1 (p_writeallowed_start img) (p_writeallowed_start img - ?off) 3 (rw_pages img)"
  have eq: "map_kernel img s = ?s2" by (simp add: map_kernel_def Let_def ro_pages_def rw_pages_def)
  have b: "bit (1 :: u64) 0" "bit (3 :: u64) 0" by simp_all
  have sub: "page_set (p_kernel_start img) (ro_pages img) \<subseteq> V" "page_set (p_writeallowed_start img) (rw_pages img) \<subseteq> V"
    using V(1) by (auto simp: image_vaddrs_def)
  note r1 = order_trans[OF tables_needed_mono[OF sub(1) V(2)] room]
  have f: "unat (p_kernel_start img - ?off) + unat (ro_pages img) * 4096 \<le> 2 ^ 40"
    "unat (p_writeallowed_start img - ?off) + unat (rw_pages img) * 4096 \<le> 2 ^ 40"
    using fit by (simp_all add: image_fits_def Let_def)
  note one = map_page_sharp[where virt = "p_kernel_start img", OF ok b(1) r1 f(1) refl]
  note r2 = order_trans[OF tables_needed_mono[OF sub(2) V(2)] thrifty_room[OF one(2)[OF sub(1) V(2)] room]]
  note two = map_page_sharp[where virt = "p_writeallowed_start img", OF one(1) b(2) r2 f(2) refl]
  show "vm_ok (map_kernel img s)" unfolding eq by (rule two(1))
  show "thrifty V s (map_kernel img s)" unfolding eq by (rule thrifty_trans[OF one(2)[OF sub(1) V(2)] two(2)[OF sub(2) V(2)]])
  obtain m1 m2 where "?s1 = s\<lparr>ram := m1\<rparr>" "?s2 = ?s1\<lparr>ram := m2\<rparr>"
    using map_page_only_ram by blast
  then show "\<exists>m. map_kernel img s = s\<lparr>ram := m\<rparr>" unfolding eq by auto
  show "getPhysicalAddress (map_kernel img s) v = getPhysicalAddress s v" if v: "vpage v \<notin> image_vpages img"
  proof -
    have "getPhysicalAddress ?s2 v = getPhysicalAddress ?s1 v"
      by (rule two(4)) (use v in \<open>auto simp: image_vpages_def\<close>)
    also have "\<dots> = getPhysicalAddress s v"
      by (rule one(4)) (use v in \<open>auto simp: image_vpages_def\<close>)
    finally show ?thesis unfolding eq .
  qed
qed

lemma cr3_irrelevant [simp]:
  "vm_ok (s\<lparr>cr3 := c\<rparr>) = vm_ok s" "getPhysicalAddress (s\<lparr>cr3 := c\<rparr>) v = getPhysicalAddress s v"
proof -
  have n: "next_table (s\<lparr>cr3 := c\<rparr>) = next_table s" by (simp add: next_table_def phys_to_virt_def fun_eq_iff)
  have "walk (s\<lparr>cr3 := c\<rparr>) t p = walk s t p" for t p by (induction p arbitrary: t) (simp_all add: n)
  then show "vm_ok (s\<lparr>cr3 := c\<rparr>) = vm_ok s"
    by (simp add: vm_ok_def pmm_wf_def bitmap_pages_def page_used_def frame_va_def phys_to_virt_def
        page_addr_def owned_frame_def)
  show "getPhysicalAddress (s\<lparr>cr3 := c\<rparr>) v = getPhysicalAddress s v"
    by (simp add: getPhysicalAddress_def n Let_def)
qed

text \<open>All virtual pages that \<open>initPML4\<close> maps, and the tables that lead to them.\<close>

definition boot_vaddrs :: "limine_memmap_entry list \<Rightarrow> kernel_image \<Rightarrow> u64 \<Rightarrow> u64 set" where
  "boot_vaddrs memmap img h = \<Union> (entry_vaddrs h ` set memmap) \<union> image_vaddrs img"

definition boot_tables :: "limine_memmap_entry list \<Rightarrow> kernel_image \<Rightarrow> u64 \<Rightarrow> u64 list set" where
  "boot_tables memmap img h = \<Union> (table_paths ` boot_vaddrs memmap img h)"

text \<open>The pages of two megabytes share their tables.\<close>

lemma idx_nat:
  "unat (pd_idx v) = unat v div 2 ^ 21 mod 512" "unat (pdp_idx v) = unat v div 2 ^ 30 mod 512" "unat (pml4_idx v) = unat v div 2 ^ 39 mod 512"
proof -
  have "x AND 0x1FF = take_bit 9 x" for x :: u64 by (simp add: take_bit_eq_mask mask_eq_exp_minus_1)
  then show "unat (pd_idx v) = unat v div 2 ^ 21 mod 512" "unat (pdp_idx v) = unat v div 2 ^ 30 mod 512"
    "unat (pml4_idx v) = unat v div 2 ^ 39 mod 512"
    by (simp_all add: pd_idx_def pdp_idx_def pml4_idx_def take_bit_eq_mod drop_bit_eq_div unat_mod unat_div)
qed

lemma table_paths_region:
  assumes "unat v div 2 ^ 21 = unat w div 2 ^ 21"
  shows "table_paths v = table_paths w"
proof -
  have "unat v div 2 ^ 30 = unat w div 2 ^ 30" "unat v div 2 ^ 39 = unat w div 2 ^ 39"
    using arg_cong[OF assms, of "\<lambda>x. x div 2 ^ 9"] arg_cong[OF assms, of "\<lambda>x. x div 2 ^ 18"]
    by (simp_all add: div_mult2_eq[symmetric])
  with assms have "pd_idx v = pd_idx w" "pdp_idx v = pdp_idx w" "pml4_idx v = pml4_idx w"
    by (simp_all only: word_unat_eq_iff idx_nat)
  then show ?thesis by (simp add: table_paths_def table_path_def)
qed

lemma page_set_tables:
  assumes "unat virt mod 2 ^ 21 + unat n * 4096 \<le> 2 ^ 21"
  shows "\<Union> (table_paths ` page_set virt n) \<subseteq> table_paths virt"
proof -
  have "table_paths (virt + of_nat i * 4096) = table_paths virt" if i: "i < unat n" for i
  proof (rule table_paths_region)
    have lt: "unat virt mod 2 ^ 21 + i * 4096 < 2 ^ 21" using assms i by simp
    define q r where "q = unat virt div 2 ^ 21" and "r = unat virt mod 2 ^ 21"
    have v: "unat virt = q * 2 ^ 21 + r" and r: "r + i * 4096 < 2 ^ 21" using lt by (simp_all add: q_def r_def)
    have "q < 2 ^ 43" using unat_lt64[of virt] by (simp add: q_def less_mult_imp_div_less)
    then have top: "unat virt + i * 4096 < 2 ^ 64" using v r by simp
    then have "unat (of_nat (i * 4096) :: u64) = i * 4096" by (intro unat_of_nat_small) simp
    with top have u: "unat (virt + of_nat i * 4096) = unat virt + i * 4096" by (simp add: unat_add_nowrap)
    have "(unat virt + i * 4096) div 2 ^ 21 = q" using r by (simp add: v)
    then show "unat (virt + of_nat i * 4096) div 2 ^ 21 = unat virt div 2 ^ 21" unfolding u q_def .
  qed
  then show ?thesis by (auto simp: page_set_def)
qed

lemma finite_boot_vaddrs [simp]: "finite (boot_vaddrs memmap img h)"
  by (simp add: boot_vaddrs_def entry_vaddrs_def image_vaddrs_def)

lemma boot_needs: "tables_needed s (boot_vaddrs memmap img h) \<le> card (boot_tables memmap img h)"
  unfolding tables_needed_def boot_tables_def missing_def by (intro card_mono) (auto simp: table_paths_def)

text \<open>\<open>initPML4\<close> changes memory and the two globals of the page tables.\<close>

lemma initPML4_facts:
  assumes wf: "pmm_wf s" and geo: "unat (physical_base s) mod 4096 = 0"
      "unat (physical_base s) + page_count s * 4096 \<le> 2 ^ 40" "unat (hhdm s) mod 4096 = 0"
    and fits: "\<forall>e \<in> set memmap. entry_fits e" "image_fits img s"
    and room: "card (boot_tables memmap img (hhdm s)) + 1 \<le> free_count s"
    and s': "s' = initPML4 memmap img s"
  shows "vm_ok s'" "PML4 s' = phys_to_virt s' (cr3 s')" "\<exists>m t c. s' = s\<lparr>ram := m, PML4 := t, cr3 := c\<rparr>"
    "e \<in> set memmap \<Longrightarrow> q \<in> entry_addrs e \<Longrightarrow> vpage (q + hhdm s) \<notin> image_vpages img \<Longrightarrow> getPhysicalAddress s' (q + hhdm s) = q"
    "free_count s \<le> free_count s' + card (boot_tables memmap img (hhdm s)) + 1"
proof -
  obtain p s1 where a: "pmm_alloc_page s 1 = (p, s1)" by fastforce
  define s2 where "s2 = s1\<lparr>PML4 := phys_to_virt s1 p, ram := memset (ram s1) (phys_to_virt s1 p) 0 4096\<rparr>"
  let ?s3 = "fold map_entry memmap s2"
  obtain m1 where s1: "s1 = s\<lparr>ram := m1\<rparr>" using pmm_alloc_only_ram[of s 1] a by (metis snd_conv)
  have fresh: "vm_ok s2" "free_count s \<le> free_count s2 + 1" "hhdm s2 = hhdm s"
    using fresh_tables[OF wf geo(1,2) _ a s2_def] room by simp_all
  let ?V = "boot_vaddrs memmap img (hhdm s)"
  have r2: "tables_needed s2 ?V \<le> free_count s2" using boot_needs[of s2 memmap img "hhdm s"] fresh(2) room by simp
  have h2: "unat (hhdm s2) mod 4096 = 0" "\<Union> (entry_vaddrs (hhdm s2) ` set memmap) \<subseteq> ?V"
    using geo(3) fresh(3) by (auto simp: boot_vaddrs_def)
  from map_entries_direct[OF fresh(1) h2(1) fits(1) h2(2) finite_boot_vaddrs r2, of "{}"] obtain m3 where
    e: "vm_ok ?s3" "thrifty ?V s2 ?s3"
      "direct_ok ?s3 (\<Union>e \<in> set memmap. entry_addrs e)" and s3: "?s3 = s2\<lparr>ram := m3\<rparr>"
    by (auto simp: direct_ok_def)
  have fit3: "image_fits img ?s3" using fits(2) unfolding s3 by (simp add: s2_def s1 image_fits_def)
  have img: "image_vaddrs img \<subseteq> ?V" by (simp add: boot_vaddrs_def)
  note k = map_kernel_keeps[OF e(1) fit3 img finite_boot_vaddrs thrifty_room[OF e(2) r2]]
  obtain m4 where s4: "map_kernel img ?s3 = s2\<lparr>ram := m4\<rparr>" using k(2) s3 by auto
  have eq: "s' = (map_kernel img ?s3)\<lparr>cr3 := p\<rparr>"
    by (simp add: s' initPML4_def a s2_def map_all_mem_def Let_def)
  show "getPhysicalAddress s' (q + hhdm s) = q"
    if "e \<in> set memmap" "q \<in> entry_addrs e" "vpage (q + hhdm s) \<notin> image_vpages img"
  proof -
    have "hhdm ?s3 = hhdm s" unfolding s3 using fresh(3) by simp
    then have "getPhysicalAddress ?s3 (q + hhdm s) = q" using e(3) that(1,2) by (auto simp: direct_ok_def)
    then show ?thesis using k(3)[OF that(3)] by (simp add: eq)
  qed
  show "PML4 s' = phys_to_virt s' (cr3 s')"
    unfolding eq s4 by (simp add: s2_def phys_to_virt_def)
  show "vm_ok s'" using k(1) by (simp add: eq)
  have "s' = s\<lparr>ram := m4, PML4 := phys_to_virt s1 p, cr3 := p\<rparr>" unfolding eq s4 by (simp add: s2_def s1)
  then show "\<exists>m t c. s' = s\<lparr>ram := m, PML4 := t, cr3 := c\<rparr>" by blast
  have "free_count s' = free_count (map_kernel img ?s3)" by (simp add: eq free_count_def page_used_def)
  then show "free_count s \<le> free_count s' + card (boot_tables memmap img (hhdm s)) + 1"
    using thrifty_trans[OF e(2) k(4)] boot_needs[of s2 memmap img "hhdm s"] fresh(2) by (simp add: thrifty_def)
qed

text \<open>
  C9. \<open>initPML4\<close> builds the direct map: when a frame is free for every table that the mapped pages need, the new
  address space is well-formed, \<open>kernel.cr3\<close> holds the physical address of its top-level table, and
  every byte of every region of the memory map that is neither reserved nor bad, at \<open>p + hhdm\<close>, is
  translated to \<open>p\<close>, except on pages where the kernel image itself is mapped.
\<close>

theorem initPML4_direct_map:
  assumes wf: "pmm_wf s" and geo: "unat (physical_base s) mod 4096 = 0"
      "unat (physical_base s) + page_count s * 4096 \<le> 2 ^ 40" "unat (hhdm s) mod 4096 = 0"
    and fits: "\<forall>e \<in> set memmap. entry_fits e" "image_fits img s"
    and room: "card (boot_tables memmap img (hhdm s)) + 1 \<le> free_count s"
    and s': "s' = initPML4 memmap img s"
  shows "vm_ok s' \<and> PML4 s' = phys_to_virt s' (cr3 s') \<and>
    (\<forall>e \<in> set memmap. \<forall>p \<in> entry_addrs e. vpage (p + hhdm s) \<notin> image_vpages img \<longrightarrow>
       getPhysicalAddress s' (p + hhdm s) = p)"
  using initPML4_facts[OF assms] by blast

text \<open>A machine with 64 pages of memory at 4 KiB and one bitmap page, used to instantiate the theorems.\<close>

definition ex_vmm :: vmm where
  "ex_vmm =
     \<lparr>ram = (\<lambda>_. 0)(0x80001000 := 1), hhdm = 0x80000000, trace = [], heap = 0, brk = 0, endp = 0, base = 0,
      physical_base = 0x1000, physical_size = 0x40000,
      bitmap = 0x80001000, total_pages = 64, bitmap_size = 8, usable_base = 0x2000,
      PML4 = 0, cr3 = 0, kernel_virtual_base = 0xFFFFFFFF80000000, kernel_physical_base = 0x8000\<rparr>"

definition ex_img :: kernel_image where
  "ex_img = \<lparr>p_kernel_start = 0xFFFFFFFF80000000, p_writeallowed_start = 0xFFFFFFFF80001000,
     p_kernel_end = 0xFFFFFFFF80002000\<rparr>"

definition ex_map :: "limine_memmap_entry list" where
  "ex_map = [\<lparr>me_base = 0x1000, me_length = 0x40000, me_type = 0\<rparr>, \<lparr>me_base = 0x9000, me_length = 0x1000, me_type = 1\<rparr>]"

lemma ex_vmm_wf: "pmm_wf ex_vmm"
  by (simp add: pmm_wf_def ex_vmm_def bitmap_pages_def page_used_def BITMAP_TEST_def)

lemma ex_vmm_free: "28 \<le> free_count ex_vmm"
proof -
  have "\<forall>k \<in> set [8..<36]. \<not> page_used ex_vmm k"
    by (simp add: upt_rec page_used_def BITMAP_TEST_def ex_vmm_def)
  then have free: "\<forall>k \<in> {8..<36}. \<not> page_used ex_vmm k" by (simp only: set_upt)
  have "page_count ex_vmm = 64" by (simp add: ex_vmm_def)
  with free have "{8..<36} \<subseteq> {k. k < page_count ex_vmm \<and> \<not> page_used ex_vmm k}" by auto
  then have "card {8..<36 :: nat} \<le> free_count ex_vmm"
    unfolding free_count_def by (intro card_mono) auto
  then show ?thesis by simp
qed

lemma ex_vmm_geometry:
  "unat (physical_base ex_vmm) mod 4096 = 0"
  "unat (physical_base ex_vmm) + page_count ex_vmm * 4096 \<le> 2 ^ 40" "unat (hhdm ex_vmm) mod 4096 = 0"
  by (simp_all add: ex_vmm_def)

lemma ex_boot_tables: "card (boot_tables ex_map ex_img 0x80000000) \<le> 9"
proof -
  have three: "card (table_paths v) \<le> 3" for v by (simp add: table_paths_def card_insert_if)
  let ?A = "table_paths 0x80001000" and ?B = "table_paths 0xFFFFFFFF80000000" and ?C = "table_paths 0xFFFFFFFF80001000"
  have "boot_tables ex_map ex_img 0x80000000 \<subseteq> ?A \<union> (?B \<union> ?C)"
    using page_set_tables[of "0x80001000" 64] page_set_tables[of "0xFFFFFFFF80000000" 1] page_set_tables[of "0xFFFFFFFF80001000" 1]
    by (auto simp: boot_tables_def boot_vaddrs_def ex_map_def entry_vaddrs_def entry_mapped_def image_vaddrs_def ex_img_def ro_pages_def rw_pages_def)
  then have "card (boot_tables ex_map ex_img 0x80000000) \<le> card (?A \<union> (?B \<union> ?C))"
    by (intro card_mono) (simp_all add: table_paths_def)
  also have "\<dots> \<le> card ?A + (card ?B + card ?C)" using card_Un_le[of ?A "?B \<union> ?C"] card_Un_le[of ?B ?C] by linarith
  finally show ?thesis using three[of "0x80001000"] three[of "0xFFFFFFFF80000000"] three[of "0xFFFFFFFF80001000"] by linarith
qed

theorem initPML4_direct_map_witness:
  "vm_ok (initPML4 ex_map ex_img ex_vmm) \<and>
   PML4 (initPML4 ex_map ex_img ex_vmm) =
     phys_to_virt (initPML4 ex_map ex_img ex_vmm) (cr3 (initPML4 ex_map ex_img ex_vmm)) \<and>
   getPhysicalAddress (initPML4 ex_map ex_img ex_vmm) (0x2ABC + hhdm ex_vmm) = 0x2ABC"
proof -
  have "\<forall>e \<in> set ex_map. entry_fits e" by (simp add: ex_map_def entry_fits_def)
  moreover have "image_fits ex_img ex_vmm"
    by (simp add: image_fits_def ex_img_def ex_vmm_def ro_pages_def rw_pages_def)
  moreover have "card (boot_tables ex_map ex_img (hhdm ex_vmm)) + 1 \<le> free_count ex_vmm"
    using ex_boot_tables ex_vmm_free by (simp add: ex_vmm_def)
  moreover have "hd ex_map \<in> set ex_map" "0x2ABC \<in> entry_addrs (hd ex_map)"
    by (simp_all add: ex_map_def entry_addrs_def entry_mapped_def)
  moreover have "vpage (0x2ABC + hhdm ex_vmm) \<notin> image_vpages ex_img"
    by (simp add: image_vpages_def ex_img_def ex_vmm_def ro_pages_def rw_pages_def vpage_def)
  ultimately show ?thesis
    using initPML4_direct_map[OF ex_vmm_wf ex_vmm_geometry _ _ _ refl] by blast
qed

definition ex_tables :: vmm where
  "ex_tables = (let (p, s1) = pmm_alloc_page ex_vmm 1
     in s1\<lparr>PML4 := phys_to_virt s1 p, ram := memset (ram s1) (phys_to_virt s1 p) 0 4096\<rparr>)"

lemma ex_tables_ok: "vm_ok ex_tables" "27 \<le> free_count ex_tables"
proof -
  obtain p s1 where a: "pmm_alloc_page ex_vmm 1 = (p, s1)" by fastforce
  have eq: "ex_tables = s1\<lparr>PML4 := phys_to_virt s1 p, ram := memset (ram s1) (phys_to_virt s1 p) 0 4096\<rparr>"
    by (simp add: ex_tables_def a)
  have "0 < free_count ex_vmm" using ex_vmm_free by simp
  from fresh_tables[OF ex_vmm_wf ex_vmm_geometry(1,2) this a eq] ex_vmm_free
  show "vm_ok ex_tables" "27 \<le> free_count ex_tables" by simp_all
qed

theorem map_page_correct_witness:
  "vm_ok (map_page ex_tables 0xFFFF800000123000 0x5000 3 2) \<and>
   getPhysicalAddress (map_page ex_tables 0xFFFF800000123000 0x5000 3 2) 0xFFFF800000124ABC = 0x6ABC"
proof -
  let ?s = "map_page ex_tables 0xFFFF800000123000 0x5000 3 2"
  have "vm_ok ?s \<and>
    (\<forall>i < unat (2 :: u64). \<forall>v. vpage v = vpage (0xFFFF800000123000 + of_nat i * 4096) \<longrightarrow>
       getPhysicalAddress ?s v = page_start (0x5000 + of_nat i * 4096) + (v AND 0xFFF))"
    using map_page_correct[where s = ex_tables and flags = 3 and num_pages = 2 and phys = "0x5000"
        and virt = "0xFFFF800000123000", OF _ _ _ _ refl] ex_tables_ok page_set_needs[of ex_tables "0xFFFF800000123000" 2] by simp
  moreover from this have "getPhysicalAddress ?s 0xFFFF800000124ABC =
      page_start (0x5000 + of_nat 1 * 4096) + (0xFFFF800000124ABC AND 0xFFF)"
    by (elim conjE allE[of _ 1] allE[of _ "0xFFFF800000124ABC"]) (simp add: vpage_def)
  ultimately show ?thesis by (simp add: page_start_def)
qed

section \<open>Limits of the code\<close>

text \<open>
  C10. \<open>setPageTableEntry\<close> can set neither the global nor the no-execute bit, because it tests bits 8 and
  9 of flags that it takes as \<open>uint8_t\<close>; and it splits the three-bit field \<open>avl1\<close> off \<open>available\<close> with
  a two-bit mask, so that bit 2 of \<open>available\<close> is stored nowhere.
\<close>

theorem setPageTableEntry_lost_bits:
  "\<not> bit (setPageTableEntry entry flags phys available) 8 \<and>
   \<not> bit (setPageTableEntry entry flags phys available) 63 \<and>
   setPageTableEntry entry flags phys (available OR 4) = setPageTableEntry entry flags phys available"
proof -
  have same: "bit (available OR 4) n = bit available n" if "n \<noteq> 2" for n
  proof -
    have "\<not> bit (2 ^ 2 :: u16) n" using that unfolding bit_exp_iff by simp
    then have "\<not> bit (4 :: u16) n" by simp
    then show ?thesis by (simp only: bit_or_iff) simp
  qed
  have "bit (available OR 4) (n - 9) = bit available (n - 9)" if "n = 9 \<or> n = 10" for n
    using that same[of "n - 9"] by fastforce
  moreover have "bit (available OR 4) (n - 49) = bit available (n - 49)" if "52 \<le> n" for n
    using that same[of "n - 49"] by simp
  ultimately have "setPageTableEntry entry flags phys (available OR 4) = setPageTableEntry entry flags phys available"
    by (intro bit_eqI) (simp only: bit_setPageTableEntry cong: if_cong conj_cong)
  then show ?thesis by (simp add: bit_setPageTableEntry)
qed

text \<open>
  C11. \<open>map_page\<close> does not look at the result of \<open>allocateEntry\<close>: when no frame is free and the entry is
  still zero, it goes on with physical page 0, seen through the direct map, as the next table.
\<close>

theorem descend_without_frames:
  assumes "pmm_wf s" and "free_count s = 0" and "entry_at s table index = 0"
  shows "descend s table index = (phys_to_virt s 0, s)"
proof -
  have full: "\<forall>k < page_count s. page_used s k" using assms(2) free_count_pos[of s] by auto
  obtain p s1 where a: "pmm_alloc_page s 1 = (p, s1)" by fastforce
  from pmm_alloc_one_page[OF assms(1) pages_of_1 a] full have "p = 0" "s1 = s" by metis+
  with a assms(3) show ?thesis
    by (simp add: descend_def allocateEntry_def entry_present_def next_table_def entry_physical_address_def)
qed

theorem descend_without_frames_witness:
  "descend (ex_vmm\<lparr>total_pages := 0\<rparr>) 0x5000 7 = (0x80000000, ex_vmm\<lparr>total_pages := 0\<rparr>)"
proof -
  let ?s = "ex_vmm\<lparr>total_pages := 0\<rparr>"
  have "pmm_wf ?s" by (simp add: pmm_wf_def ex_vmm_def bitmap_pages_def)
  moreover have "free_count ?s = 0" by (simp add: free_count_def)
  moreover have "entry_at ?s 0x5000 7 = 0" by (simp add: ldn_numeral ex_vmm_def)
  ultimately have "descend ?s 0x5000 7 = (phys_to_virt ?s 0, ?s)" by (rule descend_without_frames)
  then show ?thesis by (simp add: phys_to_virt_def ex_vmm_def)
qed

lemma virt_to_phys_phys_to_virt:
  assumes "unat p + unat (hhdm s) < 2 ^ 64"
  shows "virt_to_phys s (phys_to_virt s p) = p"
proof -
  have "unat (p + hhdm s) = unat p + unat (hhdm s)" using assms by (simp add: unat_add_nowrap)
  then show ?thesis by (simp add: virt_to_phys_def phys_to_virt_def word_le_nat_alt)
qed

text \<open>
  The kernel image is linked above the direct map, so the second case of \<open>virt_to_phys\<close> is dead:
  an address of the kernel image is taken for one of the direct map.
\<close>

theorem virt_to_phys_image_dead:
  assumes "hhdm s \<le> kernel_virtual_base s" and "kernel_virtual_base s \<le> addr"
  shows "virt_to_phys s addr = addr - hhdm s"
  using order_trans[OF assms] by (simp add: virt_to_phys_def)

theorem virt_to_phys_image_dead_witness:
  "virt_to_phys ex_vmm 0xFFFFFFFF80000123 = 0xFFFFFFFF00000123"
  using virt_to_phys_image_dead[of ex_vmm "0xFFFFFFFF80000123"] by (simp add: ex_vmm_def)

end
