(* ===== verification/Kmem.thy ===== *)
theory Kmem
  imports CString
begin

text \<open>
  The kernel heap of \<^verbatim>\<open>kmem/kmalloc.c\<close>, \<^verbatim>\<open>kmem/kfree.c\<close> and
  \<^verbatim>\<open>kmem/krealloc.c\<close>: a 16 MiB array that \<open>sbrk\<close> hands out from below, with a linked list
  of blocks whose headers lie in the same memory as the data. A header is read and written at the offsets
  that the compiler gives \<open>struct meta_block\<close>: \<open>free\<close> (4 bytes) at 0, \<open>size\<close> at 8, \<open>next\<close> at 16,
  \<open>prev\<close> at 24, \<open>ptr\<close> at 32 and \<open>data\<close> at 40.

  The two loops over the list need not end on a damaged list: they are partial functions, and that they
  return on every heap that the kernel can reach is part of the theorems.
\<close>

section \<open>State\<close>

abbreviation (input) HEAP_SIZE :: u64 where "HEAP_SIZE \<equiv> 0x1000000"
abbreviation (input) META_BLOCK_SIZE :: u64 where "META_BLOCK_SIZE \<equiv> 40"

definition align4 :: "u64 \<Rightarrow> u64" where
  "align4 x = push_bit 2 (drop_bit 2 (x - 1)) + 4"

record meta_block =
  mb_free :: u32
  mb_size :: u64
  mb_next :: u64
  mb_prev :: u64
  mb_ptr :: u64

definition block_at :: "mem \<Rightarrow> u64 \<Rightarrow> meta_block" where
  "block_at m b = \<lparr>mb_free = ld32 m b, mb_size = ld64 m (b + 8), mb_next = ld64 m (b + 16),
     mb_prev = ld64 m (b + 24), mb_ptr = ld64 m (b + 32)\<rparr>"

abbreviation get_free :: "'a kmem_scheme \<Rightarrow> u64 \<Rightarrow> u32" where "get_free s b \<equiv> mb_free (block_at (ram s) b)"
abbreviation get_size :: "'a kmem_scheme \<Rightarrow> u64 \<Rightarrow> u64" where "get_size s b \<equiv> mb_size (block_at (ram s) b)"
abbreviation get_next :: "'a kmem_scheme \<Rightarrow> u64 \<Rightarrow> u64" where "get_next s b \<equiv> mb_next (block_at (ram s) b)"
abbreviation get_prev :: "'a kmem_scheme \<Rightarrow> u64 \<Rightarrow> u64" where "get_prev s b \<equiv> mb_prev (block_at (ram s) b)"
abbreviation get_ptr :: "'a kmem_scheme \<Rightarrow> u64 \<Rightarrow> u64" where "get_ptr s b \<equiv> mb_ptr (block_at (ram s) b)"

definition set_free :: "u64 \<Rightarrow> u32 \<Rightarrow> 'a kmem_scheme \<Rightarrow> 'a kmem_scheme" where
  "set_free b v s = s\<lparr>ram := st32 (ram s) b v\<rparr>"
definition set_size :: "u64 \<Rightarrow> u64 \<Rightarrow> 'a kmem_scheme \<Rightarrow> 'a kmem_scheme" where
  "set_size b v s = s\<lparr>ram := st64 (ram s) (b + 8) v\<rparr>"
definition set_next :: "u64 \<Rightarrow> u64 \<Rightarrow> 'a kmem_scheme \<Rightarrow> 'a kmem_scheme" where
  "set_next b v s = s\<lparr>ram := st64 (ram s) (b + 16) v\<rparr>"
definition set_prev :: "u64 \<Rightarrow> u64 \<Rightarrow> 'a kmem_scheme \<Rightarrow> 'a kmem_scheme" where
  "set_prev b v s = s\<lparr>ram := st64 (ram s) (b + 24) v\<rparr>"
definition set_ptr :: "u64 \<Rightarrow> u64 \<Rightarrow> 'a kmem_scheme \<Rightarrow> 'a kmem_scheme" where
  "set_ptr b v s = s\<lparr>ram := st64 (ram s) (b + 32) v\<rparr>"

section \<open>Allocation\<close>

definition kmem_init :: "'a kmem_scheme \<Rightarrow> 'a kmem_scheme" where
  "kmem_init s = s\<lparr>brk := heap s, endp := heap s + HEAP_SIZE, base := 0\<rparr>"

text \<open>\<open>find_block\<close> returns the block found, 0 if there is none, and the last block it passed.\<close>

partial_function (option) find_block :: "mem \<Rightarrow> u64 \<Rightarrow> u64 \<Rightarrow> u64 \<Rightarrow> (u64 \<times> u64) option" where
  "find_block m b lst sz =
     (if b \<noteq> 0 \<and> (mb_free (block_at m b) = 0 \<or> mb_size (block_at m b) < sz)
      then find_block m (mb_next (block_at m b)) b sz
      else Some (b, lst))"

definition sbrk :: "'a kmem_scheme \<Rightarrow> u64 \<Rightarrow> u64 \<times> 'a kmem_scheme" where
  "sbrk s sz =
     (if sz = 0 then (brk s, s)
      else if brk s + sz > endp s then (-1, s)
      else (brk s, s\<lparr>brk := brk s + sz\<rparr>))"

definition split :: "u64 \<Rightarrow> u64 \<Rightarrow> 'a kmem_scheme \<Rightarrow> 'a kmem_scheme" where
  "split block sz s =
     (let newblock = block + META_BLOCK_SIZE + sz;
          s1 = set_size newblock (get_size s block - sz - META_BLOCK_SIZE) s;
          s2 = set_next newblock (get_next s1 block) s1;
          s3 = set_free newblock 1 s2;
          s4 = set_ptr newblock (newblock + META_BLOCK_SIZE) s3;
          s5 = set_prev newblock block s4;
          s6 = set_next block newblock s5;
          s7 = set_size block sz s6
      in if get_next s7 newblock \<noteq> 0 then set_prev (get_next s7 newblock) newblock s7 else s7)"

definition extend_heap :: "u64 \<Rightarrow> u64 \<Rightarrow> 'a kmem_scheme \<Rightarrow> u64 \<times> 'a kmem_scheme" where
  "extend_heap lst sz s =
     (let (old_break, s0) = sbrk s 0;
          (new_break, s1) = sbrk s0 (META_BLOCK_SIZE + sz)
      in if new_break = -1 then (0, s1)
         else let s2 = set_size old_break sz s1;
                  s3 = set_free old_break 0 s2;
                  s4 = set_next old_break 0 s3;
                  s5 = set_prev old_break 0 s4;
                  s6 = set_ptr old_break (old_break + META_BLOCK_SIZE) s5;
                  s7 = (if lst \<noteq> 0 then set_next lst old_break s6 else s6)
              in (old_break, s7))"

definition kmalloc :: "u64 \<Rightarrow> 'a kmem_scheme \<Rightarrow> (u64 \<times> 'a kmem_scheme) option" where
  "kmalloc sz s =
     (let sa = align4 sz
      in if base s \<noteq> 0
         then case find_block (ram s) (base s) (base s) sa of
                None \<Rightarrow> None
              | Some (block, lst) \<Rightarrow>
                  if block \<noteq> 0
                  then let s1 = (if get_size s block - sa \<ge> META_BLOCK_SIZE + 4
                                 then split block sa s else s)
                       in Some (block + META_BLOCK_SIZE, set_free block 0 s1)
                  else let (block, s1) = extend_heap lst sa s
                       in Some (if block = 0 then 0 else block + META_BLOCK_SIZE, s1)
         else let (block, s1) = extend_heap 0 sa s
              in Some (if block = 0 then (0, s1) else (block + META_BLOCK_SIZE, s1\<lparr>base := block\<rparr>)))"

section \<open>Release\<close>

definition merge_blocks :: "u64 \<Rightarrow> 'a kmem_scheme \<Rightarrow> 'a kmem_scheme" where
  "merge_blocks block s =
     (let s1 = (if get_next s block \<noteq> 0 \<and> get_free s (get_next s block) \<noteq> 0
                then let s' = set_size block
                                (get_size s block + (META_BLOCK_SIZE + get_size s (get_next s block))) s
                     in set_next block (get_next s' (get_next s' block)) s'
                else s)
      in if get_next s1 block \<noteq> 0 then set_prev (get_next s1 block) block s1 else s1)"

partial_function (option) last_block :: "mem \<Rightarrow> u64 \<Rightarrow> u64 option" where
  "last_block m current =
     (if current \<noteq> 0 \<and> mb_next (block_at m current) \<noteq> 0
      then last_block m (mb_next (block_at m current)) else Some current)"

definition get_last_block :: "'a kmem_scheme \<Rightarrow> u64 option" where
  "get_last_block s = last_block (ram s) (base s)"

definition get_block_addr :: "u64 \<Rightarrow> u64" where
  "get_block_addr p = p - META_BLOCK_SIZE"

definition is_addr_valid :: "'a kmem_scheme \<Rightarrow> u64 \<Rightarrow> bool" where
  "is_addr_valid s p =
     (if base s \<noteq> 0 \<and> p > base s \<and> p < fst (sbrk s 0)
      then p = get_ptr s (get_block_addr p) else False)"

definition cbrk :: "u64 \<Rightarrow> 'a kmem_scheme \<Rightarrow> 'a kmem_scheme" where
  "cbrk addr s = (if addr \<ge> endp s \<or> addr < brk s then s else s\<lparr>brk := addr\<rparr>)"

definition kfree :: "u64 \<Rightarrow> 'a kmem_scheme \<Rightarrow> 'a kmem_scheme option" where
  "kfree ptr s =
     (if \<not> is_addr_valid s ptr then Some s
      else let block = get_block_addr ptr;
               s1 = set_free block 1 s;
               (block, s2) = (if get_prev s1 block \<noteq> 0 \<and> get_free s1 (get_prev s1 block) \<noteq> 0
                              then (get_prev s1 block, merge_blocks (get_prev s1 block) s1)
                              else (block, s1))
           in if get_next s2 block \<noteq> 0 then Some (merge_blocks block s2)
              else let s3 = (if get_prev s2 block \<noteq> 0 then set_next (get_prev s2 block) 0 s2
                             else s2\<lparr>base := 0\<rparr>)
                   in case get_last_block s3 of
                        None \<Rightarrow> None
                      | Some l \<Rightarrow> Some (if block = l then cbrk block s3 else s3))"

section \<open>Resizing\<close>

definition krealloc :: "u64 \<Rightarrow> u64 \<Rightarrow> 'a kmem_scheme \<Rightarrow> (u64 \<times> 'a kmem_scheme) option" where
  "krealloc ptr sz s =
     (if ptr = 0 then kmalloc sz s
      else if sz = 0 then map_option (\<lambda>s'. (0, s')) (kfree ptr s)
      else let sa = align4 sz;
               block = ptr - META_BLOCK_SIZE
           in if get_size s block \<ge> sa
              then Some (ptr, if get_size s block - sa \<ge> META_BLOCK_SIZE + 4 then split block sa s else s)
              else if get_next s block \<noteq> 0 \<and> get_free s (get_next s block) \<noteq> 0 \<and>
                      get_size s block + META_BLOCK_SIZE + get_size s (get_next s block) \<ge> sa
              then let combined = get_size s block + META_BLOCK_SIZE + get_size s (get_next s block);
                       nxt = get_next s block;
                       s1 = set_size block combined s;
                       s2 = set_next block (get_next s1 nxt) s1;
                       s3 = (if get_next s2 block \<noteq> 0 then set_prev (get_next s2 block) block s2 else s2)
                   in Some (ptr, if get_size s3 block - sa \<ge> META_BLOCK_SIZE + 4
                                 then split block sa s3 else s3)
              else case kmalloc sz s of
                     None \<Rightarrow> None
                   | Some (newptr, s1) \<Rightarrow>
                       if newptr = 0 then Some (0, s1)
                       else let newblock = newptr - META_BLOCK_SIZE;
                                copy_size = (if get_size s1 block < get_size s1 newblock
                                             then get_size s1 block else get_size s1 newblock);
                                s2 = s1\<lparr>ram := copy_up (ram s1) newptr ptr 0 copy_size\<rparr>
                            in map_option (\<lambda>s3. (newptr, s3)) (kfree ptr s2))"

section \<open>Headers\<close>

text \<open>Headers of two blocks that do not overlap and do not run over the end of the address space.\<close>

definition fits :: "u64 \<Rightarrow> bool" where
  "fits b \<longleftrightarrow> unat b + 40 \<le> 2 ^ 64"

definition apart :: "u64 \<Rightarrow> u64 \<Rightarrow> bool" where
  "apart b c \<longleftrightarrow> unat b + 40 \<le> unat c \<or> unat c + 40 \<le> unat b"

lemma unat_field:
  assumes "fits b" and "d < 40"
  shows "unat (b + of_nat d) = unat b + d"
proof -
  have "unat (of_nat d :: u64) = d" using assms(2) by (intro unat_of_nat_small) simp
  then show ?thesis using assms by (simp add: fits_def unat_add_nowrap)
qed

lemma field_sep_apart:
  assumes "fits b" and "fits c" and "apart b c" and "d + k \<le> 40" and "e + n \<le> 40" and "0 < k" and "0 < n"
  shows "sep (b + of_nat d) k (c + of_nat e) n"
proof -
  have u: "unat (b + of_nat d) = unat b + d" "unat (c + of_nat e) = unat c + e"
    using assms by (auto intro!: unat_field)
  from assms(3) show ?thesis
  proof (unfold apart_def, elim disjE)
    assume "unat b + 40 \<le> unat c"
    with assms show ?thesis by (intro sep_below) (auto simp: u fits_def)
  next
    assume "unat c + 40 \<le> unat b"
    with assms show ?thesis by (subst sep_sym, intro sep_below) (auto simp: u fits_def)
  qed
qed

lemma field_sep_same:
  assumes "fits b" and "d + k \<le> e \<or> e + n \<le> d" and "d + k \<le> 40" and "e + n \<le> 40" and "0 < k" and "0 < n"
  shows "sep (b + of_nat d) k (b + of_nat e) n"
proof -
  have u: "unat (b + of_nat d) = unat b + d" "unat (b + of_nat e) = unat b + e"
    using assms by (auto intro!: unat_field)
  from assms(2) show ?thesis
  proof
    assume "d + k \<le> e"
    with assms show ?thesis by (intro sep_below) (auto simp: u fits_def)
  next
    assume "e + n \<le> d"
    with assms show ?thesis by (subst sep_sym, intro sep_below) (auto simp: u fits_def)
  qed
qed

lemma ld32_st32_same [simp]: "ld32 (st32 m a v) a = v"
  by (rule bit_eqI) (auto simp: ldn_stn_same bit_ucast_iff bit_take_bit_iff)

text \<open>What each assignment to a header does to every header.\<close>

lemma field_stores:
  assumes "fits b"
  shows
    "block_at (st32 m b w) b = (block_at m b)\<lparr>mb_free := w\<rparr>"
    "block_at (st64 m (b + 8) v) b = (block_at m b)\<lparr>mb_size := v\<rparr>"
    "block_at (st64 m (b + 16) v) b = (block_at m b)\<lparr>mb_next := v\<rparr>"
    "block_at (st64 m (b + 24) v) b = (block_at m b)\<lparr>mb_prev := v\<rparr>"
    "block_at (st64 m (b + 32) v) b = (block_at m b)\<lparr>mb_ptr := v\<rparr>"
  using field_sep_same[OF assms, of 0 4 8 8] field_sep_same[OF assms, of 0 4 16 8]
    field_sep_same[OF assms, of 0 4 24 8] field_sep_same[OF assms, of 0 4 32 8]
    field_sep_same[OF assms, of 8 8 16 8] field_sep_same[OF assms, of 8 8 24 8] field_sep_same[OF assms, of 8 8 32 8]
    field_sep_same[OF assms, of 16 8 24 8] field_sep_same[OF assms, of 16 8 32 8]
    field_sep_same[OF assms, of 24 8 32 8]
  by (simp_all add: block_at_def ldn_stn_sep sep_sym)

lemma stn_apart:
  assumes "fits b" and "fits c" and "apart b c" and "d + k \<le> 40" and "0 < k"
  shows "block_at (stn k m (b + of_nat d) v) c = block_at m c"
proof -
  note ld = ldn_stn_sep[OF field_sep_apart[OF assms(1-4) _ assms(5)]]
  show ?thesis using ld[of 0 4] ld[of 8 8] ld[of 16 8] ld[of 24 8] ld[of 32 8] by (simp add: block_at_def)
qed

lemma field_stores_apart:
  assumes "fits b" and "fits c" and "apart b c"
  shows "block_at (st32 m b w) c = block_at m c" "block_at (st64 m (b + 8) v) c = block_at m c"
    "block_at (st64 m (b + 16) v) c = block_at m c" "block_at (st64 m (b + 24) v) c = block_at m c"
    "block_at (st64 m (b + 32) v) c = block_at m c"
  using stn_apart[OF assms, of 0 4] stn_apart[OF assms, of 8 8] stn_apart[OF assms, of 16 8]
    stn_apart[OF assms, of 24 8] stn_apart[OF assms, of 32 8]
  by simp_all

lemma block_at_upd:
  assumes "fits b" and "unat x < unat b \<or> unat b + 40 \<le> unat x"
  shows "block_at (m(x := v)) b = block_at m b"
proof -
  have "b + of_nat d \<noteq> x" if "d < 40" for d using unat_field[OF assms(1) that] assms(2) that by auto
  then have "ldn n (m(x := v)) (b + of_nat e) = ldn n m (b + of_nat e)" if "e + n \<le> 40" for e n
    using that by (intro ldn_cong) (simp flip: of_nat_add add: add.assoc)
  from this[of 0 4] this[of 8 8] this[of 16 8] this[of 24 8] this[of 32 8] show ?thesis
    by (simp add: block_at_def)
qed

lemma headers_set:
  assumes "fits b" and "fits c" and "b = c \<or> apart b c"
  shows "block_at (ram (set_free b w s)) c = (if c = b then (block_at (ram s) b)\<lparr>mb_free := w\<rparr> else block_at (ram s) c)"
    "block_at (ram (set_size b v s)) c = (if c = b then (block_at (ram s) b)\<lparr>mb_size := v\<rparr> else block_at (ram s) c)"
    "block_at (ram (set_next b v s)) c = (if c = b then (block_at (ram s) b)\<lparr>mb_next := v\<rparr> else block_at (ram s) c)"
    "block_at (ram (set_prev b v s)) c = (if c = b then (block_at (ram s) b)\<lparr>mb_prev := v\<rparr> else block_at (ram s) c)"
    "block_at (ram (set_ptr b v s)) c = (if c = b then (block_at (ram s) b)\<lparr>mb_ptr := v\<rparr> else block_at (ram s) c)"
  using assms field_stores[OF assms(1)] field_stores_apart[OF assms(1,2)]
  by (auto simp: set_free_def set_size_def set_next_def set_prev_def set_ptr_def)

definition good :: "u64 set \<Rightarrow> bool" where
  "good B \<longleftrightarrow> (\<forall>b \<in> B. fits b) \<and> (\<forall>b \<in> B. \<forall>c \<in> B. b \<noteq> c \<longrightarrow> apart b c)"

lemma headers_good:
  assumes "good B" and "b \<in> B" and "c \<in> B"
  shows "block_at (ram (set_free b w s)) c = (if c = b then (block_at (ram s) b)\<lparr>mb_free := w\<rparr> else block_at (ram s) c)"
    "block_at (ram (set_size b v s)) c = (if c = b then (block_at (ram s) b)\<lparr>mb_size := v\<rparr> else block_at (ram s) c)"
    "block_at (ram (set_next b v s)) c = (if c = b then (block_at (ram s) b)\<lparr>mb_next := v\<rparr> else block_at (ram s) c)"
    "block_at (ram (set_prev b v s)) c = (if c = b then (block_at (ram s) b)\<lparr>mb_prev := v\<rparr> else block_at (ram s) c)"
    "block_at (ram (set_ptr b v s)) c = (if c = b then (block_at (ram s) b)\<lparr>mb_ptr := v\<rparr> else block_at (ram s) c)"
  using assms headers_set[of b c] by (auto simp: good_def)

lemma set_fields [simp]:
  "heap (set_free b w s) = heap s" "brk (set_free b w s) = brk s" "endp (set_free b w s) = endp s" "base (set_free b w s) = base s"
  "heap (set_size b v s) = heap s" "brk (set_size b v s) = brk s" "endp (set_size b v s) = endp s" "base (set_size b v s) = base s"
  "heap (set_next b v s) = heap s" "brk (set_next b v s) = brk s" "endp (set_next b v s) = endp s" "base (set_next b v s) = base s"
  "heap (set_prev b v s) = heap s" "brk (set_prev b v s) = brk s" "endp (set_prev b v s) = endp s" "base (set_prev b v s) = base s"
  "heap (set_ptr b v s) = heap s" "brk (set_ptr b v s) = brk s" "endp (set_ptr b v s) = endp s" "base (set_ptr b v s) = base s"
  by (simp_all add: set_free_def set_size_def set_next_def set_prev_def set_ptr_def)

text \<open>The view of the two operations that change several headers.\<close>

definition link_prev :: "u64 \<Rightarrow> u64 \<Rightarrow> (u64 \<Rightarrow> meta_block) \<Rightarrow> u64 \<Rightarrow> meta_block" where
  "link_prev n p H = (if n = 0 then H else H(n := (H n)\<lparr>mb_prev := p\<rparr>))"

lemma split_view:
  assumes "good B" and "b \<in> B" and "b + 40 + sz \<in> B" and "sz \<noteq> -40"
    and "mb_next (block_at (ram s) b) = 0 \<or> mb_next (block_at (ram s) b) \<in> B - {b, b + 40 + sz}" and "c \<in> B"
  shows "block_at (ram (split b sz s)) c =
    link_prev (mb_next (block_at (ram s) b)) (b + 40 + sz)
      ((block_at (ram s))
        (b + 40 + sz := \<lparr>mb_free = 1, mb_size = mb_size (block_at (ram s) b) - sz - 40,
           mb_next = mb_next (block_at (ram s) b), mb_prev = b, mb_ptr = b + 40 + sz + 40\<rparr>,
         b := (block_at (ram s) b)\<lparr>mb_size := sz, mb_next := b + 40 + sz\<rparr>)) c"
proof -
  let ?n = "b + 40 + sz"
  have ne: "b \<noteq> ?n" using assms(4) by (simp add: add.assoc eq_neg_iff_add_eq_0 add.commute)
  note simps = headers_good[OF assms(1)] assms(2,3,6) ne ne[symmetric]
  show ?thesis
    using assms(5) by (auto simp: split_def Let_def simps link_prev_def)
qed

lemma merge_view_free:
  assumes "good B" and "b \<in> B" and "mb_next (block_at (ram s) b) = n" and "n \<in> B - {b}" and "n \<noteq> 0"
    and "mb_free (block_at (ram s) n) \<noteq> 0"
    and "mb_next (block_at (ram s) n) = 0 \<or> mb_next (block_at (ram s) n) \<in> B - {b}" and "c \<in> B"
  shows "block_at (ram (merge_blocks b s)) c =
    link_prev (mb_next (block_at (ram s) n)) b
      ((block_at (ram s))
        (b := (block_at (ram s) b)
           \<lparr>mb_size := mb_size (block_at (ram s) b) + (40 + mb_size (block_at (ram s) n)),
            mb_next := mb_next (block_at (ram s) n)\<rparr>)) c"
  using assms(2-8) by (auto simp: merge_blocks_def Let_def headers_good[OF assms(1)] link_prev_def)

lemma merge_view_used:
  assumes "good B" and "b \<in> B" and "mb_next (block_at (ram s) b) = n" and "n \<in> B - {b}" and "n \<noteq> 0"
    and "mb_free (block_at (ram s) n) = 0" and "c \<in> B"
  shows "block_at (ram (merge_blocks b s)) c = link_prev n b (block_at (ram s)) c"
  using assms(2-7) by (auto simp: merge_blocks_def Let_def headers_good[OF assms(1)] link_prev_def)

section \<open>The list of blocks\<close>

text \<open>
  \<open>seg H p lo b bs p' lo' b'\<close>: following \<open>next\<close> from \<open>b\<close> through the headers \<open>H\<close> visits the blocks
  \<open>bs\<close> and then arrives at \<open>b'\<close>. The blocks lie in ascending order, the first at or above \<open>lo\<close>, each
  header and its data below the next block, the last below \<open>lo'\<close>; a block's \<open>prev\<close> is its predecessor
  (\<open>p\<close> for the first) or \<open>NULL\<close>.
\<close>

fun seg :: "(u64 \<Rightarrow> meta_block) \<Rightarrow> u64 \<Rightarrow> nat \<Rightarrow> u64 \<Rightarrow> u64 list \<Rightarrow> u64 \<Rightarrow> nat \<Rightarrow> u64 \<Rightarrow> bool" where
  "seg H p lo b [] p' lo' b' \<longleftrightarrow> p' = p \<and> lo' = lo \<and> b' = b"
| "seg H p lo b (x # xs) p' lo' b' \<longleftrightarrow>
     b = x \<and> x \<noteq> 0 \<and> lo \<le> unat x \<and> (mb_prev (H x) = 0 \<or> mb_prev (H x) = p) \<and> mb_ptr (H x) = x + 40 \<and>
     seg H x (unat x + 40 + unat (mb_size (H x))) (mb_next (H x)) xs p' lo' b'"

lemma seg_append:
  "seg H p lo b (xs @ ys) p2 l2 b2 \<longleftrightarrow>
    (\<exists>p1 l1 b1. seg H p lo b xs p1 l1 b1 \<and> seg H p1 l1 b1 ys p2 l2 b2)"
  by (induction xs arbitrary: p lo b) auto

lemma seg_cong:
  assumes "\<And>x. x \<in> set bs \<Longrightarrow> H x = H' x"
  shows "seg H p lo b bs p' lo' b' = seg H' p lo b bs p' lo' b'"
  using assms by (induction bs arbitrary: p lo b) auto

lemma seg_bounds:
  assumes "seg H p lo b bs p' lo' b'"
  shows "lo \<le> lo'" "x \<in> set bs \<Longrightarrow> x \<noteq> 0 \<and> lo \<le> unat x \<and> unat x + 40 + unat (mb_size (H x)) \<le> lo' \<and> mb_ptr (H x) = x + 40"
proof -
  have *: "lo \<le> lo' \<and> (\<forall>x \<in> set bs. x \<noteq> 0 \<and> lo \<le> unat x \<and> unat x + 40 + unat (mb_size (H x)) \<le> lo' \<and> mb_ptr (H x) = x + 40)"
    using assms
  proof (induction bs arbitrary: p lo b)
    case (Cons x xs)
    then have "seg H x (unat x + 40 + unat (mb_size (H x))) (mb_next (H x)) xs p' lo' b'" by simp
    from Cons.IH[OF this] Cons.prems show ?case by auto
  qed simp
  then show "lo \<le> lo'" "x \<in> set bs \<Longrightarrow> x \<noteq> 0 \<and> lo \<le> unat x \<and> unat x + 40 + unat (mb_size (H x)) \<le> lo' \<and> mb_ptr (H x) = x + 40"
    by auto
qed

lemma seg_lower: "seg H p lo b (x # xs) p' lo' b' \<Longrightarrow> l \<le> unat x \<Longrightarrow> seg H p l b (x # xs) p' lo' b'"
  by simp

text \<open>Headers and data of two different blocks of the list do not overlap.\<close>

lemma seg_spaced:
  assumes "seg H p lo b bs p' lo' b'" and "x \<in> set bs" and "y \<in> set bs" and "x \<noteq> y"
  shows "unat x + 40 + unat (mb_size (H x)) \<le> unat y \<or> unat y + 40 + unat (mb_size (H y)) \<le> unat x"
  using assms
proof (induction bs arbitrary: p lo b)
  case (Cons z zs)
  have rest: "seg H z (unat z + 40 + unat (mb_size (H z))) (mb_next (H z)) zs p' lo' b'" using Cons.prems(1) by simp
  show ?case
    using Cons.IH[OF rest] Cons.prems(2-4) seg_bounds(2)[OF rest] by auto
qed simp

lemma seg_good:
  assumes "seg H p lo b bs p' lo' b'" and "lo' \<le> 2 ^ 64"
  shows "good (set bs)"
  unfolding good_def fits_def apart_def
  using seg_bounds(2)[OF assms(1)] seg_spaced[OF assms(1)] assms(2) by fastforce

lemma seg_distinct:
  assumes "seg H p lo b bs p' lo' b'"
  shows "distinct bs"
  using assms
proof (induction bs arbitrary: p lo b)
  case (Cons x xs)
  then have rest: "seg H x (unat x + 40 + unat (mb_size (H x))) (mb_next (H x)) xs p' lo' b'" by simp
  from Cons.IH[OF rest] seg_bounds(2)[OF rest] show ?case by force
qed simp

lemma find_block_seg:
  assumes "seg (block_at m) p lo b bs p' lo' 0"
  shows "\<exists>c l. find_block m b lst sz = Some (c, l) \<and>
    (if c = 0 then (\<forall>x \<in> set bs. mb_free (block_at m x) = 0 \<or> mb_size (block_at m x) < sz) \<and>
                   l = (if bs = [] then lst else last bs)
     else c \<in> set bs \<and> mb_free (block_at m c) \<noteq> 0 \<and> sz \<le> mb_size (block_at m c))"
  using assms
proof (induction bs arbitrary: p lo b lst)
  case Nil
  then show ?case by (simp add: find_block.simps)
next
  case (Cons x xs)
  then have rest: "seg (block_at m) x (unat x + 40 + unat (mb_size (block_at m x))) (mb_next (block_at m x)) xs p' lo' 0"
    and x: "b = x" "x \<noteq> 0" by auto
  show ?case
  proof (cases "mb_free (block_at m x) = 0 \<or> mb_size (block_at m x) < sz")
    case True
    with x have "find_block m b lst sz = find_block m (mb_next (block_at m x)) x sz"
      by (subst find_block.simps) simp
    with Cons.IH[OF rest, of x] True show ?thesis by (auto split: if_splits)
  next
    case False
    with x show ?thesis by (subst find_block.simps) (auto simp: not_less)
  qed
qed

lemma last_block_seg:
  assumes "seg (block_at m) p lo b bs p' lo' 0"
  shows "last_block m b = Some (if bs = [] then 0 else last bs)"
  using assms
proof (induction bs arbitrary: p lo b)
  case Nil
  then show ?case by (simp add: last_block.simps)
next
  case (Cons x xs)
  then have rest: "seg (block_at m) x (unat x + 40 + unat (mb_size (block_at m x))) (mb_next (block_at m x)) xs p' lo' 0"
    and x: "b = x" "x \<noteq> 0" by auto
  show ?case
  proof (cases xs)
    case Nil
    with rest x show ?thesis by (subst last_block.simps) simp
  next
    case (Cons y ys)
    with rest x have "last_block m b = last_block m (mb_next (block_at m x))"
      by (subst last_block.simps) simp
    with Cons.IH[OF rest] Cons show ?thesis by simp
  qed
qed

section \<open>Operations on the list\<close>

definition blocks :: "(u64 \<Rightarrow> meta_block) \<Rightarrow> nat \<Rightarrow> u64 \<Rightarrow> u64 list \<Rightarrow> nat \<Rightarrow> bool" where
  "blocks H lo b bs hi \<longleftrightarrow> (\<exists>p' lo'. seg H 0 lo b bs p' lo' 0 \<and> lo' \<le> hi)"

lemma seg_same:
  assumes "\<And>x. x \<in> set bs \<Longrightarrow> mb_size (H x) = mb_size (H' x) \<and> mb_next (H x) = mb_next (H' x) \<and>
      mb_prev (H x) = mb_prev (H' x) \<and> mb_ptr (H x) = mb_ptr (H' x)"
  shows "seg H p lo b bs p' lo' b' = seg H' p lo b bs p' lo' b'"
  using assms by (induction bs arbitrary: p lo b) auto

lemma blocks_same:
  assumes "\<And>x. x \<in> set bs \<Longrightarrow> mb_size (H x) = mb_size (H' x) \<and> mb_next (H x) = mb_next (H' x) \<and>
      mb_prev (H x) = mb_prev (H' x) \<and> mb_ptr (H x) = mb_ptr (H' x)"
  shows "blocks H lo b bs hi = blocks H' lo b bs hi"
  unfolding blocks_def using seg_same[of bs H H'] assms by simp

lemma blocks_bounds:
  assumes "blocks H lo b bs hi" and "x \<in> set bs"
  shows "x \<noteq> 0" "lo \<le> unat x" "unat x + 40 + unat (mb_size (H x)) \<le> hi" "mb_ptr (H x) = x + 40"
proof -
  obtain p' lo' where sg: "seg H 0 lo b bs p' lo' 0" and "lo' \<le> hi" using assms(1) unfolding blocks_def by blast
  with seg_bounds(2)[OF sg assms(2)]
  show "x \<noteq> 0" "lo \<le> unat x" "unat x + 40 + unat (mb_size (H x)) \<le> hi" "mb_ptr (H x) = x + 40" by simp_all
qed

lemma blocks_spaced:
  assumes "blocks H lo b bs hi" and "x \<in> set bs" and "y \<in> set bs" and "x \<noteq> y"
  shows "unat x + 40 + unat (mb_size (H x)) \<le> unat y \<or> unat y + 40 + unat (mb_size (H y)) \<le> unat x"
  using assms seg_spaced unfolding blocks_def by blast

lemma blocks_good: "blocks H lo b bs hi \<Longrightarrow> hi \<le> 2 ^ 64 \<Longrightarrow> good (set bs)"
  unfolding blocks_def using seg_good by (meson order_trans)

lemma blocks_distinct: "blocks H lo b bs hi \<Longrightarrow> distinct bs"
  unfolding blocks_def using seg_distinct by blast

lemma blocks_split:
  assumes "blocks H lo b (xs @ a # ys) hi"
  obtains p l p' lo' where "seg H 0 lo b xs p l a" "a \<noteq> 0" "l \<le> unat a" "mb_prev (H a) = 0 \<or> mb_prev (H a) = p"
    "mb_ptr (H a) = a + 40" "seg H a (unat a + 40 + unat (mb_size (H a))) (mb_next (H a)) ys p' lo' 0" "lo' \<le> hi"
  using assms unfolding blocks_def by (auto simp: seg_append)

lemma blocks_joinI:
  assumes "seg H 0 lo b xs p l a" "a \<noteq> 0" "l \<le> unat a" "mb_prev (H a) = 0 \<or> mb_prev (H a) = p"
    "mb_ptr (H a) = a + 40" "seg H a (unat a + 40 + unat (mb_size (H a))) (mb_next (H a)) ys p' lo' 0" "lo' \<le> hi"
  shows "blocks H lo b (xs @ a # ys) hi"
  using assms unfolding blocks_def by (auto simp: seg_append)

lemma blocks_next:
  assumes "blocks H lo b (xs @ a # ys) hi"
  shows "mb_next (H a) = (if ys = [] then 0 else hd ys)"
  by (rule blocks_split[OF assms]) (cases ys, auto)

lemma blocks_prev:
  assumes "blocks H lo b (xs @ a # ys) hi" and "mb_prev (H a) \<noteq> 0"
  shows "xs \<noteq> [] \<and> last xs = mb_prev (H a)"
proof (rule blocks_split[OF assms(1)])
  fix p l assume sg: "seg H 0 lo b xs p l a" and pr: "mb_prev (H a) = 0 \<or> mb_prev (H a) = p"
  have "seg H q lo b xs p l a \<Longrightarrow> p = (if xs = [] then q else last xs)" for q
    by (induction xs arbitrary: q lo b) auto
  from this[OF sg] pr assms(2) show ?thesis by (simp split: if_splits)
qed

text \<open>A free successor is absorbed; the gap left by unlinked blocks only makes the result smaller.\<close>

lemma blocks_absorb:
  assumes bl: "blocks H lo b (xs @ a # n # ys) hi" and hi: "hi < 2 ^ 64"
    and H': "H' = link_prev (mb_next (H n)) a
      (H(a := (H a)\<lparr>mb_size := mb_size (H a) + (40 + mb_size (H n)), mb_next := mb_next (H n)\<rparr>))"
  shows "blocks H' lo b (xs @ a # ys) hi"
    "unat (mb_size (H' a)) = unat (mb_size (H a)) + 40 + unat (mb_size (H n))"
proof -
  have dist: "distinct (xs @ a # n # ys)" by (rule blocks_distinct[OF bl])
  obtain p l p' lo' where x: "seg H 0 lo b xs p l a" "a \<noteq> 0" "l \<le> unat a" "mb_prev (H a) = 0 \<or> mb_prev (H a) = p"
    "mb_ptr (H a) = a + 40" and n: "seg H a (unat a + 40 + unat (mb_size (H a))) (mb_next (H a)) (n # ys) p' lo' 0" "lo' \<le> hi"
    by (rule blocks_split[OF bl])
  from n(1) have ys: "seg H n (unat n + 40 + unat (mb_size (H n))) (mb_next (H n)) ys p' lo' 0"
    and an: "unat a + 40 + unat (mb_size (H a)) \<le> unat n" by auto
  have nb: "unat n + 40 + unat (mb_size (H n)) \<le> lo'" using seg_bounds(2)[OF n(1), of n] by simp
  then have lt: "unat (mb_size (H a)) + (40 + unat (mb_size (H n))) < 2 ^ 64" using an hi n(2) by simp
  then have "unat (40 + mb_size (H n)) = 40 + unat (mb_size (H n))" by (simp add: unat_add_nowrap)
  then have sz: "unat (mb_size (H a) + (40 + mb_size (H n))) = unat (mb_size (H a)) + (40 + unat (mb_size (H n)))"
    using lt by (simp add: unat_add_nowrap)
  have nxt: "mb_next (H n) = (if ys = [] then 0 else hd ys)" using ys by (cases ys) auto
  have nya: "mb_next (H n) \<noteq> a" using dist x(2) nxt by (cases ys) auto
  have Ha: "H' a = (H a)\<lparr>mb_size := mb_size (H a) + (40 + mb_size (H n)), mb_next := mb_next (H n)\<rparr>"
    using nya by (simp add: H' link_prev_def)
  show "unat (mb_size (H' a)) = unat (mb_size (H a)) + 40 + unat (mb_size (H n))" by (simp add: Ha sz)
  have left: "seg H' 0 lo b xs p l a"
    using x(1) dist nxt by (subst seg_cong[of _ H' H]) (auto simp: H' link_prev_def)
  have right: "\<exists>q l'. seg H' a (unat a + 40 + unat (mb_size (H' a))) (mb_next (H' a)) ys q l' 0 \<and> l' \<le> hi"
  proof (cases ys)
    case Nil
    with ys an nb n(2) show ?thesis by (simp add: Ha sz)
  next
    case (Cons y zs)
    have y: "y \<noteq> 0" "mb_next (H n) = y" "unat n + 40 + unat (mb_size (H n)) \<le> unat y" "mb_ptr (H y) = y + 40"
      and zs: "seg H y (unat y + 40 + unat (mb_size (H y))) (mb_next (H y)) zs p' lo' 0" using ys Cons by auto
    have "seg H' y (unat y + 40 + unat (mb_size (H y))) (mb_next (H y)) zs p' lo' 0"
      using zs dist Cons y(1,2) by (subst seg_cong[of _ H' H]) (auto simp: H' link_prev_def)
    moreover have "H' y = (H y)\<lparr>mb_prev := a\<rparr>" using y dist Cons by (auto simp: H' link_prev_def)
    ultimately have "seg H' a (unat a + 40 + unat (mb_size (H' a))) (mb_next (H' a)) ys p' lo' 0"
      using y an by (simp add: Cons Ha sz)
    with n(2) show ?thesis by blast
  qed
  from right obtain q l' where "seg H' a (unat a + 40 + unat (mb_size (H' a))) (mb_next (H' a)) ys q l' 0" "l' \<le> hi"
    by blast
  with left x show "blocks H' lo b (xs @ a # ys) hi" by (intro blocks_joinI) (auto simp: Ha)
qed

lemma blocks_relink:
  assumes bl: "blocks H lo b (xs @ a # n # ys) hi"
  shows "blocks (link_prev n a H) lo b (xs @ a # n # ys) hi"
proof -
  have dist: "distinct (xs @ a # n # ys)" by (rule blocks_distinct[OF bl])
  let ?H = "link_prev n a H"
  obtain p l p' lo' where x: "seg H 0 lo b xs p l a" "a \<noteq> 0" "l \<le> unat a" "mb_prev (H a) = 0 \<or> mb_prev (H a) = p"
    "mb_ptr (H a) = a + 40" and n: "seg H a (unat a + 40 + unat (mb_size (H a))) (mb_next (H a)) (n # ys) p' lo' 0" "lo' \<le> hi"
    by (rule blocks_split[OF bl])
  have Ha: "?H a = H a" using dist by (auto simp: link_prev_def)
  have left: "seg ?H 0 lo b xs p l a" using x(1) dist by (subst seg_cong[of _ ?H H]) (auto simp: link_prev_def)
  have "seg ?H n (unat n + 40 + unat (mb_size (H n))) (mb_next (H n)) ys p' lo' 0"
    using n(1) dist by (subst seg_cong[of _ ?H H]) (auto simp: link_prev_def)
  then have "seg ?H a (unat a + 40 + unat (mb_size (?H a))) (mb_next (?H a)) (n # ys) p' lo' 0"
    using n(1) unfolding Ha by (auto simp: link_prev_def)
  with left x n(2) show ?thesis by (intro blocks_joinI) (auto simp: Ha)
qed

lemma blocks_split_at:
  assumes bl: "blocks H lo b (xs @ a # ys) hi" and hi: "hi < 2 ^ 64"
    and n: "n = a + 40 + sz" and sz: "unat sz + 40 \<le> unat (mb_size (H a))"
    and H': "H' = link_prev (mb_next (H a)) (n)
      (H(n := \<lparr>mb_free = 1, mb_size = mb_size (H a) - sz - 40, mb_next = mb_next (H a),
           mb_prev = a, mb_ptr = n + 40\<rparr>,
         a := (H a)\<lparr>mb_size := sz, mb_next := n\<rparr>))"
  shows "blocks H' lo b (xs @ a # (n) # ys) hi"
    "mb_size (H' a) = sz" "mb_free (H' (n)) = 1" "good (insert (n) (set (xs @ a # ys)))"
    "n \<notin> set (xs @ a # ys)"
proof -
  have dist: "distinct (xs @ a # ys)" by (rule blocks_distinct[OF bl])
  obtain p l p' lo' where x: "seg H 0 lo b xs p l a" "a \<noteq> 0" "l \<le> unat a" "mb_prev (H a) = 0 \<or> mb_prev (H a) = p"
    "mb_ptr (H a) = a + 40" and ys: "seg H a (unat a + 40 + unat (mb_size (H a))) (mb_next (H a)) ys p' lo' 0" "lo' \<le> hi"
    by (rule blocks_split[OF bl])
  note bd = blocks_bounds(3)[OF bl, of a, simplified]
  have un: "unat n = unat a + 40 + unat sz"
  proof -
    have "unat (a + 40) = unat a + 40" using bd hi by (simp add: unat_add_nowrap)
    then show ?thesis using bd hi sz by (simp add: n unat_add_nowrap)
  qed
  have us: "unat (mb_size (H a) - sz - 40) = unat (mb_size (H a)) - unat sz - 40"
    using sz by (simp add: unat_sub_nowrap)
  have inside: "unat y + 40 \<le> unat n \<or> unat n + 40 \<le> unat y" if y: "y \<in> set (xs @ a # ys)" for y
  proof (cases "y = a")
    case False
    then show ?thesis using blocks_spaced[OF bl y, of a] sz un by auto
  qed (simp add: un)
  then show notin: "n \<notin> set (xs @ a # ys)" by fastforce
  have "good (set (xs @ a # ys))" using bl hi by (intro blocks_good) auto
  with inside show "good (insert n (set (xs @ a # ys)))"
    using un sz bd hi unfolding good_def apart_def fits_def by auto
  have nxt: "mb_next (H a) = (if ys = [] then 0 else hd ys)" by (rule blocks_next[OF bl])
  have na: "mb_next (H a) \<noteq> a" "mb_next (H a) \<noteq> 0 \<longrightarrow> mb_next (H a) \<noteq> n" "n \<noteq> a" "n \<noteq> 0"
    using dist x(2) nxt notin un by (cases ys; auto)+
  have Ha: "H' a = (H a)\<lparr>mb_size := sz, mb_next := n\<rparr>" using na by (simp add: H' link_prev_def)
  have Hn: "H' n = \<lparr>mb_free = 1, mb_size = mb_size (H a) - sz - 40, mb_next = mb_next (H a),
           mb_prev = a, mb_ptr = n + 40\<rparr>" using na by (auto simp: H' link_prev_def)
  show "mb_size (H' a) = sz" "mb_free (H' n) = 1" by (simp_all add: Ha Hn)
  have left: "seg H' 0 lo b xs p l a"
    using x(1) dist nxt notin by (subst seg_cong[of _ H' H]) (auto simp: H' link_prev_def)
  have right: "seg H' n (unat a + 40 + unat (mb_size (H a))) (mb_next (H a)) ys (if ys = [] then n else p') lo' 0"
  proof (cases ys)
    case Nil
    with ys show ?thesis by simp
  next
    case (Cons y zs)
    with ys have y: "y \<noteq> 0" "mb_next (H a) = y" and zs: "seg H y (unat y + 40 + unat (mb_size (H y))) (mb_next (H y)) zs p' lo' 0"
      by auto
    have "seg H' y (unat y + 40 + unat (mb_size (H y))) (mb_next (H y)) zs p' lo' 0"
      using zs dist Cons notin y by (subst seg_cong[of _ H' H]) (auto simp: H' link_prev_def)
    moreover have "H' y = (H y)\<lparr>mb_prev := n\<rparr>" using y dist Cons notin by (auto simp: H' link_prev_def)
    ultimately show ?thesis using ys(1) by (simp add: Cons)
  qed
  have eq: "unat n + 40 + unat (mb_size (H' n)) = unat a + 40 + unat (mb_size (H a))"
    using un us sz by (simp add: Hn)
  have "mb_next (H' n) = mb_next (H a)" by (simp add: Hn)
  with right have "seg H' n (unat n + 40 + unat (mb_size (H' n))) (mb_next (H' n)) ys (if ys = [] then n else p') lo' 0"
    by (simp only: eq)
  then have "seg H' a (unat a + 40 + unat (mb_size (H' a))) (mb_next (H' a)) (n # ys) (if ys = [] then n else p') lo' 0"
    using na(4) un by (auto simp: Ha Hn)
  with left x ys(2) show "blocks H' lo b (xs @ a # n # ys) hi" by (intro blocks_joinI) (auto simp: Ha)
qed

lemma blocks_unlink:
  assumes bl: "blocks H lo b (xs @ [a, z]) hi"
  shows "blocks (H(a := (H a)\<lparr>mb_next := 0\<rparr>)) lo b (xs @ [a]) hi"
proof -
  let ?H = "H(a := (H a)\<lparr>mb_next := 0\<rparr>)"
  have dist: "distinct (xs @ [a, z])" by (rule blocks_distinct[OF bl])
  obtain p l p' lo' where x: "seg H 0 lo b xs p l a" "a \<noteq> 0" "l \<le> unat a" "mb_prev (H a) = 0 \<or> mb_prev (H a) = p"
    "mb_ptr (H a) = a + 40" and z: "seg H a (unat a + 40 + unat (mb_size (H a))) (mb_next (H a)) [z] p' lo' 0" "lo' \<le> hi"
    using blocks_split[of H lo b xs a "[z]" hi] bl by auto
  have "seg ?H 0 lo b xs p l a" using x(1) dist by (subst seg_cong[of _ ?H H]) auto
  moreover have "unat a + 40 + unat (mb_size (H a)) \<le> hi" using blocks_bounds(3)[OF bl, of a] by simp
  ultimately show ?thesis
    using x by (intro blocks_joinI[where p = p and l = l and p' = a and lo' = "unat a + 40 + unat (mb_size (H a))"]) auto
qed

lemma blocks_extend:
  assumes bl: "blocks H lo b (xs @ [a]) hi" and z: "hi \<le> unat z" "z \<noteq> 0" "z \<notin> set (xs @ [a])"
    and hdr: "mb_size h = sz" "mb_next h = 0" "mb_prev h = 0" "mb_ptr h = z + 40"
  shows "blocks (H(z := h, a := (H a)\<lparr>mb_next := z\<rparr>)) lo b (xs @ [a, z]) (unat z + 40 + unat sz)"
proof -
  let ?H = "H(z := h, a := (H a)\<lparr>mb_next := z\<rparr>)"
  have dist: "distinct (xs @ [a])" by (rule blocks_distinct[OF bl])
  obtain p l p' lo' where x: "seg H 0 lo b xs p l a" "a \<noteq> 0" "l \<le> unat a" "mb_prev (H a) = 0 \<or> mb_prev (H a) = p"
    "mb_ptr (H a) = a + 40"
    by (rule blocks_split[OF bl])
  have "unat a + 40 + unat (mb_size (H a)) \<le> hi" using blocks_bounds(3)[OF bl, of a] by simp
  moreover have "seg ?H 0 lo b xs p l a" using x(1) dist z(3) by (subst seg_cong[of _ ?H H]) auto
  ultimately show ?thesis
    using x z hdr
    by (intro blocks_joinI[where p = p and l = l and p' = z and lo' = "unat z + 40 + unat sz"]) auto
qed

end
