(* ===== verification/KmemHeap.thy ===== *)
theory KmemHeap
  imports Kmem
begin

text \<open>
  The invariant of the kernel heap, that \<open>kmalloc\<close>, \<open>kfree\<close> and \<open>krealloc\<close> keep it and return, and
  what follows for every sequence of calls: live allocations never overlap each other or a block header.
\<close>

section \<open>The invariant of the heap\<close>

text \<open>
  \<open>live\<close> maps the pointers that clients hold to the number of bytes they asked for. A live pointer is
  the data of a used block of the list, or it lies below the list: \<open>kfree\<close> can drop the whole list while
  blocks of it are in use, and then these blocks stay where they are.
\<close>

definition heap_floor :: "'a kmem_scheme \<Rightarrow> nat" where
  "heap_floor s = (if base s = 0 then unat (brk s) else unat (base s))"

definition live_block :: "'a kmem_scheme \<Rightarrow> u64 list \<Rightarrow> u64 \<Rightarrow> nat \<Rightarrow> bool" where
  "live_block s bs p n \<longleftrightarrow>
     (\<exists>b \<in> set bs. p = b + 40 \<and> n \<le> unat (get_size s b) \<and> get_free s b = 0) \<or>
     unat (heap s) + 40 \<le> unat p \<and> unat p + n \<le> heap_floor s"

definition data_range :: "u64 \<Rightarrow> nat \<Rightarrow> nat set" where
  "data_range p n = {unat p ..< unat p + n}"

definition live_separate :: "(u64 \<rightharpoonup> nat) \<Rightarrow> bool" where
  "live_separate live \<longleftrightarrow>
     (\<forall>p q n k. live p = Some n \<longrightarrow> live q = Some k \<longrightarrow> p \<noteq> q \<longrightarrow> disjnt (data_range p n) (data_range q k))"

definition heap_ok :: "'a kmem_scheme \<Rightarrow> u64 list \<Rightarrow> (u64 \<rightharpoonup> nat) \<Rightarrow> bool" where
  "heap_ok s bs live \<longleftrightarrow>
     heap s \<noteq> 0 \<and> unat (heap s) + 0x1000000 < 2 ^ 64 \<and> unat (endp s) = unat (heap s) + 0x1000000 \<and>
     unat (heap s) \<le> unat (brk s) \<and> unat (brk s) \<le> unat (endp s) \<and>
     blocks (block_at (ram s)) (unat (heap s)) (base s) bs (unat (brk s)) \<and>
     (\<forall>p n. live p = Some n \<longrightarrow> live_block s bs p n) \<and> live_separate live"

lemma heap_okD:
  assumes "heap_ok s bs live"
  shows "unat (brk s) < 2 ^ 64" "unat (heap s) \<le> unat (brk s)"
    "blocks (block_at (ram s)) (unat (heap s)) (base s) bs (unat (brk s))" "good (set bs)"
    "live p = Some n \<Longrightarrow> live_block s bs p n"
proof -
  show bl: "blocks (block_at (ram s)) (unat (heap s)) (base s) bs (unat (brk s))"
    using assms by (simp add: heap_ok_def)
  show "unat (brk s) < 2 ^ 64" "unat (heap s) \<le> unat (brk s)" "live p = Some n \<Longrightarrow> live_block s bs p n"
    using assms unat_lt64[of "brk s"] by (auto simp: heap_ok_def)
  show "good (set bs)" using blocks_good[OF bl] unat_lt64[of "brk s"] by simp
qed

text \<open>Changing headers keeps the invariant if the new list is well-formed and every used block is still
  in it, as large as before; or if the whole list is dropped.\<close>

lemma heap_ok_update:
  assumes ok: "heap_ok s bs live" and f: "heap s' = heap s" "brk s' = brk s" "endp s' = endp s" "base s' = base s"
    and bl: "blocks (block_at (ram s')) (unat (heap s)) (base s) bs' (unat (brk s))"
    and live: "live' \<subseteq>\<^sub>m live"
    and keep: "\<And>b n. b \<in> set bs \<Longrightarrow> get_free s b = 0 \<Longrightarrow> live' (b + 40) = Some n \<Longrightarrow>
      b \<in> set bs' \<and> unat (get_size s b) \<le> unat (get_size s' b) \<and> get_free s' b = 0"
  shows "heap_ok s' bs' live'"
proof -
  have sub: "live p = Some n" if "live' p = Some n" for p n using live that by (metis domI map_le_def)
  have "live_block s' bs' p n" if l: "live' p = Some n" for p n
  proof -
    have "n \<le> unat (get_size s' b)" if "n \<le> unat (get_size s b)" "unat (get_size s b) \<le> unat (get_size s' b)" for b
      using that by (rule order_trans)
    then show ?thesis
      using heap_okD(5)[OF ok sub[OF l]] keep l unfolding live_block_def heap_floor_def f by blast
  qed
  moreover have "live_separate live'" using ok sub by (auto simp: heap_ok_def live_separate_def)
  ultimately show ?thesis using ok bl by (simp add: heap_ok_def f)
qed

lemma unat_data:
  assumes "heap_ok s bs live" and "b \<in> set bs"
  shows "unat (b + 40) = unat b + 40"
  using blocks_bounds(3)[OF heap_okD(3)[OF assms(1)] assms(2)] heap_okD(1)[OF assms(1)]
  by (simp add: unat_add_nowrap)

lemma heap_ok_drop:
  assumes ok: "heap_ok s bs live" and f: "heap s' = heap s" "brk s' = brk s" "endp s' = endp s" "base s' = 0"
  shows "heap_ok s' [] live"
proof -
  have "live_block s' [] p n" if l: "live p = Some n" for p n
    using heap_okD(5)[OF ok l] unfolding live_block_def
  proof (elim disjE bexE conjE)
    fix b assume b: "b \<in> set bs" "p = b + 40" "n \<le> unat (get_size s b)"
    have "unat (heap s) \<le> unat b" "unat b + 40 + unat (get_size s b) \<le> unat (brk s)"
      using blocks_bounds(2,3)[OF heap_okD(3)[OF ok] b(1)] by auto
    with b unat_data[OF ok b(1)] show "(\<exists>b \<in> set []. p = b + 40 \<and> n \<le> unat (get_size s' b) \<and> get_free s' b = 0) \<or>
        unat (heap s') + 40 \<le> unat p \<and> unat p + n \<le> heap_floor s'"
      by (simp add: heap_floor_def f)
  next
    assume a: "unat (heap s) + 40 \<le> unat p" "unat p + n \<le> heap_floor s"
    have "heap_floor s \<le> unat (brk s)"
    proof (cases bs)
      case (Cons x xs)
      then have "base s = x" using heap_okD(3)[OF ok] by (auto simp: blocks_def)
      then show ?thesis
        using blocks_bounds(3)[OF heap_okD(3)[OF ok], of x] Cons by (simp add: heap_floor_def)
    qed (use heap_okD(3)[OF ok] in \<open>simp add: heap_floor_def blocks_def\<close>)
    with a show "(\<exists>b \<in> set []. p = b + 40 \<and> n \<le> unat (get_size s' b) \<and> get_free s' b = 0) \<or>
        unat (heap s') + 40 \<le> unat p \<and> unat p + n \<le> heap_floor s'"
      by (simp add: heap_floor_def f)
  qed
  with ok show ?thesis by (simp add: heap_ok_def f blocks_def)
qed

section \<open>What the operations write\<close>

text \<open>\<open>hdr_only B s s'\<close>: the step from \<open>s\<close> to \<open>s'\<close> changes no byte outside the headers of \<open>B\<close>.\<close>

definition hdr_only :: "u64 set \<Rightarrow> 'a kmem_scheme \<Rightarrow> 'a kmem_scheme \<Rightarrow> bool" where
  "hdr_only B s s' \<longleftrightarrow>
     (\<forall>x. (\<forall>b \<in> B. unat x < unat b \<or> unat b + 40 \<le> unat x) \<longrightarrow> ram s' x = ram s x)"

lemma hdr_only_refl: "ram s' = ram s \<Longrightarrow> hdr_only B s s'"
  by (simp add: hdr_only_def)

lemma hdr_only_trans: "hdr_only B s s' \<Longrightarrow> hdr_only B s' s'' \<Longrightarrow> hdr_only B s s''"
  by (simp add: hdr_only_def)

lemma hdr_only_mono: "hdr_only B s s' \<Longrightarrow> B \<subseteq> C \<Longrightarrow> hdr_only C s s'"
  by (auto simp: hdr_only_def)

lemma stn_header:
  assumes "fits b" and "d + k \<le> 40" and "unat x < unat b \<or> unat b + 40 \<le> unat x"
  shows "stn k m (b + of_nat d) v x = m x"
proof (cases "unat (x - (b + of_nat d)) < k")
  case True
  let ?e = "unat (x - (b + of_nat d))"
  have "x = b + of_nat (d + ?e)" by simp
  moreover have "unat (b + of_nat (d + ?e)) = unat b + (d + ?e)"
    using True assms(2) by (intro unat_field[OF assms(1)]) simp
  ultimately have "unat x = unat b + (d + ?e)" by (simp only:)
  with assms(2,3) True show ?thesis by linarith
qed (simp add: stn_def)

lemma hdr_set:
  assumes "good B" and "b \<in> B"
  shows "hdr_only B s (set_free b w s)" "hdr_only B s (set_size b v s)" "hdr_only B s (set_next b v s)"
    "hdr_only B s (set_prev b v s)" "hdr_only B s (set_ptr b v s)"
proof -
  have f: "fits b" using assms by (simp add: good_def)
  note st = stn_header[OF f, of 0 4] stn_header[OF f, of 8 8] stn_header[OF f, of 16 8] stn_header[OF f, of 24 8]
    stn_header[OF f, of 32 8]
  show "hdr_only B s (set_free b w s)" "hdr_only B s (set_size b v s)" "hdr_only B s (set_next b v s)"
    "hdr_only B s (set_prev b v s)" "hdr_only B s (set_ptr b v s)"
    using st assms(2)
    by (auto simp: hdr_only_def set_free_def set_size_def set_next_def set_prev_def set_ptr_def)
qed

lemma hdr_link:
  assumes "good B" and "n \<noteq> 0 \<Longrightarrow> n \<in> B" and "hdr_only B s s1"
  shows "hdr_only B s (if n \<noteq> 0 then set_prev n v s1 else s1)"
  using assms(3) hdr_only_trans[OF assms(3) hdr_set(4)[OF assms(1)]] assms(2) by auto

lemma hdr_merge:
  assumes gd: "good B" and a: "a \<in> B" and n: "get_next s a \<noteq> 0 \<Longrightarrow> get_next s a \<in> B - {a}"
    and nn: "get_next s a \<noteq> 0 \<Longrightarrow> get_next s (get_next s a) \<noteq> 0 \<Longrightarrow> get_next s (get_next s a) \<in> B"
  shows "hdr_only B s (merge_blocks a s)"
proof (cases "get_next s a \<noteq> 0 \<and> get_free s (get_next s a) \<noteq> 0")
  case True
  let ?n = "get_next s a"
  let ?s' = "set_size a (get_size s a + (40 + get_size s ?n)) s"
  have nB: "?n \<in> B" "?n \<noteq> a" using n True by auto
  have nx: "get_next ?s' a = ?n" "get_next ?s' ?n = get_next s ?n"
    using nB by (simp_all add: headers_good(2)[OF gd a a] headers_good(2)[OF gd a nB(1)])
  have h: "hdr_only B s (set_next a (get_next s ?n) ?s')"
    by (rule hdr_only_trans[OF hdr_set(2)[OF gd a] hdr_set(3)[OF gd a]])
  have "get_next (set_next a (get_next s ?n) ?s') a = get_next s ?n"
    by (simp add: headers_good(3)[OF gd a a])
  then have "merge_blocks a s = (if get_next s ?n \<noteq> 0 then set_prev (get_next s ?n) a (set_next a (get_next s ?n) ?s')
      else set_next a (get_next s ?n) ?s')"
    using True unfolding merge_blocks_def Let_def by (simp add: nx)
  then show ?thesis using hdr_link[OF gd _ h, of "get_next s ?n"] nn True by simp
next
  case False
  then show ?thesis
    using n hdr_set(4)[OF gd, of "get_next s a" s a] hdr_only_refl[of s s]
    unfolding merge_blocks_def Let_def by auto
qed

lemma hdr_split:
  assumes gd: "good B" and a: "a \<in> B" and nb: "nb \<in> B" "nb = a + 40 + sz" "nb \<noteq> a"
    and n: "get_next s a \<noteq> 0 \<Longrightarrow> get_next s a \<in> B"
  shows "hdr_only B s (split a sz s)"
proof -
  let ?s1 = "set_size nb (get_size s a - sz - 40) s"
  let ?s7 = "set_size a sz (set_next a nb (set_prev nb a (set_ptr nb (nb + 40) (set_free nb 1 (set_next nb (get_next ?s1 a) ?s1)))))"
  have h: "hdr_only B s ?s7"
    by (intro hdr_only_trans[OF _ hdr_set(1)[OF gd]] hdr_only_trans[OF _ hdr_set(2)[OF gd]]
      hdr_only_trans[OF _ hdr_set(3)[OF gd]] hdr_only_trans[OF _ hdr_set(4)[OF gd]]
      hdr_only_trans[OF _ hdr_set(5)[OF gd]] hdr_set(2)[OF gd] a nb(1))
  have "get_next ?s7 nb = get_next s a"
    using nb(3) by (simp add: headers_good[OF gd a a] headers_good[OF gd nb(1) nb(1)] headers_good[OF gd a nb(1)]
        headers_good[OF gd nb(1) a])
  then have "split a sz s = (if get_next s a \<noteq> 0 then set_prev (get_next s a) nb ?s7 else ?s7)"
    unfolding split_def Let_def nb(2)[symmetric] by simp
  then show ?thesis using hdr_link[OF gd n h] by simp
qed

section \<open>The operations keep the invariant\<close>

lemma merge_fields [simp]:
  "heap (merge_blocks b s) = heap s" "brk (merge_blocks b s) = brk s"
  "endp (merge_blocks b s) = endp s" "base (merge_blocks b s) = base s"
  by (simp_all add: merge_blocks_def Let_def)

lemma split_fields [simp]:
  "heap (split b sz s) = heap s" "brk (split b sz s) = brk s" "endp (split b sz s) = endp s" "base (split b sz s) = base s"
  by (simp_all add: split_def Let_def)

lemma heap_ok_set_free:
  assumes ok: "heap_ok s bs live" and b: "b \<in> set bs" and nl: "live (b + 40) = None"
  shows "heap_ok (set_free b w s) bs live" "get_free (set_free b w s) b = w"
proof -
  note H = headers_good(1)[OF heap_okD(4)[OF ok] b]
  have bl: "blocks (block_at (ram (set_free b w s))) (unat (heap s)) (base s) bs (unat (brk s))"
    using heap_okD(3)[OF ok] by (subst blocks_same[of _ _ "block_at (ram s)"]) (auto simp: H)
  show "heap_ok (set_free b w s) bs live"
    by (rule heap_ok_update[OF ok _ _ _ _ bl]) (use nl in \<open>auto simp: H\<close>)
  show "get_free (set_free b w s) b = w" by (simp add: H b)
qed

lemma heap_ok_forget:
  assumes "heap_ok s bs live"
  shows "heap_ok s bs (live(p := None))"
  by (rule heap_ok_update[OF assms _ _ _ _ heap_okD(3)[OF assms]]) (auto simp: map_le_def)

lemma blocks_member_next:
  assumes "blocks H lo b bs hi" and "x \<in> set bs"
  shows "mb_next (H x) = 0 \<or> mb_next (H x) \<in> set bs - {x}"
proof -
  obtain xs ys where bs: "bs = xs @ x # ys" using split_list[OF assms(2)] by blast
  show ?thesis
    using blocks_next[of H lo b xs x ys hi] blocks_distinct[of H lo b bs hi] assms(1)
    by (cases ys) (auto simp: bs)
qed

lemma heap_ok_merge_free:
  assumes ok: "heap_ok s (xs @ a # n # ys) live" and free: "get_free s n \<noteq> 0"
  shows "heap_ok (merge_blocks a s) (xs @ a # ys) live" "get_free (merge_blocks a s) a = get_free s a"
    "unat (get_size (merge_blocks a s) a) = unat (get_size s a) + 40 + unat (get_size s n)"
proof -
  let ?bs = "xs @ a # n # ys"
  note bl = heap_okD(3)[OF ok] and gd = heap_okD(4)[OF ok]
  have dist: "distinct ?bs" by (rule blocks_distinct[OF bl])
  have nx: "get_next s a = n" using blocks_next[OF bl] by simp
  have nn: "n \<noteq> 0" using blocks_bounds(1)[OF bl, of n] by simp
  have nx2: "get_next s n = (if ys = [] then 0 else hd ys)"
    using blocks_next[of "block_at (ram s)" _ _ "xs @ [a]" n ys] bl by simp
  then have nn2: "get_next s n = 0 \<or> get_next s n \<in> set ?bs - {a}" using dist by (cases ys) auto
  define H' where "H' = link_prev (get_next s n) a
      ((block_at (ram s))(a := (block_at (ram s) a)\<lparr>mb_size := get_size s a + (40 + get_size s n), mb_next := get_next s n\<rparr>))"
  have view: "block_at (ram (merge_blocks a s)) c = H' c" if "c \<in> set ?bs" for c
    unfolding H'_def using merge_view_free[OF gd _ nx _ nn free nn2 that] dist by auto
  note ab = blocks_absorb[OF bl heap_okD(1)[OF ok] H'_def]
  have bl': "blocks (block_at (ram (merge_blocks a s))) (unat (heap s)) (base s) (xs @ a # ys) (unat (brk s))"
    using ab(1) by (subst blocks_same[of _ _ H']) (auto simp: view)
  have nya: "get_next s n \<noteq> a" using nn2 blocks_bounds(1)[OF bl, of a] by auto
  show sz: "unat (get_size (merge_blocks a s) a) = unat (get_size s a) + 40 + unat (get_size s n)"
    using ab(2) by (simp add: view)
  show fr: "get_free (merge_blocks a s) a = get_free s a" using nya by (simp add: view H'_def link_prev_def)
  show "heap_ok (merge_blocks a s) (xs @ a # ys) live"
  proof (rule heap_ok_update[OF ok _ _ _ _ bl'])
    fix b assume b: "b \<in> set ?bs" "get_free s b = 0"
    then have "b \<noteq> n" using free by auto
    moreover have "get_size (merge_blocks a s) b = get_size s b \<and> get_free (merge_blocks a s) b = get_free s b"
      if "b \<noteq> a" using that b(1) by (simp add: view H'_def link_prev_def)
    ultimately show "b \<in> set (xs @ a # ys) \<and> unat (get_size s b) \<le> unat (get_size (merge_blocks a s) b) \<and>
        get_free (merge_blocks a s) b = 0"
      using b sz fr by (cases "b = a") auto
  qed simp_all
qed

lemma heap_ok_merge_used:
  assumes ok: "heap_ok s (xs @ a # n # ys) live" and used: "get_free s n = 0"
  shows "heap_ok (merge_blocks a s) (xs @ a # n # ys) live"
proof -
  let ?bs = "xs @ a # n # ys"
  note bl = heap_okD(3)[OF ok] and gd = heap_okD(4)[OF ok]
  have dist: "distinct ?bs" by (rule blocks_distinct[OF bl])
  have nx: "get_next s a = n" using blocks_next[OF bl] by simp
  have nn: "n \<noteq> 0" using blocks_bounds(1)[OF bl, of n] by simp
  have view: "block_at (ram (merge_blocks a s)) c = link_prev n a (block_at (ram s)) c" if "c \<in> set ?bs" for c
    using merge_view_used[OF gd _ nx _ nn used that] dist by auto
  have bl': "blocks (block_at (ram (merge_blocks a s))) (unat (heap s)) (base s) ?bs (unat (brk s))"
    using blocks_relink[OF bl] by (subst blocks_same[of _ _ "link_prev n a (block_at (ram s))"]) (auto simp: view)
  show ?thesis
    by (rule heap_ok_update[OF ok _ _ _ _ bl']) (auto simp: view link_prev_def)
qed

lemma heap_ok_merge:
  assumes "heap_ok s (xs @ a # n # ys) live"
  shows "\<exists>bs'. heap_ok (merge_blocks a s) bs' live"
  using heap_ok_merge_free(1)[OF assms] heap_ok_merge_used[OF assms] by blast

lemma heap_ok_unlink:
  assumes ok: "heap_ok s (xs @ [a, z]) live" and free: "get_free s z \<noteq> 0"
  shows "heap_ok (set_next a 0 s) (xs @ [a]) live"
proof -
  note bl = heap_okD(3)[OF ok] and gd = heap_okD(4)[OF ok]
  have view: "block_at (ram (set_next a 0 s)) c = ((block_at (ram s))(a := (block_at (ram s) a)\<lparr>mb_next := 0\<rparr>)) c"
    if "c \<in> set (xs @ [a, z])" for c
    by (subst headers_good(3)[OF gd _ that]) auto
  have bl': "blocks (block_at (ram (set_next a 0 s))) (unat (heap s)) (base s) (xs @ [a]) (unat (brk s))"
    using blocks_unlink[OF bl]
    by (subst blocks_same[of _ _ "(block_at (ram s))(a := (block_at (ram s) a)\<lparr>mb_next := 0\<rparr>)"]) (auto simp: view)
  show ?thesis
    by (rule heap_ok_update[OF ok _ _ _ _ bl']) (use free in \<open>auto simp: view\<close>)
qed

lemma heap_ok_split:
  assumes ok: "heap_ok s (xs @ a # ys) live" and nl: "live (a + 40) = None"
    and n: "n = a + 40 + sz" and sz: "unat sz + 40 \<le> unat (get_size s a)"
  shows "heap_ok (split a sz s) (xs @ a # n # ys) live" "get_size (split a sz s) a = sz"
    "get_free (split a sz s) a = get_free s a"
proof -
  let ?bs = "xs @ a # ys" and ?s = "split a sz s"
  note bl = heap_okD(3)[OF ok]
  define H' where "H' = link_prev (get_next s a) n
      ((block_at (ram s))(n := \<lparr>mb_free = 1, mb_size = get_size s a - sz - 40, mb_next = get_next s a,
           mb_prev = a, mb_ptr = n + 40\<rparr>,
         a := (block_at (ram s) a)\<lparr>mb_size := sz, mb_next := n\<rparr>))"
  note sp = blocks_split_at[OF bl heap_okD(1)[OF ok] n sz H'_def]
  have "sz \<noteq> -40"
  proof
    assume "sz = -40"
    then have "unat sz = 2 ^ 64 - 40" by simp
    with sz unat_lt64[of "get_size s a"] show False by simp
  qed
  have nx: "get_next s a = 0 \<or> get_next s a \<in> insert n (set ?bs) - {a, n}"
    using blocks_member_next[OF bl, of a] sp(5) by auto
  have view: "block_at (ram ?s) c = H' c" if "c \<in> insert n (set ?bs)" for c
    using split_view[OF sp(4), of a sz s c] \<open>sz \<noteq> -40\<close> nx that unfolding H'_def n by auto
  have bl': "blocks (block_at (ram ?s)) (unat (heap s)) (base s) (xs @ a # n # ys) (unat (brk s))"
    using sp(1) by (subst blocks_same[of _ _ H']) (auto simp: view)
  have na: "n \<noteq> a" "get_next s a \<noteq> a \<or> get_next s a = 0" using sp(5) nx by auto
  then show "get_size ?s a = sz" "get_free ?s a = get_free s a"
    using sp(2) blocks_bounds(1)[OF bl, of a] by (auto simp: view H'_def link_prev_def)
  show "heap_ok ?s (xs @ a # n # ys) live"
  proof (rule heap_ok_update[OF ok _ _ _ _ bl'])
    fix b k assume b: "b \<in> set ?bs" "get_free s b = 0" "live (b + 40) = Some k"
    then have "b \<noteq> a" "b \<noteq> n" using nl sp(5) by auto
    with b show "b \<in> set (xs @ a # n # ys) \<and> unat (get_size s b) \<le> unat (get_size ?s b) \<and> get_free ?s b = 0"
      by (auto simp: view H'_def link_prev_def)
  qed simp_all
qed

lemma heap_floor_le:
  assumes ok: "heap_ok s bs live" and b: "b \<in> set bs"
  shows "heap_floor s \<le> unat b"
proof (cases bs)
  case (Cons x xs)
  note bl = heap_okD(3)[OF ok]
  have x: "base s = x" "x \<noteq> 0" using bl Cons by (auto simp: blocks_def)
  have "seg (block_at (ram s)) x (unat x + 40 + unat (get_size s x)) (get_next s x) xs p l 0 \<Longrightarrow> b \<in> set xs \<Longrightarrow> unat x \<le> unat b" for p l
    using seg_bounds(2)[of _ x _ _ xs _ _ _ b] by fastforce
  then show ?thesis using x b bl Cons by (auto simp: heap_floor_def blocks_def)
qed (use b in simp)

text \<open>A used block that no client holds can be given to a client.\<close>

lemma heap_ok_claim:
  assumes ok: "heap_ok s bs live" and b: "b \<in> set bs" and nl: "live (b + 40) = None"
    and used: "get_free s b = 0" and n: "n \<le> unat (get_size s b)"
  shows "heap_ok s bs (live(b + 40 \<mapsto> n))"
proof -
  have dis: "disjnt (data_range (b + 40) n) (data_range q k)" if q: "live q = Some k" for q k
  proof -
    have ne: "q \<noteq> b + 40" using q nl by auto
    have ub: "unat (b + 40) = unat b + 40" by (rule unat_data[OF ok b])
    from heap_okD(5)[OF ok q] show ?thesis
      unfolding live_block_def
    proof (elim disjE bexE conjE)
      fix c assume c: "c \<in> set bs" "q = c + 40" "k \<le> unat (get_size s c)"
      then have "b \<noteq> c" using ne by auto
      from blocks_spaced[OF heap_okD(3)[OF ok] b c(1) this] show ?thesis
        using n c(2,3) ub unat_data[OF ok c(1)] by (auto simp: data_range_def disjnt_def)
    next
      assume "unat q + k \<le> heap_floor s"
      then show ?thesis using heap_floor_le[OF ok b] ub by (auto simp: data_range_def disjnt_def)
    qed
  qed
  then have "live_separate (live(b + 40 \<mapsto> n))"
    using ok disjnt_sym unfolding live_separate_def heap_ok_def by (metis fun_upd_apply option.inject)
  moreover have "live_block s bs (b + 40) n" using b used n by (auto simp: live_block_def)
  ultimately show ?thesis using ok by (auto simp: heap_ok_def)
qed

section \<open>Allocation keeps the invariant\<close>

lemma align4_bounds:
  assumes "unat x + 4 < 2 ^ 64"
  shows "unat x \<le> unat (align4 x)" "unat (align4 x) \<le> unat x + 3" "unat (align4 x) mod 4 = 0"
proof -
  have *: "unat x \<le> unat (align4 x) \<and> unat (align4 x) \<le> unat x + 3 \<and> unat (align4 x) mod 4 = 0"
  proof (cases "x = 0")
    case True
    then show ?thesis by (simp add: align4_def mask_eq_exp_minus_1 push_bit_eq_mult)
  next
    case False
    then have ux: "unat x = Suc (unat (x - 1))" by (rule unat_Suc_pred)
    let ?y = "push_bit 2 (drop_bit 2 (x - 1)) :: u64"
    have "unat (drop_bit 2 (x - 1)) = unat (x - 1) div 4" by (simp add: drop_bit_eq_div unat_div)
    moreover have "unat (x - 1) div 4 * 4 < 2 ^ 64" using unat_lt64[of "x - 1"] by linarith
    ultimately have y: "unat ?y = unat (x - 1) div 4 * 4"
      by (simp add: push_bit_eq_mult unat_word_ariths mult.commute)
    have "unat (align4 x) = unat (x - 1) div 4 * 4 + 4"
      unfolding align4_def using y assms ux by (subst unat_add_nowrap) auto
    with ux show ?thesis by simp
  qed
  then show "unat x \<le> unat (align4 x)" "unat (align4 x) \<le> unat x + 3" "unat (align4 x) mod 4 = 0" by auto
qed

lemma heap_floor_brk:
  assumes ok: "heap_ok s bs live"
  shows "heap_floor s \<le> unat (brk s)"
proof (cases bs)
  case (Cons x xs)
  then show ?thesis
    using heap_floor_le[OF ok, of x] blocks_bounds(3)[OF heap_okD(3)[OF ok], of x] by simp
qed (use heap_okD(3)[OF ok] in \<open>simp add: heap_floor_def blocks_def\<close>)

text \<open>The new block lies at the old break, behind every block and every live pointer.\<close>

lemma live_below_brk:
  assumes ok: "heap_ok s bs live" and l: "live p = Some n"
  shows "unat p + n \<le> unat (brk s)"
  using heap_okD(5)[OF ok l] unfolding live_block_def
proof (elim disjE bexE conjE)
  fix b assume "b \<in> set bs" "p = b + 40" "n \<le> unat (get_size s b)"
  with blocks_bounds(3)[OF heap_okD(3)[OF ok], of b] unat_data[OF ok, of b] show ?thesis by simp
qed (use heap_floor_brk[OF ok] in simp)

lemma heap_ok_extend:
  assumes ok: "heap_ok s bs live" and fit: "unat (endp s) + 40 + unat sa < 2 ^ 64"
    and ext: "extend_heap (if bs = [] then 0 else last bs) sa s = (z, s')"
    and s'': "s'' = (if bs = [] then s'\<lparr>base := z\<rparr> else s')"
  shows "z = 0 \<and> s' = s \<and> unat (endp s) < unat (brk s) + 40 + unat sa \<or>
    z = brk s \<and> z \<noteq> 0 \<and> heap_ok s'' (bs @ [z]) live \<and> get_free s'' z = 0 \<and> get_size s'' z = sa \<and>
    live (z + 40) = None \<and> get_prev s'' z = 0 \<and> brk s'' = brk s + (40 + sa) \<and> hdr_only (set (bs @ [z])) s s''"
proof -
  have inv: "heap s \<noteq> 0" "unat (endp s) = unat (heap s) + 0x1000000" "unat (heap s) \<le> unat (brk s)"
    "unat (brk s) \<le> unat (endp s)"
    using ok by (auto simp: heap_ok_def)
  note bl = heap_okD(3)[OF ok] and gd = heap_okD(4)[OF ok]
  have u40: "unat (40 + sa) = 40 + unat sa" using fit by (simp add: unat_add_nowrap)
  have ub: "unat (brk s + (40 + sa)) = unat (brk s) + 40 + unat sa"
    using fit inv(4) u40 by (simp add: unat_add_nowrap)
  have ne0: "40 + sa \<noteq> 0" using u40 by auto
  have z0: "brk s \<noteq> 0" using inv(1,3) by (auto simp: unsigned_eq_0_iff)
  show ?thesis
  proof (cases "brk s + (40 + sa) > endp s")
    case True
    then have "z = 0 \<and> s' = s" using ext ne0 by (simp add: extend_heap_def sbrk_def Let_def)
    with True ub show ?thesis by (simp add: word_less_nat_alt)
  next
    case False
    let ?z = "brk s" and ?l = "if bs = [] then 0 else last bs"
    have room: "unat ?z + 40 + unat sa \<le> unat (endp s)" using False ub by (simp add: word_less_nat_alt)
    then have zm: "?z \<noteq> -1" using inv(4) unat_lt64[of "endp s"] by (auto simp: unsigned_minus_1_eq_mask mask_eq_exp_minus_1)
    let ?s1 = "s\<lparr>brk := ?z + (40 + sa)\<rparr>"
    let ?s6 = "set_ptr ?z (?z + 40) (set_prev ?z 0 (set_next ?z 0 (set_free ?z 0 (set_size ?z sa ?s1))))"
    let ?s7 = "if ?l \<noteq> 0 then set_next ?l ?z ?s6 else ?s6"
    have eq: "z = ?z" "s' = ?s7"
      using ext ne0 False zm by (simp_all add: extend_heap_def sbrk_def Let_def)
    have zs: "?z \<notin> set bs" "good (insert ?z (set bs))"
    proof -
      have "unat b + 40 \<le> unat ?z" if "b \<in> set bs" for b using blocks_bounds(3)[OF bl that] by simp
      with gd room unat_lt64[of "endp s"] show "?z \<notin> set bs" "good (insert ?z (set bs))"
        by (force simp: good_def fits_def apart_def)+
    qed
    define h where "h = \<lparr>mb_free = 0, mb_size = sa, mb_next = 0, mb_prev = 0, mb_ptr = ?z + 40\<rparr>"
    have v6: "block_at (ram ?s6) c = ((block_at (ram s))(?z := h)) c" if "c \<in> insert ?z (set bs)" for c
      by (simp add: headers_good[OF zs(2) insertI1 that] headers_good[OF zs(2) insertI1 insertI1] h_def)
    have f: "heap s'' = heap s" "endp s'' = endp s" "brk s'' = ?z + (40 + sa)"
      "base s'' = (if bs = [] then ?z else base s)" by (simp_all add: s'' eq)
    have ram: "ram s'' = ram ?s7" by (simp add: s'' eq)
    have bl': "blocks (block_at (ram s'')) (unat (heap s)) (base s'') (bs @ [?z]) (unat ?z + 40 + unat sa)"
    proof (cases bs rule: rev_exhaust)
      case Nil
      then show ?thesis using z0 inv(3) v6[of ?z] unfolding ram f blocks_def by (simp add: h_def)
    next
      case (snoc xs l)
      have l: "l \<in> set bs" "l \<noteq> 0" using snoc blocks_bounds(1)[OF bl, of l] by auto
      have v7: "block_at (ram s'') c = ((block_at (ram s))(?z := h, l := (block_at (ram s) l)\<lparr>mb_next := ?z\<rparr>)) c"
        if "c \<in> insert ?z (set bs)" for c
        using that l zs(1) v6[of l] v6[of c] by (auto simp: ram snoc headers_good(3)[OF zs(2)])
      have "blocks ((block_at (ram s))(?z := h, l := (block_at (ram s) l)\<lparr>mb_next := ?z\<rparr>)) (unat (heap s)) (base s)
          (xs @ [l, ?z]) (unat ?z + 40 + unat sa)"
        using bl zs(1) z0 by (intro blocks_extend) (auto simp: snoc h_def)
      then have "blocks (block_at (ram s'')) (unat (heap s)) (base s) (xs @ [l, ?z]) (unat ?z + 40 + unat sa)"
        by (subst blocks_same[of _ _ "(block_at (ram s))(?z := h, l := (block_at (ram s) l)\<lparr>mb_next := ?z\<rparr>)"])
          (auto simp: v7 snoc)
      then show ?thesis by (simp add: f snoc)
    qed
    have view: "get_free s'' c = mb_free (((block_at (ram s))(?z := h)) c) \<and> get_size s'' c = mb_size (((block_at (ram s))(?z := h)) c) \<and>
        get_prev s'' c = mb_prev (((block_at (ram s))(?z := h)) c)"
      if "c \<in> insert ?z (set bs)" for c
    proof (cases "bs = []")
      case False
      have m: "last bs \<in> insert ?z (set bs)" using False by simp
      then have "last bs \<noteq> 0" using blocks_bounds(1)[OF bl, of "last bs"] False by simp
      then have "block_at (ram s'') c = (if c = last bs then (block_at (ram ?s6) (last bs))\<lparr>mb_next := ?z\<rparr> else block_at (ram ?s6) c)"
        using False by (simp add: ram headers_good(3)[OF zs(2) m that])
      also have "\<dots> = (if c = last bs then (((block_at (ram s))(?z := h)) (last bs))\<lparr>mb_next := ?z\<rparr> else ((block_at (ram s))(?z := h)) c)"
        by (simp only: v6[OF that] v6[OF m])
      finally show ?thesis by simp
    qed (use v6[OF that] ram in simp)
    have "base s = 0 \<longleftrightarrow> bs = []" using bl by (cases bs) (auto simp: blocks_def)
    then have fl: "heap_floor s'' = heap_floor s" using z0 by (auto simp: heap_floor_def f)
    have same: "get_free s'' b = get_free s b" "get_size s'' b = get_size s b" if "b \<in> set bs" for b
      using view[of b] that zs(1) by auto
    have "live_block s'' (bs @ [?z]) p n" if l: "live p = Some n" for p n
      using heap_okD(5)[OF ok l] same unfolding live_block_def fl f(1) by fastforce
    moreover have "live (?z + 40) = None"
    proof (rule ccontr)
      assume "live (?z + 40) \<noteq> None"
      then obtain n where "live (?z + 40) = Some n" by auto
      from live_below_brk[OF ok this] show False
        using room unat_lt64[of "endp s"] by (simp add: unat_add_nowrap)
    qed
    moreover have "hdr_only (set (bs @ [?z])) s s''"
    proof -
      have h6: "hdr_only (insert ?z (set bs)) s ?s6"
        by (intro hdr_only_trans[OF _ hdr_set(1)[OF zs(2)]] hdr_only_trans[OF _ hdr_set(2)[OF zs(2)]]
          hdr_only_trans[OF _ hdr_set(3)[OF zs(2)]] hdr_only_trans[OF _ hdr_set(4)[OF zs(2)]]
          hdr_only_trans[OF _ hdr_set(5)[OF zs(2)]] hdr_only_refl insertI1) simp
      have "hdr_only (insert ?z (set bs)) s ?s7"
      proof (cases "bs = []")
        case False
        then have "last bs \<in> insert ?z (set bs)" by simp
        from hdr_only_trans[OF h6 hdr_set(3)[OF zs(2) this]] h6 show ?thesis by simp
      qed (use h6 in simp)
      then show ?thesis using ram by (simp add: hdr_only_def)
    qed
    ultimately show ?thesis
      using ok bl' room ub view[of ?z] z0 eq(1) by (simp add: heap_ok_def f h_def add.assoc)
  qed
qed

lemma free_not_live:
  assumes ok: "heap_ok s bs live" and b: "b \<in> set bs" and free: "get_free s b \<noteq> 0"
  shows "live (b + 40) = None"
proof (rule ccontr)
  assume "live (b + 40) \<noteq> None"
  then obtain n where "live (b + 40) = Some n" by auto
  from heap_okD(5)[OF ok this] have "unat (b + 40) \<le> heap_floor s"
    using free by (auto simp: live_block_def)
  with heap_floor_le[OF ok b] unat_data[OF ok b] show False by simp
qed

lemma kmalloc_fresh:
  assumes ok: "heap_ok s bs live" and fit: "unat (endp s) + 44 + unat sz < 2 ^ 64"
    and none: "\<forall>b \<in> set bs. get_free s b = 0 \<or> get_size s b < align4 sz"
  shows "\<exists>p s'. kmalloc sz s = Some (p, s') \<and>
    (p = 0 \<and> s' = s \<and> unat (endp s) < unat (brk s) + 40 + unat (align4 sz) \<or>
     p \<noteq> 0 \<and> p = brk s + 40 \<and> live p = None \<and> heap_ok s' (bs @ [brk s]) (live(p \<mapsto> unat sz)) \<and>
     get_free s' (brk s) = 0 \<and> get_prev s' (brk s) = 0 \<and> brk s' = brk s + (40 + align4 sz) \<and>
     hdr_only (set (bs @ [brk s])) s s')"
proof -
  let ?sa = "align4 sz"
  have al: "unat sz \<le> unat ?sa" "unat ?sa \<le> unat sz + 3" using align4_bounds[of sz] fit by auto
  have fit': "unat (endp s) + 40 + unat ?sa < 2 ^ 64" using al(2) fit by simp
  note bl = heap_okD(3)[OF ok]
  have b0: "base s = 0 \<longleftrightarrow> bs = []" using bl by (cases bs) (auto simp: blocks_def)
  obtain z s1 where e: "extend_heap (if bs = [] then 0 else last bs) ?sa s = (z, s1)" by fastforce
  define s2 where "s2 = (if bs = [] then s1\<lparr>base := z\<rparr> else s1)"
  have eq: "kmalloc sz s = Some (if z = 0 then 0 else z + 40, if z = 0 then s1 else s2)"
  proof (cases "bs = []")
    case True
    with e b0 show ?thesis by (simp add: kmalloc_def Let_def s2_def)
  next
    case False
    obtain c l where fb: "find_block (ram s) (base s) (base s) ?sa = Some (c, l)"
      and c: "if c = 0 then (\<forall>x \<in> set bs. get_free s x = 0 \<or> get_size s x < ?sa) \<and> l = (if bs = [] then base s else last bs)
        else c \<in> set bs \<and> get_free s c \<noteq> 0 \<and> ?sa \<le> get_size s c"
      using bl find_block_seg[of "ram s" _ _ "base s" bs] unfolding blocks_def by blast
    have "c = 0"
    proof (rule ccontr)
      assume "c \<noteq> 0"
      with c have "c \<in> set bs" "get_free s c \<noteq> 0" "?sa \<le> get_size s c" by auto
      with none show False by (auto simp: not_less[symmetric])
    qed
    with c False have "l = last bs" by simp
    with e b0 False fb \<open>c = 0\<close> show ?thesis by (simp add: kmalloc_def Let_def s2_def)
  qed
  from heap_ok_extend[OF ok fit' e s2_def] show ?thesis
  proof (elim disjE conjE)
    assume "z = 0" "s1 = s" "unat (endp s) < unat (brk s) + 40 + unat ?sa"
    then show ?thesis using eq by auto
  next
    assume z: "z = brk s" "z \<noteq> 0" "heap_ok s2 (bs @ [z]) live" "get_free s2 z = 0" "get_size s2 z = ?sa"
      "live (z + 40) = None" "get_prev s2 z = 0" "brk s2 = brk s + (40 + ?sa)" "hdr_only (set (bs @ [z])) s s2"
    have "heap_ok s2 (bs @ [z]) (live(z + 40 \<mapsto> unat sz))" using z al(1) by (intro heap_ok_claim) auto
    moreover have "z + 40 \<noteq> 0" using unat_data[OF z(3), of z] by auto
    ultimately show ?thesis using eq z by auto
  qed
qed

lemma kmalloc_ok:
  assumes ok: "heap_ok s bs live" and fit: "unat (endp s) + 44 + unat sz < 2 ^ 64"
  shows "\<exists>p s' bs'. kmalloc sz s = Some (p, s') \<and>
    (p = 0 \<and> s' = s \<and> unat (endp s) < unat (brk s) + 40 + unat (align4 sz) \<and>
       (\<forall>b \<in> set bs. get_free s b = 0 \<or> get_size s b < align4 sz) \<or>
     p \<noteq> 0 \<and> live p = None \<and> heap_ok s' bs' (live(p \<mapsto> unat sz)) \<and> hdr_only (set bs \<union> set bs') s s')"
proof (cases "\<forall>b \<in> set bs. get_free s b = 0 \<or> get_size s b < align4 sz")
  case True
  have un: "set bs \<union> set (bs @ [brk s]) = set (bs @ [brk s])" by auto
  from kmalloc_fresh[OF ok fit True] True show ?thesis
    by (elim exE conjE disjE) (blast, metis un)
next
  case found: False
  let ?sa = "align4 sz"
  have al: "unat sz \<le> unat ?sa" using align4_bounds[of sz] fit by auto
  note bl = heap_okD(3)[OF ok]
  obtain c l where fb: "find_block (ram s) (base s) (base s) ?sa = Some (c, l)"
    and c: "if c = 0 then (\<forall>x \<in> set bs. get_free s x = 0 \<or> get_size s x < ?sa) \<and> l = (if bs = [] then base s else last bs)
      else c \<in> set bs \<and> get_free s c \<noteq> 0 \<and> ?sa \<le> get_size s c"
    using bl find_block_seg[of "ram s" _ _ "base s" bs] unfolding blocks_def by blast
  have c0: "c \<noteq> 0" using c found by (auto split: if_splits)
  with c have m: "c \<in> set bs" and free: "get_free s c \<noteq> 0" and sz: "unat ?sa \<le> unat (get_size s c)"
    by (auto simp: word_le_nat_alt)
  have "base s \<noteq> 0" using bl m by (cases bs) (auto simp: blocks_def)
  have nl: "live (c + 40) = None" by (rule free_not_live[OF ok m free])
  define s1 where "s1 = (if get_size s c - ?sa \<ge> 44 then split c ?sa s else s)"
  have eq: "kmalloc sz s = Some (c + 40, set_free c 0 s1)"
    using fb c0 \<open>base s \<noteq> 0\<close> by (simp add: kmalloc_def Let_def s1_def)
  have "\<exists>bs1. heap_ok s1 bs1 live \<and> c \<in> set bs1 \<and> unat ?sa \<le> unat (get_size s1 c) \<and> hdr_only (set bs1) s s1"
  proof (cases "get_size s c - ?sa \<ge> 44")
    case True
    obtain xs ys where bs: "bs = xs @ c # ys" using split_list[OF m] by blast
    have "unat ?sa + 40 \<le> unat (get_size s c)"
      using True sz by (simp add: word_le_nat_alt unat_sub_nowrap)
    note sp = heap_ok_split[OF ok[unfolded bs] nl refl this]
    have "distinct (xs @ c # (c + 40 + ?sa) # ys)" by (rule blocks_distinct[OF heap_okD(3)[OF sp(1)]])
    then have "hdr_only (set (xs @ c # (c + 40 + ?sa) # ys)) s (split c ?sa s)"
      using blocks_member_next[OF bl m] by (intro hdr_split[OF heap_okD(4)[OF sp(1)]]) (auto simp: bs)
    with sp True show ?thesis
      by (intro exI[of _ "xs @ c # (c + 40 + ?sa) # ys"]) (simp add: s1_def)
  qed (use ok m sz hdr_only_refl in \<open>auto simp: s1_def\<close>)
  then obtain bs1 where s1: "heap_ok s1 bs1 live" "c \<in> set bs1" "unat ?sa \<le> unat (get_size s1 c)" "hdr_only (set bs1) s s1"
    by blast
  note sf = heap_ok_set_free[OF s1(1,2) nl, of 0]
  have "get_size (set_free c 0 s1) c = get_size s1 c"
    by (simp add: headers_good(1)[OF heap_okD(4)[OF s1(1)] s1(2) s1(2)])
  then have "heap_ok (set_free c 0 s1) bs1 (live(c + 40 \<mapsto> unat sz))"
    using sf nl s1 al by (intro heap_ok_claim) auto
  moreover have "hdr_only (set bs \<union> set bs1) s (set_free c 0 s1)"
    using hdr_only_trans[OF s1(4) hdr_set(1)[OF heap_okD(4)[OF s1(1)] s1(2)]] by (rule hdr_only_mono) simp
  moreover have "c + 40 \<noteq> 0" using unat_data[OF ok m] by auto
  ultimately show ?thesis using eq nl by blast
qed

section \<open>Release keeps the invariant\<close>

lemma get_last_block_ok:
  assumes "heap_ok s bs live"
  shows "get_last_block s = Some (if bs = [] then 0 else last bs)"
  using heap_okD(3)[OF assms] last_block_seg[of "ram s" _ _ "base s" bs]
  unfolding blocks_def get_last_block_def by blast

text \<open>The part of \<open>kfree\<close> behind the merge with the predecessor.\<close>

definition kfree_tail :: "u64 \<Rightarrow> 'a kmem_scheme \<Rightarrow> 'a kmem_scheme option" where
  "kfree_tail block s =
     (if get_next s block \<noteq> 0 then Some (merge_blocks block s)
      else let s3 = (if get_prev s block \<noteq> 0 then set_next (get_prev s block) 0 s else s\<lparr>base := 0\<rparr>)
           in case get_last_block s3 of
                None \<Rightarrow> None
              | Some l \<Rightarrow> Some (if block = l then cbrk block s3 else s3))"

lemma hdr_merge_blocks:
  assumes ok: "heap_ok s bs live" and a: "a \<in> set bs"
  shows "hdr_only (set bs) s (merge_blocks a s)"
  using blocks_member_next[OF heap_okD(3)[OF ok] a] blocks_member_next[OF heap_okD(3)[OF ok], of "get_next s a"]
  by (intro hdr_merge[OF heap_okD(4)[OF ok] a]) auto

lemma kfree_tail_ok:
  assumes ok: "heap_ok s (us @ b # ys) live" and free: "get_free s b \<noteq> 0"
  shows "\<exists>s' bs'. kfree_tail b s = Some s' \<and> brk s' = brk s \<and> heap_ok s' bs' live \<and>
    (ys = [] \<and> get_prev s b = 0 \<longrightarrow> base s' = 0) \<and> hdr_only (set (us @ b # ys)) s s'"
proof (cases ys)
  case (Cons y zs)
  then have "get_next s b = y" using blocks_next[OF heap_okD(3)[OF ok]] by simp
  moreover have "y \<noteq> 0" using blocks_bounds(1)[OF heap_okD(3)[OF ok], of y] Cons by simp
  moreover have "hdr_only (set (us @ b # ys)) s (merge_blocks b s)"
    by (rule hdr_merge_blocks[OF ok]) simp
  ultimately show ?thesis using heap_ok_merge[OF ok[unfolded Cons]] Cons by (auto simp: kfree_tail_def)
next
  case Nil
  then have nx: "get_next s b = 0" using blocks_next[OF heap_okD(3)[OF ok]] by simp
  have b0: "b \<noteq> 0" using blocks_bounds(1)[OF heap_okD(3)[OF ok], of b] by simp
  show ?thesis
  proof (cases "get_prev s b = 0")
    case True
    have "heap_ok (s\<lparr>base := 0\<rparr>) [] live" by (rule heap_ok_drop[OF ok]) simp_all
    with get_last_block_ok[OF this] nx True b0 show ?thesis by (auto simp: kfree_tail_def hdr_only_def)
  next
    case False
    from blocks_prev[OF heap_okD(3)[OF ok] this] obtain vs where us: "us = vs @ [get_prev s b]"
      by (metis append_butlast_last_id)
    have "heap_ok (set_next (get_prev s b) 0 s) (vs @ [get_prev s b]) live"
      using heap_ok_unlink[of s vs "get_prev s b" b live] ok free us Nil by simp
    moreover have "get_prev s b \<noteq> b" using blocks_distinct[OF heap_okD(3)[OF ok]] us by auto
    moreover from calculation have "kfree_tail b s = Some (set_next (get_prev s b) 0 s)"
      using get_last_block_ok[of "set_next (get_prev s b) 0 s"] nx False by (fastforce simp: kfree_tail_def)
    moreover have "hdr_only (set (us @ b # ys)) s (set_next (get_prev s b) 0 s)"
      using us by (intro hdr_set(3)[OF heap_okD(4)[OF ok]]) simp
    ultimately show ?thesis using False by auto
  qed
qed

lemma kfree_ok:
  assumes ok: "heap_ok s bs live" and l: "live p = Some n"
  shows "\<exists>s' bs'. kfree p s = Some s' \<and> brk s' = brk s \<and> heap_ok s' bs' (live(p := None)) \<and> hdr_only (set bs) s s'"
proof (cases "is_addr_valid s p")
  case False
  then show ?thesis using heap_ok_forget[OF ok] hdr_only_refl by (auto simp: kfree_def)
next
  case True
  then have "base s \<noteq> 0" "unat (base s) < unat p" by (auto simp: is_addr_valid_def word_less_nat_alt split: if_splits)
  with heap_okD(5)[OF ok l] obtain b where b: "b \<in> set bs" "p = b + 40"
    by (auto simp: live_block_def heap_floor_def)
  let ?live = "live(p := None)" and ?s1 = "set_free b 1 s"
  have pb: "get_block_addr p = b" by (simp add: get_block_addr_def b(2))
  have "?live (b + 40) = None" by (simp add: b(2))
  note s1 = heap_ok_set_free[where live = ?live and w = 1, OF heap_ok_forget[OF ok] b(1) this]
  obtain xs ys where bs: "bs = xs @ b # ys" using split_list[OF b(1)] by blast
  have h1: "hdr_only (set bs) s ?s1" by (rule hdr_set(1)[OF heap_okD(4)[OF ok] b(1)])
  show ?thesis
  proof (cases "get_prev ?s1 b \<noteq> 0 \<and> get_free ?s1 (get_prev ?s1 b) \<noteq> 0")
    case True
    let ?a = "get_prev ?s1 b"
    from blocks_prev[OF heap_okD(3)[OF s1(1)[unfolded bs]]] True obtain vs where xs: "xs = vs @ [?a]"
      by (metis append_butlast_last_id)
    have "vs @ ?a # b # ys = bs" using bs xs by simp
    then have "heap_ok ?s1 (vs @ ?a # b # ys) ?live" using s1(1) by (simp only:)
    from heap_ok_merge_free[OF this] s1(2) have m: "heap_ok (merge_blocks ?a ?s1) (vs @ ?a # ys) ?live"
      "get_free (merge_blocks ?a ?s1) ?a = get_free ?s1 ?a" by auto
    have "kfree p s = kfree_tail ?a (merge_blocks ?a ?s1)"
      using \<open>is_addr_valid s p\<close> True pb by (simp add: kfree_def kfree_tail_def Let_def)
    moreover obtain s' bs' where t: "kfree_tail ?a (merge_blocks ?a ?s1) = Some s'" "brk s' = brk s"
        "heap_ok s' bs' ?live" "hdr_only (set (vs @ ?a # ys)) (merge_blocks ?a ?s1) s'"
      using kfree_tail_ok[OF m(1)] m(2) True by auto
    moreover have "hdr_only (set bs) ?s1 (merge_blocks ?a ?s1)"
      by (rule hdr_merge_blocks[OF s1(1)]) (simp add: bs xs)
    moreover have "hdr_only (set bs) (merge_blocks ?a ?s1) s'" by (rule hdr_only_mono[OF t(4)]) (auto simp: bs xs)
    ultimately show ?thesis using h1 hdr_only_trans by metis
  next
    case False
    have "kfree p s = kfree_tail b ?s1"
      using \<open>is_addr_valid s p\<close> False pb by (auto simp: kfree_def kfree_tail_def Let_def)
    moreover obtain s' bs' where "kfree_tail b ?s1 = Some s'" "brk s' = brk s" "heap_ok s' bs' ?live" "hdr_only (set bs) ?s1 s'"
      using kfree_tail_ok[OF s1(1)[unfolded bs]] s1(2) by (auto simp: bs)
    ultimately show ?thesis using h1 hdr_only_trans by metis
  qed
qed

section \<open>Every run of the heap\<close>

text \<open>
  The histories of the heap after \<open>kmem_init\<close>, with the pointers that clients hold: allocations of sizes
  whose end, seen from the end of the heap, is still inside the address space; releases of held
  pointers; and stores of clients into the bytes they asked for.
\<close>

inductive kmem_run :: "'a kmem_scheme \<Rightarrow> (u64 \<rightharpoonup> nat) \<Rightarrow> bool" where
  init: "heap s \<noteq> 0 \<Longrightarrow> unat (heap s) + 0x1000000 < 2 ^ 64 \<Longrightarrow> kmem_run (kmem_init s) Map.empty"
| alloc: "kmem_run s live \<Longrightarrow> unat (endp s) + 44 + unat sz < 2 ^ 64 \<Longrightarrow> kmalloc sz s = Some (p, s') \<Longrightarrow>
    kmem_run s' (if p = 0 then live else live(p \<mapsto> unat sz))"
| free: "kmem_run s live \<Longrightarrow> p \<in> dom live \<Longrightarrow> kfree p s = Some s' \<Longrightarrow> kmem_run s' (live(p := None))"
| store: "kmem_run s live \<Longrightarrow> live p = Some n \<Longrightarrow> d < n \<Longrightarrow>
    kmem_run (s\<lparr>ram := (ram s)(p + of_nat d := v)\<rparr>) live"

lemma heap_ok_init:
  assumes "heap s \<noteq> 0" and "unat (heap s) + 0x1000000 < 2 ^ 64"
  shows "heap_ok (kmem_init s) [] Map.empty"
  using assms by (simp add: heap_ok_def kmem_init_def blocks_def live_separate_def unat_add_nowrap)

lemma live_outside_headers:
  assumes ok: "heap_ok s bs live" and l: "live p = Some n" and d: "d < n" and b: "b \<in> set bs"
  shows "unat (p + of_nat d) < unat b \<or> unat b + 40 \<le> unat (p + of_nat d)"
proof -
  let ?x = "p + of_nat d"
  note bl = heap_okD(3)[OF ok]
  have top: "unat p + n \<le> unat (brk s)" by (rule live_below_brk[OF ok l])
  then have "unat (of_nat d :: u64) = d" using d unat_lt64[of "brk s"] by (intro unat_of_nat_small) simp
  then have ux: "unat ?x = unat p + d" using d top unat_lt64[of "brk s"] by (simp add: unat_add_nowrap)
  show ?thesis
    using heap_okD(5)[OF ok l] unfolding live_block_def
  proof (elim disjE bexE conjE)
    fix c assume c: "c \<in> set bs" "p = c + 40" "n \<le> unat (get_size s c)"
    show ?thesis
      using blocks_spaced[OF bl b c(1)] c(2,3) unat_data[OF ok c(1)] ux d by (cases "b = c") auto
  next
    assume "unat p + n \<le> heap_floor s"
    then show ?thesis using heap_floor_le[OF ok b] ux d by linarith
  qed
qed

lemma heap_ok_store:
  assumes ok: "heap_ok s bs live" and l: "live p = Some n" and d: "d < n"
  shows "heap_ok (s\<lparr>ram := (ram s)(p + of_nat d := v)\<rparr>) bs live"
proof -
  let ?s = "s\<lparr>ram := (ram s)(p + of_nat d := v)\<rparr>"
  have same: "block_at (ram ?s) b = block_at (ram s) b" if "b \<in> set bs" for b
    using block_at_upd[OF _ live_outside_headers[OF assms that]] that heap_okD(4)[OF ok] by (simp add: good_def)
  have bl': "blocks (block_at (ram ?s)) (unat (heap s)) (base s) bs (unat (brk s))"
    using heap_okD(3)[OF ok] same by (subst blocks_same[of _ _ "block_at (ram s)"]) auto
  show ?thesis by (rule heap_ok_update[OF ok _ _ _ _ bl']) (use same in \<open>auto simp: map_le_def\<close>)
qed

lemma hdr_only_live:
  assumes "hdr_only (set bs \<union> set bs') s s'" and "heap_ok s bs live" and "live p = Some n"
    and "heap_ok s' bs' live'" and "live' p = Some n" and "d < n"
  shows "ram s' (p + of_nat d) = ram s (p + of_nat d)"
  using assms(1) live_outside_headers[OF assms(2,3,6)] live_outside_headers[OF assms(4,5,6)]
  unfolding hdr_only_def by blast

lemma kmem_run_ok: "kmem_run s live \<Longrightarrow> \<exists>bs. heap_ok s bs live"
proof (induction rule: kmem_run.induct)
  case (init s)
  then show ?case using heap_ok_init by blast
next
  case (alloc s live sz p s')
  then obtain bs where "heap_ok s bs live" by blast
  from kmalloc_ok[OF this alloc.hyps(2)] alloc.hyps(3) \<open>heap_ok s bs live\<close> show ?case by auto
next
  case (free s live p s')
  then obtain bs n where "heap_ok s bs live" "live p = Some n" by blast
  from kfree_ok[OF this] free.hyps(3) obtain bs' where "heap_ok s' bs' (live(p := None))" by auto
  then show ?case by blast
next
  case (store s live p n d v)
  then show ?case using heap_ok_store by blast
qed

abbreviation heap_range :: "'a kmem_scheme \<Rightarrow> nat set" where
  "heap_range s \<equiv> {unat (heap s) ..< unat (heap s) + 0x1000000}"

lemma live_in_heap:
  assumes ok: "heap_ok s bs live" and l: "live p = Some n"
  shows "data_range p n \<subseteq> heap_range s"
proof -
  have "unat (heap s) \<le> unat p"
    using heap_okD(5)[OF ok l] blocks_bounds(2)[OF heap_okD(3)[OF ok]] unat_data[OF ok] unfolding live_block_def by fastforce
  moreover have "unat (brk s) \<le> unat (heap s) + 0x1000000" using ok by (simp add: heap_ok_def)
  ultimately show ?thesis using live_below_brk[OF ok l] by (auto simp: data_range_def)
qed

text \<open>
  C12. In every run of the kernel heap, whatever the order of allocations, releases and stores by
  clients into their own blocks, the memory of live allocations is pairwise disjoint and inside the
  heap.
\<close>

theorem kmem_run_separate:
  assumes "kmem_run s live"
  shows "live_separate live \<and> (\<forall>p n. live p = Some n \<longrightarrow> data_range p n \<subseteq> heap_range s)"
proof -
  obtain bs where ok: "heap_ok s bs live" using kmem_run_ok[OF assms] by blast
  with live_in_heap[OF ok] show ?thesis by (simp add: heap_ok_def)
qed

text \<open>
  C13. \<open>kmalloc\<close> and \<open>kfree\<close> return in every reachable state: their loops over the block list end. \<open>kmalloc\<close> returns for every size
  that does not wrap around behind the end of the heap; it fails only when no free block of the list is large enough and the rest of
  the heap is too small, and then changes nothing. \<open>kfree\<close> returns for every live allocation, and does not
  move the break back, so the heap below it is never given back. The list \<open>bs\<close> is the chain of \<open>next\<close> pointers from \<open>base\<close>.
\<close>

theorem kmem_run_returns:
  assumes "kmem_run s live"
  shows "\<exists>bs. blocks (block_at (ram s)) (unat (heap s)) (base s) bs (unat (brk s)) \<and>
    (\<forall>sz. unat (endp s) + 44 + unat sz < 2 ^ 64 \<longrightarrow>
      (\<exists>q s'. kmalloc sz s = Some (q, s') \<and>
        (q = 0 \<longrightarrow> s' = s \<and> unat (endp s) < unat (brk s) + 40 + unat (align4 sz) \<and>
          (\<forall>b \<in> set bs. get_free s b = 0 \<or> get_size s b < align4 sz)))) \<and>
    (\<forall>p \<in> dom live. \<exists>s'. kfree p s = Some s' \<and> brk s' = brk s)"
proof -
  obtain bs where ok: "heap_ok s bs live" using kmem_run_ok[OF assms(1)] by blast
  from heap_okD(3)[OF ok] kmalloc_ok[OF ok] kfree_ok[OF ok] show ?thesis by (intro exI[of _ bs]) blast
qed

text \<open>
  C14. The allocator does not touch the memory of its clients: no allocation, of any size that does not wrap around behind the end of
  the heap, and no release of another live allocation changes any byte of a live allocation.
\<close>

theorem kmem_run_content:
  assumes run: "kmem_run s live" and l: "live p = Some n" and d: "d < n"
  shows "(\<forall>sz r s'. unat (endp s) + 44 + unat sz < 2 ^ 64 \<longrightarrow> kmalloc sz s = Some (r, s') \<longrightarrow> ram s' (p + of_nat d) = ram s (p + of_nat d)) \<and>
    (\<forall>q \<in> dom live - {p}. \<forall>s'. kfree q s = Some s' \<longrightarrow> ram s' (p + of_nat d) = ram s (p + of_nat d))"
proof (intro conjI allI impI ballI)
  obtain bs where ok: "heap_ok s bs live" using kmem_run_ok[OF run] by blast
  fix s'
  {
    fix sz r
    assume fit: "unat (endp s) + 44 + unat sz < 2 ^ 64" and m: "kmalloc sz s = Some (r, s')"
    from kmalloc_ok[OF ok fit] m obtain bs' where "s' = s \<or>
        live r = None \<and> heap_ok s' bs' (live(r \<mapsto> unat sz)) \<and> hdr_only (set bs \<union> set bs') s s'" by auto
    then show "ram s' (p + of_nat d) = ram s (p + of_nat d)"
    proof (elim disjE conjE)
      assume r: "live r = None" "heap_ok s' bs' (live(r \<mapsto> unat sz))" "hdr_only (set bs \<union> set bs') s s'"
      have "(live(r \<mapsto> unat sz)) p = Some n" using l r(1) by auto
      from hdr_only_live[OF r(3) ok l r(2) this d] show ?thesis .
    qed simp
  next
    fix q
    assume q: "q \<in> dom live - {p}" and f: "kfree q s = Some s'"
    obtain k where "live q = Some k" using q by blast
    from kfree_ok[OF ok this] f obtain bs' where h: "heap_ok s' bs' (live(q := None))" "hdr_only (set bs) s s'" by auto
    have "(live(q := None)) p = Some n" using l q by auto
    from hdr_only_live[OF hdr_only_mono[OF h(2)] ok l h(1) this d] show "ram s' (p + of_nat d) = ram s (p + of_nat d)"
      by simp
  }
qed

section \<open>Where the heap loses memory\<close>

lemma kmalloc_at_break:
  assumes ok: "heap_ok s bs live" and m: "kmalloc sz s = Some (brk s + 40, s')"
    and fit: "unat (endp s) + 44 + unat sz < 2 ^ 64"
  shows "\<forall>b \<in> set bs. get_free s b = 0 \<or> get_size s b < align4 sz"
proof (rule ccontr)
  assume found: "\<not> ?thesis"
  note bl = heap_okD(3)[OF ok]
  obtain c l where fb: "find_block (ram s) (base s) (base s) (align4 sz) = Some (c, l)"
    and c: "if c = 0 then (\<forall>x \<in> set bs. get_free s x = 0 \<or> get_size s x < align4 sz) \<and> l = (if bs = [] then base s else last bs)
      else c \<in> set bs \<and> get_free s c \<noteq> 0 \<and> align4 sz \<le> get_size s c"
    using bl find_block_seg[of "ram s" _ _ "base s" bs] unfolding blocks_def by blast
  have c0: "c \<noteq> 0" "c \<in> set bs" using c found by (auto split: if_splits)
  then have "base s \<noteq> 0" using bl by (cases bs) (auto simp: blocks_def)
  with fb c0 m have "c + 40 = brk s + 40" by (simp add: kmalloc_def Let_def)
  with blocks_bounds(3)[OF bl c0(2)] show False by simp
qed

text \<open>
  C15. \<open>extend_heap\<close> links a new block behind the last one but leaves its \<open>prev\<close> \<open>NULL\<close>. When \<open>kfree\<close> then
  releases that block while it is still the last, it takes it for the only one: it drops the whole list,
  also when other blocks are in use. Their owners can no longer release them, every later \<open>kfree\<close> of
  them being ignored, and the break does not go back.
\<close>

theorem kfree_drops_list:
  assumes run: "kmem_run s live" and fit: "unat (endp s) + 44 + unat sz < 2 ^ 64" and sz: "0 < sz"
    and m: "kmalloc sz s = Some (brk s + 40, s1)" and f: "kfree (brk s + 40) s1 = Some s2"
  shows "base s2 = 0 \<and> brk s2 = brk s + (40 + align4 sz) \<and> kfree q s2 = Some s2"
proof -
  let ?z = "brk s"
  obtain bs where ok: "heap_ok s bs live" using kmem_run_ok[OF run] by blast
  note fr = kmalloc_fresh[OF ok fit kmalloc_at_break[OF ok m fit]] and al = align4_bounds[of sz]
  have "unat (brk s) \<le> unat (endp s)" using ok by (simp add: heap_ok_def)
  then have uz: "unat (?z + 40) = unat ?z + 40" "unat (?z + (40 + align4 sz)) = unat ?z + 40 + unat (align4 sz)"
    using fit al by (auto simp: unat_add_nowrap)
  then have "?z + 40 \<noteq> 0" by auto
  with fr m have s1: "heap_ok s1 (bs @ [?z]) (live(?z + 40 \<mapsto> unat sz))" "get_prev s1 ?z = 0"
      "brk s1 = ?z + (40 + align4 sz)" by auto
  note bl = heap_okD(3)[OF s1(1)]
  have "base s1 \<noteq> 0" using bl by (cases bs) (auto simp: blocks_def)
  moreover have "unat (base s1) \<le> unat ?z"
    using heap_floor_le[OF s1(1), of ?z] \<open>base s1 \<noteq> 0\<close> by (simp add: heap_floor_def)
  moreover have "0 < unat (align4 sz)" using al fit sz by (simp add: word_less_nat_alt)
  ultimately have valid: "is_addr_valid s1 (?z + 40)"
    using blocks_bounds(4)[OF bl, of ?z] uz s1(3)
    by (simp add: is_addr_valid_def sbrk_def get_block_addr_def word_less_nat_alt)
  let ?s = "set_free ?z 1 s1" and ?live = "(live(?z + 40 \<mapsto> unat sz))(?z + 40 := None)"
  have "?live (?z + 40) = None" by simp
  note hs = heap_ok_set_free[where live = ?live and w = 1, OF heap_ok_forget[OF s1(1)] _ this]
  have v: "block_at (ram ?s) ?z = (block_at (ram s1) ?z)\<lparr>mb_free := 1\<rparr>"
    by (simp add: headers_good(1)[OF heap_okD(4)[OF s1(1)]])
  have "kfree (?z + 40) s1 = kfree_tail ?z ?s"
    using valid s1(2) v by (simp add: kfree_def kfree_tail_def get_block_addr_def Let_def)
  with kfree_tail_ok[OF hs(1)] v s1(2,3) f have "base s2 = 0" "brk s2 = ?z + (40 + align4 sz)" by auto
  then show ?thesis by (simp add: kfree_def is_addr_valid_def)
qed

text \<open>
  C16. \<open>sbrk\<close> compares \<open>brk + size\<close> with the end of the heap without regard to wrap-around. A request so large
  that the sum wraps is granted: the allocation succeeds, although the heap is far too small, and the
  break moves down.
\<close>

theorem kmalloc_wraps:
  assumes "base s = 0" and "0 < brk s" and "brk s < -1" and "brk s \<le> endp s"
    and "2 ^ 64 \<le> unat (brk s) + 40 + unat (align4 sz)" and "40 + unat (align4 sz) < 2 ^ 64"
  shows "\<exists>s'. kmalloc sz s = Some (brk s + 40, s') \<and> base s' = brk s \<and> brk s' < brk s"
proof -
  let ?n = "40 + align4 sz"
  have n: "unat ?n = 40 + unat (align4 sz)" using assms(6) by (simp add: unat_add_nowrap)
  have "unat (brk s + ?n) = (unat (brk s) + unat ?n) mod 2 ^ 64" by (simp add: unat_word_ariths)
  also have "\<dots> = unat (brk s) + unat ?n - 2 ^ 64"
    using assms(5,6) n unat_lt64[of "brk s"] by (subst le_mod_geq) auto
  finally have "unat (brk s + ?n) < unat (brk s)" using assms(5,6) n unat_lt64[of "brk s"] by simp
  then have lt: "brk s + ?n < brk s" by (simp add: word_less_nat_alt)
  then have "\<not> brk s + ?n > endp s" using assms(4) by simp
  moreover have "?n \<noteq> 0" using n by auto
  moreover have "brk s \<noteq> 0" "brk s \<noteq> -1" using assms(2,3) by auto
  ultimately show ?thesis using assms(1) lt
    by (simp add: kmalloc_def extend_heap_def sbrk_def Let_def)
qed

section \<open>Examples\<close>

definition ex_heap :: kmem where
  "ex_heap = \<lparr>ram = (\<lambda>_. 0), hhdm = 0, trace = [], heap = 0x1000, brk = 0, endp = 0, base = 0\<rparr>"

lemma kmalloc_endp: "kmalloc sz s = Some (p, s') \<Longrightarrow> endp s' = endp s"
  by (auto simp: kmalloc_def extend_heap_def sbrk_def split_def Let_def Kmem.split_def
      split: option.splits if_splits prod.splits)

lemma ex_heap_first:
  "\<exists>s :: kmem. kmem_run s [0x1028 \<mapsto> 8] \<and> heap_ok s [0x1000] [0x1028 \<mapsto> 8] \<and> get_free s 0x1000 = 0 \<and>
    brk s = 0x1030 \<and> endp s = 0x1001000"
proof -
  let ?i = "kmem_init ex_heap"
  have i: "kmem_run ?i Map.empty" by (rule kmem_run.init) (simp_all add: ex_heap_def)
  have ok: "heap_ok ?i [] Map.empty" by (rule heap_ok_init) (simp_all add: ex_heap_def)
  have v: "brk ?i = 0x1000" "endp ?i = 0x1001000" "align4 8 = 8" by (simp_all add: kmem_init_def ex_heap_def align4_def)
  from kmalloc_fresh[OF ok, of 8] obtain s where s: "kmalloc 8 ?i = Some (0x1028, s)" "heap_ok s [0x1000] [0x1028 \<mapsto> 8]"
      "get_free s 0x1000 = 0" "brk s = 0x1030"
    by (auto simp: v)
  from kmem_run.alloc[OF i _ s(1)] have "kmem_run s [0x1028 \<mapsto> 8]" by (simp add: v)
  with s kmalloc_endp[OF s(1)] v(2) show ?thesis by auto
qed

lemma ex_heap_second:
  "\<exists>(s :: kmem) s'. kmem_run s [0x1028 \<mapsto> 8] \<and> brk s = 0x1030 \<and> endp s = 0x1001000 \<and> kmalloc 16 s = Some (0x1058, s') \<and>
    endp s' = 0x1001000 \<and> kmem_run s' [0x1028 \<mapsto> 8, 0x1058 \<mapsto> 16]"
proof -
  obtain s :: kmem where s: "kmem_run s [0x1028 \<mapsto> 8]" "heap_ok s [0x1000] [0x1028 \<mapsto> 8]" "get_free s 0x1000 = 0"
      "brk s = 0x1030" "endp s = 0x1001000" using ex_heap_first by blast
  have fit: "unat (endp s) + 44 + unat (16 :: u64) < 2 ^ 64" by (simp add: s)
  from kmalloc_fresh[OF s(2) fit] s(3) obtain s' where q: "kmalloc 16 s = Some (0x1058, s')"
    by (auto simp: s(4,5) align4_def)
  from kmem_run.alloc[OF s(1) fit q] have "kmem_run s' [0x1028 \<mapsto> 8, 0x1058 \<mapsto> 16]" by simp
  with s q kmalloc_endp[OF q] show ?thesis by auto
qed

theorem kmem_run_separate_witness:
  "\<exists>s live. kmem_run (s :: kmem) live \<and> live 0x1028 = Some 8 \<and> live 0x1058 = Some 16 \<and>
    disjnt (data_range 0x1028 8) (data_range 0x1058 16)"
proof -
  obtain s' :: kmem where r: "kmem_run s' [0x1028 \<mapsto> 8, 0x1058 \<mapsto> 16]" using ex_heap_second by blast
  from kmem_run_separate[OF r] have "disjnt (data_range 0x1028 8) (data_range 0x1058 16)"
    by (simp add: live_separate_def)
  with r show ?thesis by (intro exI[of _ s'] exI[of _ "[0x1028 \<mapsto> 8, 0x1058 \<mapsto> 16]"]) auto
qed

theorem kmem_run_returns_witness:
  "\<exists>s live. kmem_run (s :: kmem) live \<and> live 0x1028 = Some 8 \<and>
    (\<exists>q s'. kmalloc 16 s = Some (q, s')) \<and> (\<exists>s'. kfree 0x1028 s = Some s' \<and> brk s' = brk s)"
proof -
  obtain s :: kmem where s: "kmem_run s [0x1028 \<mapsto> 8]" "endp s = 0x1001000" using ex_heap_first by blast
  from kmem_run_returns[OF s(1)] have "\<exists>q s'. kmalloc 16 s = Some (q, s')" "\<exists>s'. kfree 0x1028 s = Some s' \<and> brk s' = brk s"
    by (auto simp: s(2) dest!: spec[of _ "16 :: u64"])
  with s(1) show ?thesis by (intro exI[of _ s] exI[of _ "[0x1028 \<mapsto> 8]"]) simp
qed

theorem kmem_run_content_witness:
  "\<exists>s live s' s'' r. kmem_run (s :: kmem) live \<and> live 0x1028 = Some 8 \<and> live 0x1058 = Some 16 \<and>
    kmalloc 16 s = Some (r, s') \<and> kfree 0x1058 s = Some s'' \<and> ram s' 0x102f = ram s 0x102f \<and> ram s'' 0x102f = ram s 0x102f"
proof -
  let ?live = "[0x1028 \<mapsto> 8, 0x1058 \<mapsto> 16] :: u64 \<rightharpoonup> nat"
  obtain s :: kmem where s: "kmem_run s ?live" "endp s = 0x1001000" using ex_heap_second by blast
  have fit: "unat (endp s) + 44 + unat (16 :: u64) < 2 ^ 64" by (simp add: s)
  obtain bs where ok: "heap_ok s bs ?live" using kmem_run_ok[OF s(1)] by blast
  obtain r s' where m: "kmalloc 16 s = Some (r, s')" using kmalloc_ok[OF ok fit] by blast
  obtain s'' where f: "kfree 0x1058 s = Some s''" using kfree_ok[OF ok, of "0x1058" 16] by auto
  have "ram s' 0x102f = ram s 0x102f" "ram s'' 0x102f = ram s 0x102f"
    using kmem_run_content[OF s(1), of "0x1028" 8 7, THEN conjunct1, rule_format, OF _ _ fit m]
      kmem_run_content[OF s(1), of "0x1028" 8 7, THEN conjunct2, rule_format, OF _ _ _ f] by simp_all
  with s(1) m f show ?thesis
    by (intro exI[of _ s] exI[of _ ?live] exI[of _ s'] exI[of _ s''] exI[of _ r]) auto
qed

theorem kfree_drops_list_witness:
  "\<exists>s s1 s2. kmem_run (s :: kmem) [0x1028 \<mapsto> 8] \<and> kmalloc 16 s = Some (0x1058, s1) \<and>
    kfree 0x1058 s1 = Some s2 \<and> base s2 = 0 \<and> kfree 0x1028 s2 = Some s2"
proof -
  obtain s s1 :: kmem where s: "kmem_run s [0x1028 \<mapsto> 8]" "brk s = 0x1030" "endp s = 0x1001000"
      "kmalloc 16 s = Some (0x1058, s1)" "kmem_run s1 [0x1028 \<mapsto> 8, 0x1058 \<mapsto> 16]"
    using ex_heap_second by blast
  obtain bs where ok: "heap_ok s1 bs [0x1028 \<mapsto> 8, 0x1058 \<mapsto> 16]" using kmem_run_ok[OF s(5)] by blast
  obtain s2 where f: "kfree 0x1058 s1 = Some s2" using kfree_ok[OF ok, of "0x1058" 16] by auto
  from kfree_drops_list[OF s(1), of 16 s1 s2 "0x1028"] s f show ?thesis by auto
qed

theorem kmalloc_wraps_witness:
  "\<exists>s'. kmalloc 0x80000000 (kmem_init (ex_heap\<lparr>heap := 0xffffffff80200000\<rparr>)) = Some (0xffffffff80200028, s') \<and>
    brk s' < 0xffffffff80200000"
  using kmalloc_wraps[of "kmem_init (ex_heap\<lparr>heap := 0xffffffff80200000\<rparr>)" "0x80000000"]
  by (simp add: kmem_init_def ex_heap_def align4_def) blast

end
