(* ===== verification/KernelMemory.thy ===== *)
theory KernelMemory
  imports KmemHeap Paging
begin

text \<open>
  The kernel heap, the page allocator and the page tables share one memory. This theory puts their invariants together: what one of them
  writes is never memory that another one uses, whatever the order of the calls.
\<close>

section \<open>Page tables and other memory\<close>

text \<open>The globals of the page allocator and of the page tables are the same in both states.\<close>

definition same_frames :: "'a vmm_scheme \<Rightarrow> 'a vmm_scheme \<Rightarrow> bool" where
  "same_frames s s' \<longleftrightarrow> hhdm s' = hhdm s \<and> physical_base s' = physical_base s \<and> total_pages s' = total_pages s \<and>
     bitmap s' = bitmap s \<and> PML4 s' = PML4 s"

text \<open>Memories that agree with that of \<open>s\<close> on its page tables.\<close>

definition keeps_tables :: "'a vmm_scheme \<Rightarrow> mem \<Rightarrow> bool" where
  "keeps_tables s m \<longleftrightarrow> (\<forall>x. frame_of s x < page_count s \<longrightarrow> frame_va s (frame_of s x) \<in> table_set s \<longrightarrow> m x = ram s x)"

lemma same_frames_ram [simp]: "same_frames s (s\<lparr>ram := m\<rparr>)"
  by (simp add: same_frames_def)

lemma same_framesD:
  assumes "same_frames s s'"
  shows "page_addr s' = page_addr s" "frame_va s' = frame_va s" "frame_of s' = frame_of s" "bitmap_pages s' = bitmap_pages s"
    "next_table s' = next_table s" "page_count s' = page_count s" "hhdm s' = hhdm s"
  using assms
  by (simp_all add: same_frames_def page_addr_def frame_va_def phys_to_virt_def frame_of_def bitmap_pages_def next_table_def fun_eq_iff)

lemma tables_kept:
  assumes ok: "vm_ok s" and f: "same_frames s s'" and k: "keeps_tables s (ram s')"
  shows "is_path q \<Longrightarrow> table_at s' q = table_at s q" "table_set s' = table_set s" "getPhysicalAddress s' v = getPhysicalAddress s v"
proof -
  have entry: "entry_at s' u j = entry_at s u j" if q: "is_path q" "table_at s q = Some u" and j: "j < 512" for q u j
  proof -
    obtain n where n: "u = frame_va s n" "n < page_count s" by (rule vm_ok_frame[OF ok q])
    have "frame_va s n \<in> table_set s" using q n(1) by (auto simp: table_set_def)
    then show ?thesis unfolding n(1) using k n(2)
      by (intro entry_cong[OF vm_ok_pmm[OF ok] n(2) j]) (auto simp: keeps_tables_def)
  qed
  show tab: "table_at s' q = table_at s q" if "is_path q" for q
    by (rule table_at_update[where p = "[0, 0, 0, 0]" and i = 0])
      (use that entry f in \<open>auto simp: is_path_def same_frames_def\<close>)
  then show "table_set s' = table_set s" by (auto simp: table_set_def)
  show "getPhysicalAddress s' v = getPhysicalAddress s v"
    using tab[OF is_path_table_path, of v] entry[OF is_path_table_path _ idx_less(4), of v]
    by (auto simp: getPhysicalAddress_walk leaf_translation_def split: option.split)
qed

lemma table_frame:
  assumes ok: "vm_ok s" and "k < page_count s" and "frame_va s k \<in> table_set s"
  shows "owned_frame s k"
proof -
  obtain p where "is_path p" "table_at s p = Some (frame_va s k)" using assms(3) by (auto simp: table_set_def)
  then obtain k' where k': "frame_va s k = frame_va s k'" "owned_frame s k'" "k' < page_count s" by (rule vm_ok_frame[OF ok])
  then show ?thesis using frame_va_inj[OF vm_ok_pmm[OF ok] assms(2) k'(3)] by simp
qed

lemma vm_ok_kept:
  assumes ok: "vm_ok s" and f: "same_frames s s'" and k: "keeps_tables s (ram s')" and wf: "pmm_wf s'"
    and used: "\<And>n. n < page_count s \<Longrightarrow> frame_va s n \<in> table_set s \<Longrightarrow> page_used s n \<Longrightarrow> page_used s' n"
  shows "vm_ok s'"
proof (rule vm_okI[OF wf])
  note d = same_framesD[OF f]
  show "\<exists>n. t = frame_va s' n \<and> owned_frame s' n" if p: "is_path p" "table_at s' p = Some t" for p t
  proof -
    have t: "table_at s p = Some t" using tables_kept(1)[OF ok f k p(1)] p(2) by simp
    obtain n where n: "t = frame_va s n" "owned_frame s n" by (rule vm_ok_frame[OF ok p(1) t])
    have "frame_va s n \<in> table_set s" using p(1) t n(1) by (auto simp: table_set_def)
    with n used show ?thesis by (auto simp: owned_frame_def d)
  qed
  show "p = q" if "is_path p" "is_path q" "table_at s' p = Some t" "table_at s' q = Some t" for p q t
    using vm_ok_inj[OF ok that(1,2)] that tables_kept(1)[OF ok f k] by auto
qed (use ok f in \<open>simp_all add: vm_ok_def same_frames_def\<close>)

section \<open>The heap and other memory\<close>

text \<open>The heap calls change memory, the break and the start of the list, and nothing else of the state.\<close>

definition heap_only :: "'a kmem_scheme \<Rightarrow> 'a kmem_scheme \<Rightarrow> bool" where
  "heap_only s s' \<longleftrightarrow> s' = s\<lparr>ram := ram s', brk := brk s', base := base s'\<rparr>"

lemma heap_only_refl: "heap_only s s"
  by (simp add: heap_only_def)

lemma heap_only_trans: "heap_only s s' \<Longrightarrow> heap_only s' s'' \<Longrightarrow> heap_only s s''"
  by (cases s; cases s'; cases s'') (simp add: heap_only_def)

lemma heap_only_sets:
  assumes "heap_only s s'"
  shows "heap_only s (set_free b w s')" "heap_only s (set_size b v s')" "heap_only s (set_next b v s')" "heap_only s (set_prev b v s')"
    "heap_only s (set_ptr b v s')" "heap_only s (s'\<lparr>brk := v\<rparr>)" "heap_only s (s'\<lparr>base := v\<rparr>)"
  using assms
  by (cases s; cases s'; simp add: heap_only_def set_free_def set_size_def set_next_def set_prev_def set_ptr_def)+

lemma heap_only_steps:
  assumes "heap_only s s'"
  shows "heap_only s (split b sz s')" "heap_only s (merge_blocks b s')" "heap_only s (snd (extend_heap l sz s'))" "heap_only s (cbrk b s')"
  using assms
  by (simp_all add: Kmem.split_def merge_blocks_def extend_heap_def sbrk_def cbrk_def Let_def heap_only_sets)

lemma kmalloc_only: "kmalloc sz s = Some (p, s') \<Longrightarrow> heap_only s s'"
proof -
  have e: "heap_only s s1" if "extend_heap l x s = (y, s1)" for l x y s1
    using heap_only_steps(3)[OF heap_only_refl, of s l x] that by simp
  show "kmalloc sz s = Some (p, s') \<Longrightarrow> heap_only s s'"
    by (auto simp: kmalloc_def Let_def heap_only_sets heap_only_steps heap_only_refl e split: option.splits if_splits prod.splits)
qed

lemma kfree_only: "kfree p s = Some s' \<Longrightarrow> heap_only s s'"
  by (auto simp: kfree_def Let_def heap_only_sets heap_only_steps heap_only_refl split: option.splits if_splits)

lemma heap_only_same: "heap_only s s' \<Longrightarrow> same_frames s s' \<and> heap s' = heap s \<and> endp s' = endp s"
  by (cases s; cases s') (simp add: heap_only_def same_frames_def)

lemma hdr_only_heap:
  assumes ok: "heap_ok s bs live" "heap_ok s' bs' live'" and h: "hdr_only (set bs \<union> set bs') s s'" "heap s' = heap s"
    and x: "unat x \<notin> heap_range s"
  shows "ram s' x = ram s x"
proof -
  have "unat x < unat b \<or> unat b + 40 \<le> unat x" if "heap_ok t cs l" "b \<in> set cs" "heap t = heap s" for t :: "'a kmem_scheme" and cs l b
    using blocks_bounds(2,3)[OF heap_okD(3)[OF that(1)] that(2)] that(1,3) x by (auto simp: heap_ok_def)
  with ok h show ?thesis unfolding hdr_only_def by blast
qed

lemma block_at_cong:
  assumes "\<And>d. d < 40 \<Longrightarrow> m (b + of_nat d) = m' (b + of_nat d)"
  shows "block_at m b = block_at m' b"
proof -
  have "ldn n m (b + of_nat e) = ldn n m' (b + of_nat e)" if "e + n \<le> 40" for e n
    using that assms by (intro ldn_cong) (simp flip: of_nat_add add: add.assoc)
  from this[of 0 4] this[of 8 8] this[of 16 8] this[of 24 8] this[of 32 8] show ?thesis
    by (simp add: block_at_def)
qed

text \<open>Stores outside the heap keep its invariant.\<close>

lemma heap_ok_outside:
  assumes ok: "heap_ok s bs live" and m: "\<And>x. unat x \<in> heap_range s \<Longrightarrow> m x = ram s x"
  shows "heap_ok (s\<lparr>ram := m\<rparr>) bs live"
proof -
  have same: "block_at m b = block_at (ram s) b" if b: "b \<in> set bs" for b
  proof (rule block_at_cong)
    fix d :: nat assume d: "d < 40"
    note bb = blocks_bounds(2,3)[OF heap_okD(3)[OF ok] b]
    have top: "unat (brk s) \<le> unat (heap s) + 0x1000000" using ok by (simp add: heap_ok_def)
    have "unat (b + of_nat d) = unat b + d" by (rule unat_field[OF _ d]) (use bb(2) unat_lt64[of "brk s"] in \<open>simp add: fits_def\<close>)
    then show "m (b + of_nat d) = ram s (b + of_nat d)" using bb top d by (intro m) simp
  qed
  have bl': "blocks (block_at m) (unat (heap s)) (base s) bs (unat (brk s))"
    using heap_okD(3)[OF ok] same by (subst blocks_same[of _ _ "block_at (ram s)"]) auto
  show ?thesis by (rule heap_ok_update[OF ok]) (use bl' same in \<open>auto simp: map_le_def\<close>)
qed

section \<open>All three together\<close>

text \<open>The page allocations that clients hold are allocations, and none of their pages is a page table.\<close>

definition frames_ok :: "'a vmm_scheme \<Rightarrow> (u64 \<times> nat) set \<Rightarrow> bool" where
  "frames_ok s F \<longleftrightarrow> live_ok s F \<and> (\<forall>a \<in> F. \<forall>i. extent s a i \<longrightarrow> (\<forall>k \<in> {i ..< i + snd a}. frame_va s k \<notin> table_set s))"

text \<open>The heap, an array of the kernel image, is not part of the memory that the page allocator manages.\<close>

definition heap_apart :: "'a vmm_scheme \<Rightarrow> bool" where
  "heap_apart s \<longleftrightarrow> (\<forall>x. unat x \<in> heap_range s \<longrightarrow> page_count s \<le> frame_of s x)"

definition kernel_ok :: "'a vmm_scheme \<Rightarrow> (u64 \<rightharpoonup> nat) \<Rightarrow> (u64 \<times> nat) set \<Rightarrow> bool" where
  "kernel_ok s live F \<longleftrightarrow> vm_ok s \<and> frames_ok s F \<and> (\<exists>bs. heap_ok s bs live) \<and> heap_apart s"

lemma held_frame:
  assumes wf: "pmm_wf s" and e: "extent s (p, n) i" and d: "d < n * 4096"
  shows "frame_of s (hhdm s + p + of_nat d) = i + d div 4096"
proof -
  have off: "hhdm s + p + of_nat d - bitmap s = of_nat (i * 4096 + d)"
    using wf e by (simp add: pmm_wf_def extent_def page_addr_def algebra_simps)
  have "i * 4096 + d < 2 ^ 64" using e d pmm_wf_page_count[OF wf] by (simp add: extent_def)
  then have "unat (hhdm s + p + of_nat d - bitmap s) = i * 4096 + d" by (simp only: off) (rule unat_of_nat_small, simp)
  then show ?thesis by (simp add: frame_of_def)
qed

lemma held_client:
  assumes "frames_ok s F" and "(p, n) \<in> F" and "d < n * 4096"
  shows "client_byte s (hhdm s + p + of_nat d)" "frame_of s (hhdm s + p + of_nat d) < page_count s"
proof -
  have wf: "pmm_wf s" using assms(1) by (simp add: frames_ok_def live_ok_def)
  obtain i where i: "extent s (p, n) i" using assms(1,2) by (auto simp: frames_ok_def live_ok_def)
  have k: "i + d div 4096 \<in> {i ..< i + n}" using assms(3) by auto
  have "frame_va s (i + d div 4096) \<notin> table_set s" using assms(1,2) i k by (fastforce simp: frames_ok_def)
  with held_frame[OF wf i assms(3)] i k show "client_byte s (hhdm s + p + of_nat d)" "frame_of s (hhdm s + p + of_nat d) < page_count s"
    by (auto simp: client_byte_def extent_def)
qed

text \<open>Memory outside the managed pages can change.\<close>

lemma frames_same:
  assumes ok: "vm_ok s" and fr: "frames_ok s F" and f: "same_frames s s'"
    and m: "\<And>x. frame_of s x < page_count s \<Longrightarrow> ram s' x = ram s x"
  shows "vm_ok s'" "frames_ok s' F" "getPhysicalAddress s' v = getPhysicalAddress s v"
proof -
  note d = same_framesD[OF f]
  have wf: "pmm_wf s" by (rule vm_ok_pmm[OF ok])
  have used: "page_used s' n = page_used s n" if "n < page_count s" for n
  proof -
    have "page_used s' n = page_used (s\<lparr>ram := ram s'\<rparr>) n" using f by (simp add: page_used_def same_frames_def)
    also have "\<dots> = page_used (s\<lparr>ram := ram s\<rparr>) n"
      using m bitmap_pages_le[of s] by (intro page_used_cong[OF wf that]) simp
    finally show ?thesis by simp
  qed
  have wf': "pmm_wf s'"
    using wf f used bitmap_pages_le[of s] by (auto simp: pmm_wf_def d same_frames_def)
  have k: "keeps_tables s (ram s')" using m by (simp add: keeps_tables_def)
  show "vm_ok s'" by (rule vm_ok_kept[OF ok f k wf']) (simp add: used)
  show "getPhysicalAddress s' v = getPhysicalAddress s v" by (rule tables_kept(3)[OF ok f k])
  have "extent s' a i = extent s a i" for a i using used by (auto simp: extent_def d)
  then show "frames_ok s' F" using fr wf' by (simp add: frames_ok_def live_ok_def d tables_kept(2)[OF ok f k])
qed

text \<open>A call of the heap.\<close>

lemma kernel_ok_heap_call:
  assumes ok: "kernel_ok s live F" and h: "heap_ok s bs live" "heap_ok s' bs' live'" "hdr_only (set bs \<union> set bs') s s'" "heap_only s s'"
  shows "kernel_ok s' live' F" "getPhysicalAddress s' v = getPhysicalAddress s v" "frame_of s x < page_count s \<Longrightarrow> ram s' x = ram s x"
proof -
  have f: "same_frames s s'" "heap s' = heap s" using heap_only_same[OF h(4)] by simp_all
  have v: "vm_ok s" "frames_ok s F" "heap_apart s" using ok by (simp_all add: kernel_ok_def)
  show m: "ram s' x = ram s x" if "frame_of s x < page_count s" for x
    using v(3) that hdr_only_heap[OF h(1-3) f(2), of x] by (fastforce simp: heap_apart_def)
  note k = frames_same[OF v(1,2) f(1) m]
  show "getPhysicalAddress s' v = getPhysicalAddress s v" by (rule k(3))
  have "heap_apart s'" using v(3) by (simp add: heap_apart_def f(2) same_framesD[OF f(1)])
  with k(1,2) h(2) show "kernel_ok s' live' F" unfolding kernel_ok_def by blast
qed

text \<open>A call that changes memory outside the heap only.\<close>

lemma kernel_ok_frames_call:
  assumes "kernel_ok s live F" and "\<And>x. page_count s \<le> frame_of s x \<Longrightarrow> m x = ram s x"
    and "vm_ok (s\<lparr>ram := m\<rparr>)" and "frames_ok (s\<lparr>ram := m\<rparr>) F'"
  shows "kernel_ok (s\<lparr>ram := m\<rparr>) live F'" and "unat x \<in> heap_range s \<Longrightarrow> m x = ram s x"
proof -
  have h: "m x = ram s x" if "unat x \<in> heap_range s" for x using assms(1,2) that by (simp add: kernel_ok_def heap_apart_def)
  then show "unat x \<in> heap_range s \<Longrightarrow> m x = ram s x" .
  obtain bs where "heap_ok s bs live" using assms(1) by (auto simp: kernel_ok_def)
  then have "heap_ok (s\<lparr>ram := m\<rparr>) bs live" by (rule heap_ok_outside) (rule h)
  moreover have "heap_apart (s\<lparr>ram := m\<rparr>)" using assms(1) by (simp add: kernel_ok_def heap_apart_def)
  ultimately show "kernel_ok (s\<lparr>ram := m\<rparr>) live F'" using assms(3,4) unfolding kernel_ok_def by blast
qed

text \<open>Changes of the bitmap that keep the page tables allocated.\<close>

lemma bitmap_change:
  assumes ok: "vm_ok s" and m: "\<And>x. bitmap_pages s \<le> frame_of s x \<Longrightarrow> m x = ram s x" and wf: "pmm_wf (s\<lparr>ram := m\<rparr>)"
    and used: "\<And>n. n < page_count s \<Longrightarrow> frame_va s n \<in> table_set s \<Longrightarrow> page_used s n \<Longrightarrow> page_used (s\<lparr>ram := m\<rparr>) n"
  shows "vm_ok (s\<lparr>ram := m\<rparr>)" "table_set (s\<lparr>ram := m\<rparr>) = table_set s"
    "getPhysicalAddress (s\<lparr>ram := m\<rparr>) v = getPhysicalAddress s v"
proof -
  have "bitmap_pages s \<le> n" if "frame_va s n \<in> table_set s" "n < page_count s" for n
    using table_frame[OF ok that(2,1)] by (simp add: owned_frame_def)
  then have k: "keeps_tables s (ram (s\<lparr>ram := m\<rparr>))" using m by (simp add: keeps_tables_def)
  show "vm_ok (s\<lparr>ram := m\<rparr>)" by (rule vm_ok_kept[OF ok same_frames_ram k wf]) (rule used)
  show "table_set (s\<lparr>ram := m\<rparr>) = table_set s" "getPhysicalAddress (s\<lparr>ram := m\<rparr>) v = getPhysicalAddress s v"
    by (rule tables_kept[OF ok same_frames_ram k])+
qed

lemma frames_okI:
  assumes "live_ok s F" and "\<And>a. a \<in> F \<Longrightarrow> \<exists>i. fst a = page_addr s i \<and> i < page_count s \<and> (\<forall>k \<in> {i ..< i + snd a}. frame_va s k \<notin> table_set s)"
  shows "frames_ok s F"
proof -
  have "frame_va s k \<notin> table_set s" if a: "a \<in> F" "extent s a j" "k \<in> {j ..< j + snd a}" for a j k
  proof -
    obtain i where i: "fst a = page_addr s i" "i < page_count s" "\<forall>k \<in> {i ..< i + snd a}. frame_va s k \<notin> table_set s"
      using assms(2)[OF a(1)] by blast
    have "i = j" using assms(1) i(1,2) a(2) page_addr_inj[of s i j] by (auto simp: live_ok_def extent_def)
    with i(3) a(3) show ?thesis by blast
  qed
  with assms(1) show ?thesis by (simp add: frames_ok_def)
qed

lemma frames_ok_tables:
  assumes "frames_ok s F" and "a \<in> F"
  shows "\<exists>i. fst a = page_addr s i \<and> i < page_count s \<and> (\<forall>k \<in> {i ..< i + snd a}. frame_va s k \<notin> table_set s)"
proof -
  obtain i where "extent s a i" using assms by (auto simp: frames_ok_def live_ok_def)
  with assms show ?thesis by (intro exI[of _ i]) (auto simp: frames_ok_def extent_def)
qed

lemma frames_ok_sub:
  assumes "frames_ok s F" and "table_set (s\<lparr>ram := m\<rparr>) = table_set s" and "live_ok (s\<lparr>ram := m\<rparr>) F'" and "F' \<subseteq> F"
  shows "frames_ok (s\<lparr>ram := m\<rparr>) F'"
  using frames_ok_tables[OF assms(1)] assms(2-4) by (intro frames_okI) auto

lemma alloc_call:
  assumes ok: "vm_ok s" and fr: "frames_ok s F" and sz: "0 < pages_of sz" and a: "pmm_alloc_page s sz = (p, s')"
  obtains m where "s' = s\<lparr>ram := m\<rparr>" "vm_ok s'" "frames_ok s' (if p = 0 then F else insert (p, pages_of sz) F)"
    "\<And>x. bitmap_pages s \<le> frame_of s x \<Longrightarrow> m x = ram s x" "\<And>v. getPhysicalAddress s' v = getPhysicalAddress s v"
proof (rule pmm_alloc_first_fit[OF sz, of s])
  have wf: "pmm_wf s" by (rule vm_ok_pmm[OF ok])
  let ?n = "pages_of sz"
  fix i
  let ?m = "bitmap_set_range (ram s) (bitmap s) i (i + ?n)"
  assume ff: "first_fit (free_pages s ?n) 0 (Some i)" and "pmm_alloc_page s sz = (page_addr s i, s\<lparr>ram := ?m\<rparr>)"
  with a have e: "p = page_addr s i" "s' = s\<lparr>ram := ?m\<rparr>" by simp_all
  have lim: "i + ?n \<le> page_count s" and free: "\<And>k. k \<in> {i ..< i + ?n} \<Longrightarrow> \<not> page_used s k"
    using ff by (auto simp: first_fit_Some free_pages_def)
  have keep: "?m x = ram s x" if "bitmap_pages s \<le> frame_of s x" for x by (rule bitmap_set_frame[OF that lim])
  have p0: "p \<noteq> 0" unfolding e(1) using page_addr_nonzero[OF wf _ free[of i]] lim sz by simp
  note b = bitmap_change[OF ok keep pmm_wf_set[OF wf lim]]
  have v: "vm_ok s'" "table_set s' = table_set s" "\<And>v. getPhysicalAddress s' v = getPhysicalAddress s v"
    unfolding e(2) by (rule b; simp add: page_used_after_set[OF wf _ lim])+
  have live: "live_ok s' (insert (p, ?n) F)" using fr p0 by (intro live_ok_alloc[OF _ sz a]) (simp_all add: frames_ok_def)
  have new: "frame_va s k \<notin> table_set s" if "k \<in> {i ..< i + ?n}" for k
    using table_frame[OF ok, of k] free[OF that] that lim by (auto simp: owned_frame_def)
  have "\<exists>j. fst (p, ?n) = page_addr s j \<and> j < page_count s \<and> (\<forall>k \<in> {j ..< j + snd (p, ?n)}. frame_va s k \<notin> table_set s)"
    using new sz lim by (intro exI[of _ i]) (simp add: e(1))
  then have "frames_ok s' (insert (p, ?n) F)"
    using frames_ok_tables[OF fr] v(2) by (intro frames_okI[OF live]) (auto simp: e(2))
  with that[OF e(2) v(1) _ keep v(3)] p0 show thesis by simp
next
  assume "pmm_alloc_page s sz = (0, s)"
  with a that[of "ram s"] ok fr show thesis by simp
qed

lemma free_call:
  assumes ok: "vm_ok s" and fr: "frames_ok s F" and a: "(p, n) \<in> F" and s': "s' = pmm_free s p (of_nat n)"
  obtains m where "s' = s\<lparr>ram := m\<rparr>" "vm_ok s'" "frames_ok s' (F - {(p, n)})"
    "\<And>x. bitmap_pages s \<le> frame_of s x \<Longrightarrow> m x = ram s x" "\<And>v. getPhysicalAddress s' v = getPhysicalAddress s v"
proof -
  have wf: "pmm_wf s" by (rule vm_ok_pmm[OF ok])
  obtain i where i: "extent s (p, n) i" using fr a by (auto simp: frames_ok_def live_ok_def)
  then have lim: "i + n \<le> page_count s" and pos: "0 < n" "bitmap_pages s \<le> i" and p: "p = page_addr s i" by (auto simp: extent_def)
  have "i \<noteq> 0" using pos lim bitmap_pages_pos[of s] by auto
  then have p0: "page_addr s i \<noteq> 0" using unat_page_addr[OF wf, of i] lim pos by auto
  let ?m = "bitmap_clear_range (ram s) (bitmap s) i (i + n)"
  have e: "s' = s\<lparr>ram := ?m\<rparr>" using pmm_free_at[OF wf lim pos(1) p0] p s' by simp
  have keep: "?m x = ram s x" if "bitmap_pages s \<le> frame_of s x" for x
  proof (rule bitmap_clear_range_frame)
    have "bitmap_pages s * 4096 \<le> unat (x - bitmap s)"
      using that unfolding frame_of_def by (meson div_times_less_eq_dividend mult_le_mono1 order_trans)
    with lim bitmap_region[of s] show "i + n \<le> 8 * unat (x - bitmap s)" by linarith
  qed
  have other: "k \<notin> {i ..< i + n}" if "frame_va s k \<in> table_set s" for k
    using fr a i that by (fastforce simp: frames_ok_def)
  note b = bitmap_change[OF ok keep pmm_wf_clear[OF wf lim pos(2)]]
  have v: "vm_ok s'" "table_set s' = table_set s" "\<And>v. getPhysicalAddress s' v = getPhysicalAddress s v"
    unfolding e by (rule b; use other in \<open>auto simp: page_used_after_clear[OF wf _ lim]\<close>)+
  have "live_ok s' (F - {(p, n)})" unfolding s' using fr a by (intro live_ok_free) (simp_all add: frames_ok_def)
  with v(2) have "frames_ok s' (F - {(p, n)})" unfolding e by (intro frames_ok_sub[OF fr]) auto
  with that[OF e v(1) _ keep v(3)] show thesis .
qed

lemma store_call:
  assumes ok: "vm_ok s" and fr: "frames_ok s F" and a: "(p, n) \<in> F" "d < n * 4096"
    and m: "m = (ram s)(hhdm s + p + of_nat d := b)"
  shows "vm_ok (s\<lparr>ram := m\<rparr>)" "frames_ok (s\<lparr>ram := m\<rparr>) F" "page_count s \<le> frame_of s x \<Longrightarrow> m x = ram s x"
    "getPhysicalAddress (s\<lparr>ram := m\<rparr>) v = getPhysicalAddress s v"
proof -
  note c = held_client[OF fr a]
  show "m x = ram s x" if "page_count s \<le> frame_of s x" using c(2) that by (auto simp: m)
  have k: "keeps_tables s (ram (s\<lparr>ram := m\<rparr>))" using c by (auto simp: keeps_tables_def client_byte_def m)
  have live: "live_ok (s\<lparr>ram := m\<rparr>) F" unfolding m using fr by (intro live_ok_write[OF _ a]) (simp add: frames_ok_def)
  have "page_used (s\<lparr>ram := m\<rparr>) k = page_used (s\<lparr>ram := ram s\<rparr>) k" if "k < page_count s" for k
    using c(1) by (intro page_used_cong[OF vm_ok_pmm[OF ok] that]) (auto simp: client_byte_def m)
  then show "vm_ok (s\<lparr>ram := m\<rparr>)"
    using live by (intro vm_ok_kept[OF ok same_frames_ram k]) (simp_all add: live_ok_def)
  show "frames_ok (s\<lparr>ram := m\<rparr>) F" by (rule frames_ok_sub[OF fr tables_kept(2)[OF ok same_frames_ram k] live]) simp
  show "getPhysicalAddress (s\<lparr>ram := m\<rparr>) v = getPhysicalAddress s v" by (rule tables_kept(3)[OF ok same_frames_ram k])
qed

lemma map_call:
  assumes ok: "vm_ok s" and fr: "frames_ok s F" and flags: "bit flags 0" and room: "tables_needed s (page_set virt num_pages) \<le> free_count s"
    and phys: "unat phys + unat num_pages * 4096 \<le> 2 ^ 40" and s': "s' = map_page s virt phys flags num_pages"
  obtains m where "s' = s\<lparr>ram := m\<rparr>" "vm_ok s'" "frames_ok s' F" "\<And>x. client_byte s x \<Longrightarrow> m x = ram s x"
proof -
  note f = map_page_sharp[OF ok flags room phys s']
  obtain m where m: "s' = s\<lparr>ram := m\<rparr>" using map_page_only_ram[of s virt phys flags num_pages] s' by blast
  have run: "page_used s' k \<and> frame_va s k \<notin> table_set s'" if a: "(p, n) \<in> F" and i: "extent s (p, n) i" and k: "k \<in> {i ..< i + n}" for p n i k
  proof -
    have d: "(k - i) * 4096 < n * 4096" using k by auto
    have "frame_of s (hhdm s + p + of_nat ((k - i) * 4096)) = k"
      using held_frame[OF vm_ok_pmm[OF ok] i d] k by simp
    with f(5)[OF held_client(1)[OF fr a d]] held_client(2)[OF fr a d] show ?thesis by (simp add: client_byte_def m)
  qed
  have each: "\<exists>i. extent s' a i \<and> (\<forall>k \<in> {i ..< i + snd a}. frame_va s' k \<notin> table_set s')" if a: "a \<in> F" for a
  proof -
    obtain p n where pn: "a = (p, n)" by fastforce
    obtain i where i: "extent s (p, n) i" using fr a pn by (auto simp: frames_ok_def live_ok_def)
    with run[OF a[unfolded pn] i] show ?thesis by (intro exI[of _ i]) (auto simp: extent_def m pn)
  qed
  have "live_ok s' F" using fr vm_ok_pmm[OF f(1)] each unfolding frames_ok_def live_ok_def by blast
  moreover have "\<exists>i. fst a = page_addr s' i \<and> i < page_count s' \<and> (\<forall>k \<in> {i ..< i + snd a}. frame_va s' k \<notin> table_set s')" if a: "a \<in> F" for a
    using each[OF a] by (elim ex_forward) (auto simp: extent_def)
  ultimately have "frames_ok s' F" by (rule frames_okI)
  with that[OF m f(1)] f(5) show thesis by (simp add: m)
qed

section \<open>Every history of the kernel's memory\<close>

text \<open>
  The state in which \<open>kmain\<close> has set up memory: \<open>init_PMM\<close>, \<open>initPML4\<close>, \<open>test_pmm\<close> and \<open>kmem_init\<close>. From there on the calls of the heap and of
  the page allocator, the mapping of pages and the stores of clients into memory they hold happen in any order.
\<close>

definition boot_memory :: "limine_memmap_entry list \<Rightarrow> kernel_image \<Rightarrow> 'a vmm_scheme \<Rightarrow> 'a vmm_scheme option" where
  "boot_memory memmap img s = map_option (\<lambda>s. kmem_init (test_pmm (initPML4 memmap img s))) (init_PMM memmap s)"

text \<open>
  What the boot loader has to provide: a memory map inside the address space whose largest usable region is page aligned and below
  \<open>2 ^ 40\<close>, and enough free pages for the tables. The heap is outside the direct map of that region.
\<close>

definition boot_ok :: "limine_memmap_entry list \<Rightarrow> kernel_image \<Rightarrow> 'a vmm_scheme \<Rightarrow> bool" where
  "boot_ok memmap img s \<longleftrightarrow>
     map_in_range memmap s \<and> unat (hhdm s) mod 4096 = 0 \<and> (\<forall>e \<in> set memmap. entry_fits e) \<and> image_fits img s \<and>
     (\<exists>s1. init_PMM memmap s = Some s1 \<and> unat (physical_base s1) mod 4096 = 0 \<and> unat (physical_base s1) + page_count s1 * 4096 \<le> 2 ^ 40 \<and>
        card (boot_tables memmap img (hhdm s1)) + 1 \<le> free_count s1 \<and> heap_apart s1) \<and>
     heap s \<noteq> 0 \<and> unat (heap s) + 0x1000000 < 2 ^ 64"

lemma test_pmm_keeps:
  assumes ok: "vm_ok s"
  shows "vm_ok (test_pmm s)" "\<exists>m. test_pmm s = s\<lparr>ram := m\<rparr>"
proof -
  have fr: "frames_ok s {}" using vm_ok_pmm[OF ok] by (simp add: frames_ok_def live_ok_def separate_def)
  have p100: "0 < pages_of 100" and p1: "0 < pages_of 1" by (simp_all add: pages_of_def)
  obtain a s1 where a: "pmm_alloc_page s 1 = (a, s1)" by fastforce
  obtain b s2 where b: "pmm_alloc_page s1 100 = (b, s2)" by fastforce
  let ?s3 = "pmm_free s2 a 1"
  obtain c s4 where c: "pmm_alloc_page ?s3 100 = (c, s4)" by fastforce
  let ?F1 = "if a = 0 then {} else insert (a, pages_of 1) {}"
  let ?F2 = "if b = 0 then ?F1 else insert (b, pages_of 100) ?F1"
  obtain m1 where s1: "s1 = s\<lparr>ram := m1\<rparr>" "vm_ok s1" "frames_ok s1 ?F1"
    by (rule alloc_call[OF ok fr p1 a])
  obtain m2 where s2: "s2 = s1\<lparr>ram := m2\<rparr>" "vm_ok s2" "frames_ok s2 ?F2"
    by (rule alloc_call[OF s1(2,3) p100 b])
  have "\<exists>m3 F. ?s3 = s2\<lparr>ram := m3\<rparr> \<and> vm_ok ?s3 \<and> frames_ok ?s3 F"
  proof (cases "a = 0")
    case True
    then have "?s3 = s2" by (simp add: pmm_free_def)
    then show ?thesis using s2(2,3) by (intro exI[of _ "ram s2"] exI[of _ ?F2]) simp
  next
    case False
    then have "(a, 1) \<in> ?F2" by (simp add: pages_of_1)
    then obtain m3 where "?s3 = s2\<lparr>ram := m3\<rparr>" "vm_ok ?s3" "frames_ok ?s3 (?F2 - {(a, 1)})"
      by (rule free_call[OF s2(2,3)]) simp
    then show ?thesis by blast
  qed
  then obtain m3 F where s3: "?s3 = s2\<lparr>ram := m3\<rparr>" "vm_ok ?s3" "frames_ok ?s3 F" by blast
  obtain m4 where s4: "s4 = ?s3\<lparr>ram := m4\<rparr>" "vm_ok s4" by (rule alloc_call[OF s3(2,3) p100 c])
  have e: "test_pmm s = s4" by (simp add: test_pmm_def a b c)
  show "vm_ok (test_pmm s)" using s4(2) e by simp
  have "s4 = s\<lparr>ram := m4\<rparr>" using s4(1) s3(1) by (simp add: s2(1) s1(1))
  then show "\<exists>m. test_pmm s = s\<lparr>ram := m\<rparr>" unfolding e by blast
qed

lemma boot_memory_ok:
  assumes "boot_ok memmap img s"
  shows "\<exists>s' s1. boot_memory memmap img s = Some s' \<and> kernel_ok s' Map.empty {} \<and> init_PMM memmap s = Some s1 \<and>
    frame_of s' = frame_of s1 \<and> page_count s' = page_count s1 \<and> heap s' = heap s \<and> endp s' = heap s + 0x1000000"
proof -
  obtain s1 where s1: "init_PMM memmap s = Some s1" "unat (physical_base s1) mod 4096 = 0" "unat (physical_base s1) + page_count s1 * 4096 \<le> 2 ^ 40"
      "card (boot_tables memmap img (hhdm s1)) + 1 \<le> free_count s1" "heap_apart s1"
    and b: "map_in_range memmap s" "unat (hhdm s) mod 4096 = 0" "\<forall>e \<in> set memmap. entry_fits e" "image_fits img s"
      "heap s \<noteq> 0" "unat (heap s) + 0x1000000 < 2 ^ 64"
    using assms by (auto simp: boot_ok_def)
  have f: "hhdm s1 = hhdm s" "heap s1 = heap s" "image_fits img s1"
    using s1(1) b(4) by (auto simp: init_PMM_def Let_def image_fits_def split: option.splits)
  let ?s2 = "initPML4 memmap img s1"
  have "unat (hhdm s1) mod 4096 = 0" using b(2) f(1) by simp
  note p = initPML4_facts[OF init_PMM_wf[OF b(1) s1(1)] s1(2,3) this b(3) f(3) s1(4) refl]
  obtain m t c where s2: "?s2 = s1\<lparr>ram := m, PML4 := t, cr3 := c\<rparr>" using p(3) by blast
  obtain m3 where s3: "test_pmm ?s2 = ?s2\<lparr>ram := m3\<rparr>" "vm_ok (test_pmm ?s2)" using test_pmm_keeps[OF p(1)] by blast
  let ?s' = "kmem_init (test_pmm ?s2)"
  have s3': "test_pmm ?s2 = s1\<lparr>ram := m3, PML4 := t, cr3 := c\<rparr>" by (subst s3(1)) (simp add: s2)
  have h: "heap (test_pmm ?s2) = heap s" by (simp add: s3' f)
  have fr: "frames_ok (test_pmm ?s2) {}" using vm_ok_pmm[OF s3(2)] by (simp add: frames_ok_def live_ok_def separate_def)
  have "same_frames (test_pmm ?s2) ?s'" by (simp add: same_frames_def kmem_init_def)
  from frames_same[OF s3(2) fr this] have "vm_ok ?s'" "frames_ok ?s' {}" by (simp_all add: kmem_init_def)
  moreover have "heap_ok ?s' [] Map.empty" using b(5,6) h by (intro heap_ok_init) simp_all
  moreover have "heap_apart ?s'" using s1(5) by (simp add: s3' heap_apart_def frame_of_def kmem_init_def)
  moreover have "frame_of ?s' = frame_of s1" "page_count ?s' = page_count s1" "heap ?s' = heap s" "endp ?s' = heap s + 0x1000000"
    by (simp_all add: s3' f frame_of_def kmem_init_def fun_eq_iff)
  ultimately show ?thesis using s1(1) unfolding kernel_ok_def boot_memory_def by auto
qed

inductive kernel_run :: "'a vmm_scheme \<Rightarrow> (u64 \<rightharpoonup> nat) \<Rightarrow> (u64 \<times> nat) set \<Rightarrow> bool" where
  boot: "boot_ok memmap img s \<Longrightarrow> boot_memory memmap img s = Some s' \<Longrightarrow> kernel_run s' Map.empty {}"
| heap_alloc: "kernel_run s live F \<Longrightarrow> unat (endp s) + 44 + unat sz < 2 ^ 64 \<Longrightarrow> kmalloc sz s = Some (p, s') \<Longrightarrow>
    kernel_run s' (if p = 0 then live else live(p \<mapsto> unat sz)) F"
| heap_free: "kernel_run s live F \<Longrightarrow> p \<in> dom live \<Longrightarrow> kfree p s = Some s' \<Longrightarrow> kernel_run s' (live(p := None)) F"
| heap_store: "kernel_run s live F \<Longrightarrow> live p = Some n \<Longrightarrow> d < n \<Longrightarrow> kernel_run (s\<lparr>ram := (ram s)(p + of_nat d := v)\<rparr>) live F"
| page_alloc: "kernel_run s live F \<Longrightarrow> 0 < pages_of sz \<Longrightarrow> pmm_alloc_page s sz = (p, s') \<Longrightarrow>
    kernel_run s' live (if p = 0 then F else insert (p, pages_of sz) F)"
| page_free: "kernel_run s live F \<Longrightarrow> (p, n) \<in> F \<Longrightarrow> kernel_run (pmm_free s p (of_nat n)) live (F - {(p, n)})"
| page_store: "kernel_run s live F \<Longrightarrow> (p, n) \<in> F \<Longrightarrow> d < n * 4096 \<Longrightarrow>
    kernel_run (s\<lparr>ram := (ram s)(hhdm s + p + of_nat d := v)\<rparr>) live F"
| map: "kernel_run s live F \<Longrightarrow> bit flags 0 \<Longrightarrow> tables_needed s (page_set virt n) \<le> free_count s \<Longrightarrow> unat phys + unat n * 4096 \<le> 2 ^ 40 \<Longrightarrow>
    kernel_run (map_page s virt phys flags n) live F"

lemma live_byte_in_heap:
  assumes "heap_ok s bs live" and "live p = Some n" and "d < n"
  shows "unat (p + of_nat d) \<in> heap_range s"
proof -
  have top: "unat p + n \<le> unat (brk s)" by (rule live_below_brk[OF assms(1,2)])
  then have "unat (of_nat d :: u64) = d" using assms(3) unat_lt64[of "brk s"] by (intro unat_of_nat_small) simp
  then have "unat (p + of_nat d) = unat p + d" using assms(3) top unat_lt64[of "brk s"] by (simp add: unat_add_nowrap)
  with live_in_heap[OF assms(1,2)] assms(3) show ?thesis by (auto simp: data_range_def)
qed

text \<open>What one call does in a state that satisfies the invariant, for each kind of call.\<close>

lemma kernel_kmalloc:
  assumes ok: "kernel_ok s live F" and fit: "unat (endp s) + 44 + unat sz < 2 ^ 64" and m: "kmalloc sz s = Some (p, s')"
  shows "kernel_ok s' (if p = 0 then live else live(p \<mapsto> unat sz)) F" "getPhysicalAddress s' v = getPhysicalAddress s v"
    "frame_of s x < page_count s \<Longrightarrow> ram s' x = ram s x"
proof -
  obtain bs where h: "heap_ok s bs live" using ok by (auto simp: kernel_ok_def)
  from kmalloc_ok[OF h fit] m consider "p = 0" "s' = s"
    | bs' where "p \<noteq> 0" "heap_ok s' bs' (live(p \<mapsto> unat sz))" "hdr_only (set bs \<union> set bs') s s'" by auto
  then have "kernel_ok s' (if p = 0 then live else live(p \<mapsto> unat sz)) F \<and> getPhysicalAddress s' v = getPhysicalAddress s v \<and>
      (frame_of s x < page_count s \<longrightarrow> ram s' x = ram s x)"
  proof cases
    case 2
    with kernel_ok_heap_call[OF ok h 2(2,3) kmalloc_only[OF m]] show ?thesis by simp
  qed (use ok in simp)
  then show "kernel_ok s' (if p = 0 then live else live(p \<mapsto> unat sz)) F" "getPhysicalAddress s' v = getPhysicalAddress s v"
    "frame_of s x < page_count s \<Longrightarrow> ram s' x = ram s x" by simp_all
qed

lemma kernel_kfree:
  assumes ok: "kernel_ok s live F" and p: "p \<in> dom live" and m: "kfree p s = Some s'"
  shows "kernel_ok s' (live(p := None)) F" "getPhysicalAddress s' v = getPhysicalAddress s v"
    "frame_of s x < page_count s \<Longrightarrow> ram s' x = ram s x"
proof -
  obtain bs n where h: "heap_ok s bs live" "live p = Some n" using ok p by (auto simp: kernel_ok_def)
  from kfree_ok[OF h] m obtain bs' where h': "heap_ok s' bs' (live(p := None))" "hdr_only (set bs) s s'" by auto
  have "hdr_only (set bs \<union> set bs') s s'" by (rule hdr_only_mono[OF h'(2)]) simp
  note k = kernel_ok_heap_call[OF ok h(1) h'(1) this kfree_only[OF m]]
  show "kernel_ok s' (live(p := None)) F" "getPhysicalAddress s' v = getPhysicalAddress s v"
    "frame_of s x < page_count s \<Longrightarrow> ram s' x = ram s x" by (rule k; assumption)+
qed

lemma kernel_heap_store:
  assumes ok: "kernel_ok s live F" and l: "live p = Some n" "d < n"
  shows "kernel_ok (s\<lparr>ram := (ram s)(p + of_nat d := v)\<rparr>) live F"
proof -
  let ?s = "s\<lparr>ram := (ram s)(p + of_nat d := v)\<rparr>"
  obtain bs where h: "heap_ok s bs live" using ok by (auto simp: kernel_ok_def)
  have k: "vm_ok s" "frames_ok s F" "heap_apart s" using ok by (simp_all add: kernel_ok_def)
  have "ram ?s x = ram s x" if "frame_of s x < page_count s" for x
    using k(3) live_byte_in_heap[OF h l] that by (fastforce simp: heap_apart_def)
  from frames_same[OF k(1,2) same_frames_ram this] have "vm_ok ?s" "frames_ok ?s F" by simp_all
  with heap_ok_store[OF h l, of v] k(3) show ?thesis by (auto simp: kernel_ok_def heap_apart_def)
qed

text \<open>The bytes that somebody relies on: those of the heap and those of the pages that clients hold.\<close>

definition held_byte :: "'a vmm_scheme \<Rightarrow> (u64 \<times> nat) set \<Rightarrow> u64 \<Rightarrow> bool" where
  "held_byte s F x \<longleftrightarrow> unat x \<in> heap_range s \<or> (\<exists>(p, n) \<in> F. \<exists>d < n * 4096. x = hhdm s + p + of_nat d)"

lemma held_byte_client:
  assumes ok: "kernel_ok s live F" and x: "held_byte s F x"
  shows "client_byte s x" "bitmap_pages s \<le> frame_of s x"
proof -
  show c: "client_byte s x"
    using x unfolding held_byte_def
  proof (elim disjE)
    assume "unat x \<in> heap_range s"
    then have "page_count s \<le> frame_of s x" using ok by (simp add: kernel_ok_def heap_apart_def)
    then show ?thesis using bitmap_pages_le[of s] by (simp add: client_byte_def)
  qed (use ok held_client in \<open>auto simp: kernel_ok_def\<close>)
  then show "bitmap_pages s \<le> frame_of s x" by (simp add: client_byte_def)
qed

lemma kernel_page_alloc:
  assumes ok: "kernel_ok s live F" and sz: "0 < pages_of sz" and a: "pmm_alloc_page s sz = (p, s')"
  shows "kernel_ok s' live (if p = 0 then F else insert (p, pages_of sz) F)" "getPhysicalAddress s' v = getPhysicalAddress s v"
    "held_byte s F x \<Longrightarrow> ram s' x = ram s x"
proof -
  have k: "vm_ok s" "frames_ok s F" using ok by (simp_all add: kernel_ok_def)
  obtain m where m: "s' = s\<lparr>ram := m\<rparr>" "vm_ok s'" "frames_ok s' (if p = 0 then F else insert (p, pages_of sz) F)"
    "\<And>x. bitmap_pages s \<le> frame_of s x \<Longrightarrow> m x = ram s x" "\<And>v. getPhysicalAddress s' v = getPhysicalAddress s v"
    by (rule alloc_call[OF k sz a]) blast
  have "m x = ram s x" if "page_count s \<le> frame_of s x" for x using m(4) that bitmap_pages_le[of s] by simp
  from kernel_ok_frames_call(1)[OF ok this m(2,3)[unfolded m(1)]] m(1) show "kernel_ok s' live (if p = 0 then F else insert (p, pages_of sz) F)"
    by simp
  show "getPhysicalAddress s' v = getPhysicalAddress s v" by (rule m(5))
  show "ram s' x = ram s x" if "held_byte s F x" using m(4)[OF held_byte_client(2)[OF ok that]] by (simp add: m(1))
qed

lemma kernel_page_free:
  assumes ok: "kernel_ok s live F" and a: "(p, n) \<in> F" and s': "s' = pmm_free s p (of_nat n)"
  shows "kernel_ok s' live (F - {(p, n)})" "getPhysicalAddress s' v = getPhysicalAddress s v" "held_byte s F x \<Longrightarrow> ram s' x = ram s x"
proof -
  have k: "vm_ok s" "frames_ok s F" using ok by (simp_all add: kernel_ok_def)
  obtain m where m: "s' = s\<lparr>ram := m\<rparr>" "vm_ok s'" "frames_ok s' (F - {(p, n)})"
    "\<And>x. bitmap_pages s \<le> frame_of s x \<Longrightarrow> m x = ram s x" "\<And>v. getPhysicalAddress s' v = getPhysicalAddress s v"
    by (rule free_call[OF k a s']) blast
  have "m x = ram s x" if "page_count s \<le> frame_of s x" for x using m(4) that bitmap_pages_le[of s] by simp
  from kernel_ok_frames_call(1)[OF ok this m(2,3)[unfolded m(1)]] m(1) show "kernel_ok s' live (F - {(p, n)})" by simp
  show "getPhysicalAddress s' v = getPhysicalAddress s v" by (rule m(5))
  show "ram s' x = ram s x" if "held_byte s F x" using m(4)[OF held_byte_client(2)[OF ok that]] by (simp add: m(1))
qed

lemma kernel_page_store:
  assumes ok: "kernel_ok s live F" and a: "(p, n) \<in> F" "d < n * 4096"
  shows "kernel_ok (s\<lparr>ram := (ram s)(hhdm s + p + of_nat d := b)\<rparr>) live F"
proof -
  have k: "vm_ok s" "frames_ok s F" using ok by (simp_all add: kernel_ok_def)
  show ?thesis by (rule kernel_ok_frames_call(1)[OF ok]) (rule store_call[OF k a refl]; assumption)+
qed

lemma kernel_map:
  assumes ok: "kernel_ok s live F" and f: "bit flags 0" "tables_needed s (page_set virt n) \<le> free_count s" "unat phys + unat n * 4096 \<le> 2 ^ 40"
    and s': "s' = map_page s virt phys flags n"
  shows "kernel_ok s' live F" "held_byte s F x \<Longrightarrow> ram s' x = ram s x"
proof -
  have k: "vm_ok s" "frames_ok s F" using ok by (simp_all add: kernel_ok_def)
  obtain m where m: "s' = s\<lparr>ram := m\<rparr>" "vm_ok s'" "frames_ok s' F" "\<And>x. client_byte s x \<Longrightarrow> m x = ram s x"
    by (rule map_call[OF k f s']) blast
  have "m x = ram s x" if "page_count s \<le> frame_of s x" for x
    using m(4)[of x] that bitmap_pages_le[of s] by (simp add: client_byte_def)
  from kernel_ok_frames_call(1)[OF ok this m(2,3)[unfolded m(1)]] m(1) show "kernel_ok s' live F" by simp
  show "ram s' x = ram s x" if "held_byte s F x" using m(4)[OF held_byte_client(1)[OF ok that]] by (simp add: m(1))
qed

lemma kernel_run_ok: "kernel_run s live F \<Longrightarrow> kernel_ok s live F"
proof (induction rule: kernel_run.induct)
  case (boot memmap img s s')
  then show ?case using boot_memory_ok by fastforce
next
  case (heap_alloc s live F sz p s')
  then show ?case using kernel_kmalloc(1) by blast
next
  case (heap_free s live F p s')
  then show ?case using kernel_kfree(1) by blast
next
  case (map s live F flags virt n phys)
  then show ?case using kernel_map(1) by blast
qed (blast intro: kernel_heap_store kernel_page_alloc(1) kernel_page_free(1)[OF _ _ refl] kernel_page_store)+

end
