(* ===== verification/Spinlock.thy ===== *)
theory Spinlock
  imports Prelude
begin

text \<open>
  The spinlock of \<^verbatim>\<open>processor/spinlock.c\<close>. A lock is its \<open>atomic_flag\<close>. The acquire loop as
  one context runs it is a partial function: spinning on a lock that nobody else will release does not
  return. The interleaving of several contexts is a step relation in which each test-and-set and each
  clear is one atomic step.
\<close>

section \<open>The routines\<close>

type_synonym spinlock = bool

definition atomic_flag_test_and_set :: "spinlock \<Rightarrow> bool \<times> spinlock" where
  "atomic_flag_test_and_set flag = (flag, True)"

partial_function (option) spinlock_aquire :: "spinlock \<Rightarrow> spinlock option" where
  "spinlock_aquire flag =
     (case atomic_flag_test_and_set flag of (old, flag') \<Rightarrow> if old then spinlock_aquire flag' else Some flag')"

definition spinlock_release :: "spinlock \<Rightarrow> spinlock" where
  "spinlock_release flag = False"

lemma spinlock_aquire_free [simp]: "spinlock_aquire False = Some True"
  by (subst spinlock_aquire.simps) (simp add: atomic_flag_test_and_set_def)

lemma spinlock_aquire_held [simp]: "spinlock_aquire True = None"
proof -
  have "\<not> flag" if "spinlock_aquire flag = Some r" for flag r
    by (rule spinlock_aquire.raw_induct[where P = "\<lambda>flag _. \<not> flag", OF _ that])
      (auto simp: atomic_flag_test_and_set_def split: if_splits)
  then show ?thesis by (cases "spinlock_aquire True") auto
qed

text \<open>
  C18. Taking a spinlock returns exactly when it is free, and then the lock is held; a context that takes a
  lock it holds already never returns; and a release makes the next acquire return.
\<close>

theorem spinlock_aquire_iff:
  "spinlock_aquire flag = (if flag then None else Some True) \<and> spinlock_aquire (spinlock_release flag) = Some True"
  by (cases flag) (simp_all add: spinlock_release_def)

section \<open>Interleaving\<close>

text \<open>\<open>Outside\<close>: not using the lock; \<open>Spinning\<close>: inside \<open>spinlock_aquire\<close>; \<open>Critical\<close>: between the return of
  \<open>spinlock_aquire\<close> and the call of \<open>spinlock_release\<close>.\<close>

datatype pc = Outside | Spinning | Critical

inductive lock_step :: "spinlock \<times> (nat \<Rightarrow> pc) \<Rightarrow> spinlock \<times> (nat \<Rightarrow> pc) \<Rightarrow> bool" where
  call: "pcs t = Outside \<Longrightarrow> lock_step (flag, pcs) (flag, pcs(t := Spinning))"
| spin: "pcs t = Spinning \<Longrightarrow> atomic_flag_test_and_set flag = (True, flag') \<Longrightarrow> lock_step (flag, pcs) (flag', pcs)"
| enter: "pcs t = Spinning \<Longrightarrow> atomic_flag_test_and_set flag = (False, flag') \<Longrightarrow>
    lock_step (flag, pcs) (flag', pcs(t := Critical))"
| release: "pcs t = Critical \<Longrightarrow> lock_step (flag, pcs) (spinlock_release flag, pcs(t := Outside))"

inductive_cases lock_stepE: "lock_step (flag, pcs) (flag', pcs')"

definition lock_inv :: "spinlock \<times> (nat \<Rightarrow> pc) \<Rightarrow> bool" where
  "lock_inv s \<longleftrightarrow> (\<forall>t u. snd s t = Critical \<longrightarrow> snd s u = Critical \<longrightarrow> t = u) \<and> (fst s \<longleftrightarrow> (\<exists>t. snd s t = Critical))"

lemma lock_inv_step: "lock_step s s' \<Longrightarrow> lock_inv s \<Longrightarrow> lock_inv s'"
proof (induction rule: lock_step.induct)
  case (call pcs t flag)
  then have "(pcs(t := Spinning)) u = Critical \<longleftrightarrow> pcs u = Critical" for u by auto
  with call show ?case by (simp add: lock_inv_def)
next
  case (release pcs t flag)
  then show ?case by (auto simp: lock_inv_def spinlock_release_def)
qed (auto simp: lock_inv_def atomic_flag_test_and_set_def)

lemma lock_inv_reachable: "lock_step\<^sup>*\<^sup>* (False, \<lambda>_. Outside) s \<Longrightarrow> lock_inv s"
proof (induction rule: rtranclp_induct)
  case (step s s')
  from lock_inv_step[OF step.hyps(2) step.IH] show ?case .
qed (simp add: lock_inv_def)

text \<open>
  C19. In every interleaving of any number of contexts at most one is between acquire and release; and
  whenever the lock is held its holder can release it, after which a spinning context can enter.
\<close>

theorem spinlock_mutual_exclusion:
  assumes "lock_step\<^sup>*\<^sup>* (False, \<lambda>_. Outside) (flag, pcs)"
  shows "(pcs t = Critical \<and> pcs u = Critical \<longrightarrow> t = u) \<and>
    (pcs u = Spinning \<longrightarrow> (\<exists>s'. lock_step\<^sup>*\<^sup>* (flag, pcs) s' \<and> snd s' u = Critical))"
proof -
  have inv: "lock_inv (flag, pcs)" by (rule lock_inv_reachable[OF assms])
  have "\<exists>s'. lock_step\<^sup>*\<^sup>* (flag, pcs) s' \<and> snd s' u = Critical" if u: "pcs u = Spinning"
  proof (cases flag)
    case False
    then have "lock_step (flag, pcs) (True, pcs(u := Critical))"
      using u by (intro lock_step.enter) (simp_all add: atomic_flag_test_and_set_def)
    then show ?thesis by (intro exI[of _ "(True, pcs(u := Critical))"]) auto
  next
    case True
    with inv obtain t where t: "pcs t = Critical" by (auto simp: lock_inv_def)
    let ?p = "pcs(t := Outside)"
    have "lock_step (flag, pcs) (False, ?p)" using lock_step.release[of pcs t flag] t by (simp add: spinlock_release_def)
    moreover have "lock_step (False, ?p) (True, ?p(u := Critical))"
      using u t by (intro lock_step.enter) (auto simp: atomic_flag_test_and_set_def)
    ultimately show ?thesis by (intro exI[of _ "(True, ?p(u := Critical))"]) auto
  qed
  with inv show ?thesis by (auto simp: lock_inv_def)
qed

theorem spinlock_mutual_exclusion_witness:
  "\<exists>s'. lock_step\<^sup>*\<^sup>* (True, (\<lambda>_. Outside)(0 := Critical, 1 := Spinning)) s' \<and> snd s' 1 = Critical"
proof -
  let ?o = "\<lambda>_. Outside" and ?s = "(\<lambda>_. Outside)(0 := Spinning)" and ?c = "(\<lambda>_. Outside)(0 := Critical)"
  have "lock_step (False, ?o) (False, ?s)" by (rule lock_step.call) simp
  moreover have "lock_step (False, ?s) (True, ?s(0 := Critical))"
    by (rule lock_step.enter) (simp_all add: atomic_flag_test_and_set_def)
  moreover have "lock_step (True, ?c) (True, ?c(1 := Spinning))" by (rule lock_step.call) simp
  ultimately have "lock_step\<^sup>*\<^sup>* (False, ?o) (True, ?c(1 := Spinning))" by (simp add: rtranclp.rtrancl_into_rtrancl)
  from spinlock_mutual_exclusion[OF this, of 0 1] show ?thesis by simp
qed

end
