(* ===== verification/Printf.thy ===== *)
theory Printf
  imports Spinlock "HOL-Library.Monad_Syntax"
begin

text \<open>
  The console output of \<^verbatim>\<open>stdio/printf.c\<close> and \<^verbatim>\<open>stdio/klog.c\<close>. The terminal is the
  sequence of characters handed to \<open>flanterm_write\<close>. A C string is the list of its characters before the
  terminator; a step that would read behind the terminator, write behind the end of a local buffer, overflow
  the \<open>int\<close> counter or fetch an argument that is not there has no defined result and is \<open>None\<close>.
\<close>

section \<open>Local buffers\<close>

definition put :: "string \<Rightarrow> nat \<Rightarrow> char \<Rightarrow> string option" where
  "put buf i c = (if i < length buf then Some (buf[i := c]) else None)"

definition digit :: "nat \<Rightarrow> char" where
  "digit d = char_of (48 + d)"

definition hex_digit :: "nat \<Rightarrow> char" where
  "hex_digit d = (if d < 10 then digit d else char_of (97 + d - 10))"

section \<open>Conversions of \<open>kprintf\<close>\<close>

function dec_loop :: "int \<Rightarrow> string \<Rightarrow> nat \<Rightarrow> (string \<times> nat) option" where
  "dec_loop tmp buf i =
     (if tmp > 0
      then case put buf i (digit (nat (tmp mod 10))) of
             None \<Rightarrow> None
           | Some buf' \<Rightarrow> dec_loop (tmp div 10) buf' (i + 1)
      else Some (buf, i))"
  by auto
termination by (relation "measure (\<lambda>(tmp, _, _). nat tmp)") auto
declare dec_loop.simps [simp del]

fun reverse_loop :: "string \<Rightarrow> nat \<Rightarrow> nat \<Rightarrow> string" where
  "reverse_loop buf start stop =
     (if start < stop
      then reverse_loop (buf[start := buf ! stop, stop := buf ! start]) (start + 1) (stop - 1)
      else buf)"
declare reverse_loop.simps [simp del]

text \<open>The negation of the least \<open>int\<close> wraps around to itself, as the instruction does.\<close>

definition print_d :: "u32 \<Rightarrow> string \<Rightarrow> (string \<times> nat) option" where
  "print_d num buf = do {
     (buf, i, num) \<leftarrow> (if sint num < 0 then do { buf \<leftarrow> put buf 0 (CHR ''-''); Some (buf, 1, - num) }
                      else if num = 0 then do { buf \<leftarrow> put buf 0 (CHR ''0''); Some (buf, 1, num) }
                      else Some (buf, 0, num));
     (buf, i) \<leftarrow> dec_loop (sint num) buf i;
     let start = (if buf ! 0 = CHR ''-'' then 1 else 0);
     Some (reverse_loop buf start (i - 1), i)
   }"

fun hex_loop :: "u32 \<Rightarrow> nat list \<Rightarrow> string \<Rightarrow> nat \<Rightarrow> bool \<Rightarrow> (string \<times> nat) option" where
  "hex_loop num [] buf i started = Some (buf, i)"
| "hex_loop num (shift # shifts) buf i started =
     (let nibble = unat (drop_bit shift num AND 0xF)
      in if nibble \<noteq> 0 \<or> started
         then case put buf i (hex_digit nibble) of
                None \<Rightarrow> None
              | Some buf' \<Rightarrow> hex_loop num shifts buf' (i + 1) True
         else hex_loop num shifts buf i started)"

definition print_x :: "u32 \<Rightarrow> string \<Rightarrow> (string \<times> nat) option" where
  "print_x num buf = do {
     buf \<leftarrow> put buf 0 (CHR ''0'');
     buf \<leftarrow> put buf 1 (CHR ''x'');
     if num = 0 then do { buf \<leftarrow> put buf 2 (CHR ''0''); Some (buf, 3) }
     else hex_loop num [28, 24, 20, 16, 12, 8, 4, 0] buf 2 False
   }"

section \<open>\<open>kprintf\<close>\<close>

datatype va_arg = Va_int u32 | Va_str string

abbreviation (input) INT_MAX :: int where "INT_MAX \<equiv> 2147483647"
abbreviation (input) ESC :: char where "ESC \<equiv> CHR 0x1B"

text \<open>The part of the state that the loop threads through: the buffer, the terminal and the count. Every call of
  \<open>flanterm_write\<close> goes with the same increment of \<open>written\<close>.\<close>

record printer =
  buf :: string
  out :: string
  written :: int

definition console_write :: "string \<Rightarrow> printer \<Rightarrow> printer option" where
  "console_write cs p =
     (if written p + int (length cs) \<le> INT_MAX
      then Some (p\<lparr>out := out p @ cs, written := written p + int (length cs)\<rparr>) else None)"

definition print_buf :: "(string \<Rightarrow> (string \<times> nat) option) \<Rightarrow> printer \<Rightarrow> printer option" where
  "print_buf conv p = do {
     (b, i) \<leftarrow> conv (buf p);
     console_write (take i b) (p\<lparr>buf := b\<rparr>)
   }"

definition is_escape :: "string \<Rightarrow> bool" where
  "is_escape fmt = (case fmt of a # b # _ \<Rightarrow> a = ESC \<and> b = CHR ''['' | _ \<Rightarrow> False)"

definition is_text :: "string \<Rightarrow> bool" where
  "is_text fmt = (case fmt of a # b # _ \<Rightarrow> a \<noteq> CHR ''%'' \<or> b = CHR ''%'' | a # _ \<Rightarrow> a \<noteq> CHR ''%'' | [] \<Rightarrow> False)"

text \<open>One conversion: the character behind \<open>%\<close> and the arguments decide what is printed.\<close>

fun convert :: "char \<Rightarrow> va_arg list \<Rightarrow> printer \<Rightarrow> (va_arg list \<times> printer) option" where
  "convert c args p =
     (if c = CHR ''c''
      then case args of Va_int n # args \<Rightarrow> map_option (Pair args) (console_write [char_of (unat n mod 256)] p) | _ \<Rightarrow> None
      else if c = CHR ''s''
      then case args of Va_str str # args \<Rightarrow> map_option (Pair args) (console_write str p) | _ \<Rightarrow> None
      else if c = CHR ''d''
      then case args of Va_int n # args \<Rightarrow> map_option (Pair args) (print_buf (print_d n) p) | _ \<Rightarrow> None
      else if c = CHR ''x''
      then case args of Va_int n # args \<Rightarrow> map_option (Pair args) (print_buf (print_x n) p) | _ \<Rightarrow> None
      else map_option (Pair args) (console_write ''%'' p))"

function kprintf_loop :: "string \<Rightarrow> va_arg list \<Rightarrow> printer \<Rightarrow> (printer \<times> int) option" where
  "kprintf_loop fmt args p =
     (if fmt = [] then Some (p, written p)
      else if is_escape fmt
      then let rest = drop 2 fmt;
               seq = takeWhile (\<lambda>c. c \<noteq> CHR ''m'') rest
           in if length seq < length rest
              then case console_write (take (length seq + 3) fmt) p of
                     None \<Rightarrow> None
                   | Some p \<Rightarrow> kprintf_loop (drop (length seq + 1) rest) args p
              else case console_write (take 2 fmt) p of
                     None \<Rightarrow> None
                   | Some p \<Rightarrow> if length rest < 2 then None else kprintf_loop (drop 2 rest) args p
      else if is_text fmt
      then let fmt' = (if hd fmt = CHR ''%'' then tl fmt else fmt);
               amount = 1 + length (takeWhile (\<lambda>c. c \<noteq> CHR ''%'') (tl fmt'))
           in if INT_MAX - written p < int amount then Some (p, -1)
              else case console_write (take amount fmt') p of
                     None \<Rightarrow> None
                   | Some p \<Rightarrow> kprintf_loop (drop amount fmt') args p
      else case tl fmt of
             [] \<Rightarrow> None
           | c # rest \<Rightarrow>
               (case convert c args p of
                  None \<Rightarrow> None
                | Some (args, p) \<Rightarrow> kprintf_loop rest args p))"
  by auto
termination
  by (relation "measure (\<lambda>(fmt, _, _). length fmt)")
    (auto simp: is_escape_def is_text_def neq_Nil_conv split: list.splits)
declare kprintf_loop.simps [simp del]

text \<open>\<open>b\<close> is what the 32 bytes of the local buffer hold before the call; \<open>term\<close> the terminal.\<close>

definition kprintf :: "string \<Rightarrow> string \<Rightarrow> va_arg list \<Rightarrow> string \<Rightarrow> (string \<times> int) option" where
  "kprintf b fmt args term =
     map_option (\<lambda>(p, r). (out p, r)) (kprintf_loop fmt args \<lparr>buf = b, out = term, written = 0\<rparr>)"

definition clear :: "string \<Rightarrow> string" where
  "clear term = term @ [ESC] @ ''[2J'' @ [ESC] @ ''[H''"

definition k_ok :: "string \<Rightarrow> string \<Rightarrow> string option" where
  "k_ok b term = map_option fst (kprintf b ('' '' @ [ESC] @ ''[1;32mOK!'' @ [ESC] @ ''[0m'' @ [CHR 0x0A]) [] term)"

definition k_fail :: "string \<Rightarrow> string \<Rightarrow> string option" where
  "k_fail b term = map_option fst (kprintf b ('' '' @ [ESC] @ ''[1;31mFAIL!'' @ [ESC] @ ''[0m'' @ [CHR 0x0A]) [] term)"

definition k_debug :: "string \<Rightarrow> string \<Rightarrow> spinlock \<Rightarrow> string \<Rightarrow> (spinlock \<times> string) option" where
  "k_debug b msg lock term = do {
     lock \<leftarrow> spinlock_aquire lock;
     (term, _) \<leftarrow> kprintf b ([ESC] @ ''[1;35mDEBUG!'' @ [ESC] @ ''[0m %s'') [Va_str msg] term;
     term \<leftarrow> k_ok b term;
     Some (spinlock_release lock, term)
   }"

section \<open>\<open>klog\<close>\<close>

datatype klog_level = KLOG_INFO | KLOG_WARN | KLOG_ERROR | KLOG_DEBUG

function fmt_digits :: "u64 \<Rightarrow> string \<Rightarrow> nat \<Rightarrow> (string \<times> nat) option" where
  "fmt_digits v tmp n =
     (case put tmp n (digit (unat (v mod 10))) of
        None \<Rightarrow> None
      | Some tmp' \<Rightarrow> if v div 10 > 0 then fmt_digits (v div 10) tmp' (n + 1) else Some (tmp', n + 1))"
  by auto
termination
proof (relation "measure (\<lambda>(v, _, _). unat v)")
  fix v :: u64 and tmp :: string and n tmp'
  assume "0 < v div 10"
  then have "0 < unat v" by (auto simp: word_less_nat_alt unat_div)
  then show "((v div 10, tmp', n + 1), v, tmp, n) \<in> measure (\<lambda>(v, _, _). unat v)" by (simp add: unat_div)
qed simp
declare fmt_digits.simps [simp del]

text \<open>The remaining writes go to ascending positions from 0: padding, the digits backwards, the terminator.\<close>

fun put_all :: "string \<Rightarrow> nat \<Rightarrow> string \<Rightarrow> string option" where
  "put_all b i [] = Some b"
| "put_all b i (c # cs) = do { b \<leftarrow> put b i c; put_all b (i + 1) cs }"

definition fmt_uint_padded :: "string \<Rightarrow> string \<Rightarrow> u64 \<Rightarrow> nat \<Rightarrow> char \<Rightarrow> string option" where
  "fmt_uint_padded tmp outb v width pad = do {
     (tmp, n) \<leftarrow> fmt_digits v tmp 0;
     put_all outb 0 (replicate (width - n) pad @ rev (take n tmp) @ [CHR 0x00])
   }"

definition level_label :: "klog_level \<Rightarrow> string" where
  "level_label level = (case level of
       KLOG_WARN \<Rightarrow> [ESC] @ ''[1;33mWARN '' @ [ESC] @ ''[0m''
     | KLOG_ERROR \<Rightarrow> [ESC] @ ''[1;31mERROR'' @ [ESC] @ ''[0m''
     | KLOG_DEBUG \<Rightarrow> [ESC] @ ''[1;35mDEBUG'' @ [ESC] @ ''[0m''
     | KLOG_INFO \<Rightarrow> [ESC] @ ''[1;36mINFO '' @ [ESC] @ ''[0m'')"

definition c_string :: "string \<Rightarrow> string" where
  "c_string b = takeWhile (\<lambda>c. c \<noteq> CHR 0x00) b"

text \<open>The uninitialised local arrays \<open>tmp\<close>, \<open>secbuf\<close>, \<open>msbuf\<close> and \<open>buf\<close> are arguments.\<close>

definition klog :: "string \<Rightarrow> string \<Rightarrow> string \<Rightarrow> string \<Rightarrow> u64 \<Rightarrow> klog_level \<Rightarrow> string \<Rightarrow> string \<Rightarrow> string option" where
  "klog tmp secbuf msbuf b ticks level subsystem term = do {
     let total_ms = ticks * 10;
     secbuf \<leftarrow> fmt_uint_padded tmp secbuf (total_ms div 1000) 5 (CHR '' '');
     msbuf \<leftarrow> fmt_uint_padded tmp msbuf (total_ms mod 1000) 3 (CHR ''0'');
     (term, _) \<leftarrow> kprintf b ([ESC] @ ''[1;34m[%s.%s]'' @ [ESC] @ ''[0m %s '' @ [ESC] @ ''[1m%s'' @ [ESC] @ ''[0m: '')
                   [Va_str (c_string secbuf), Va_str (c_string msbuf), Va_str (level_label level), Va_str subsystem] term;
     Some term
   }"

section \<open>Decimal and hexadecimal numerals\<close>

text \<open>The numerals themselves, and how a reader reads them back.\<close>

fun rev_digits :: "nat \<Rightarrow> string" where
  "rev_digits n = (if n = 0 then [] else digit (n mod 10) # rev_digits (n div 10))"
declare rev_digits.simps [simp del]

definition dec :: "nat \<Rightarrow> string" where
  "dec n = (if n = 0 then ''0'' else rev (rev_digits n))"

definition undec :: "string \<Rightarrow> nat" where
  "undec cs = foldl (\<lambda>v c. 10 * v + (of_char c - 48)) 0 cs"

definition hex_value :: "char \<Rightarrow> nat" where
  "hex_value c = (if of_char c < (97 :: nat) then of_char c - 48 else of_char c - 87)"

definition unhex :: "string \<Rightarrow> nat" where
  "unhex cs = foldl (\<lambda>v c. 16 * v + hex_value c) 0 cs"

lemma of_char_digit: "d < 10 \<Longrightarrow> of_char (digit d) = 48 + d"
  by (simp add: digit_def)

lemma digit_0: "digit 0 = CHR ''0''"
  by (simp add: digit_def char_of_def bit_Suc_0_iff)

lemma hex_value_digit: "d < 16 \<Longrightarrow> hex_value (hex_digit d) = d"
  by (simp add: hex_value_def hex_digit_def digit_def)

lemma undec_rev_digits: "undec (rev (rev_digits n)) = n"
proof (induction n rule: rev_digits.induct)
  case (1 n)
  show ?case
  proof (cases "n = 0")
    case False
    then have "rev (rev_digits n) = rev (rev_digits (n div 10)) @ [digit (n mod 10)]"
      by (subst rev_digits.simps) simp
    then have "undec (rev (rev_digits n)) = 10 * undec (rev (rev_digits (n div 10))) + n mod 10"
      by (simp add: undec_def of_char_digit)
    also have "\<dots> = n" using 1[OF False] by simp
    finally show ?thesis .
  qed (simp add: rev_digits.simps undec_def)
qed

lemma undec_dec: "undec (dec n) = n"
  by (simp add: dec_def undec_rev_digits) (simp add: undec_def)

lemma rev_digits_no_minus: "c \<in> set (rev_digits n) \<Longrightarrow> (48 :: nat) \<le> of_char c \<and> of_char c < (58 :: nat)"
proof (induction n rule: rev_digits.induct)
  case (1 n)
  have "48 \<le> (of_char (digit (n mod 10)) :: nat) \<and> of_char (digit (n mod 10)) < (58 :: nat)"
    by (simp add: of_char_digit)
  with 1 show ?case by (subst (asm) rev_digits.simps) (auto split: if_splits)
qed

lemma length_rev_digits: "n < 10 ^ k \<Longrightarrow> length (rev_digits n) \<le> k"
proof (induction k arbitrary: n)
  case (Suc k)
  then have "n div 10 < 10 ^ k" by (simp add: less_mult_imp_div_less)
  from Suc.IH[OF this] show ?case by (subst rev_digits.simps) simp
qed (simp add: rev_digits.simps)

section \<open>What the buffers hold\<close>

lemma put_append: "put (xs @ y # zs) (length xs) c = Some (xs @ c # zs)"
  by (simp add: put_def)

lemma dec_loop_eq:
  assumes "length zs = length (rev_digits n)"
  shows "dec_loop (int n) (xs @ zs @ ws) (length xs) = Some (xs @ rev_digits n @ ws, length xs + length (rev_digits n))"
  using assms
proof (induction n arbitrary: xs zs rule: rev_digits.induct)
  case (1 n)
  show ?case
  proof (cases "n = 0")
    case False
    then obtain z zs' where zs: "zs = z # zs'" "length zs' = length (rev_digits (n div 10))"
      using 1(2) by (subst (asm) rev_digits.simps) (auto simp: length_Suc_conv)
    have d: "nat (int n mod 10) = n mod 10" "int n div 10 = int (n div 10)" by (simp_all add: nat_mod_distrib zdiv_int)
    have "dec_loop (int n) (xs @ zs @ ws) (length xs) = dec_loop (int (n div 10)) ((xs @ [digit (n mod 10)]) @ zs' @ ws) (length (xs @ [digit (n mod 10)]))"
      using False zs by (subst dec_loop.simps) (simp add: put_append d)
    also have "\<dots> = Some ((xs @ [digit (n mod 10)]) @ rev_digits (n div 10) @ ws, length (xs @ [digit (n mod 10)]) + length (rev_digits (n div 10)))"
      by (rule 1(1)[OF False zs(2)])
    also have "\<dots> = Some (xs @ rev_digits n @ ws, length xs + length (rev_digits n))"
      using False by (subst (3 4) rev_digits.simps) simp
    finally show ?thesis .
  qed (use 1(2) in \<open>simp add: rev_digits.simps dec_loop.simps\<close>)
qed

lemma reverse_loop_eq:
  "ys \<noteq> [] \<Longrightarrow> reverse_loop (xs @ ys @ zs) (length xs) (length xs + length ys - 1) = xs @ rev ys @ zs"
proof (induction "length ys" arbitrary: xs ys zs rule: less_induct)
  case less
  show ?case
  proof (cases "length ys < 2")
    case True
    then obtain y where "ys = [y]" using less.prems by (cases ys) auto
    then show ?thesis by (simp add: reverse_loop.simps)
  next
    case False
    then obtain a ys' b where ys: "ys = a # ys' @ [b]"
      by (cases ys; cases "tl ys" rule: rev_exhaust) auto
    let ?e = "length xs + length ys - 1"
    have swap: "(xs @ ys @ zs)[length xs := (xs @ ys @ zs) ! ?e, ?e := (xs @ ys @ zs) ! length xs] =
        (xs @ [b]) @ ys' @ (a # zs)"
      by (simp add: ys nth_append list_update_append)
    have "reverse_loop (xs @ ys @ zs) (length xs) ?e = reverse_loop ((xs @ [b]) @ ys' @ (a # zs)) (length xs + 1) (?e - 1)"
      using False by (subst reverse_loop.simps) (simp only: swap, simp add: ys)
    also have "\<dots> = (xs @ [b]) @ rev ys' @ (a # zs)"
    proof (cases "ys' = []")
      case True
      then show ?thesis by (simp add: reverse_loop.simps ys)
    next
      case False
      then show ?thesis using less.hyps[of ys' "xs @ [b]" "a # zs"] by (simp add: ys)
    qed
    finally show ?thesis by (simp add: ys)
  qed
qed

text \<open>What \<open>%d\<close> prints.\<close>

definition show_d :: "u32 \<Rightarrow> string" where
  "show_d num = (if sint num < 0 then CHR ''-'' # rev (rev_digits (nat (sint (- num)))) else dec (nat (sint num)))"

lemma dec_loop_nat: "dec_loop t b i = dec_loop (int (nat t)) b i"
  by (cases "t > 0") (simp_all add: dec_loop.simps)

lemma length_digits_int: "length (rev_digits (nat (sint (x :: u32)))) \<le> 10"
  using sint_lt[of x] by (intro length_rev_digits) simp

lemma split_buffer:
  assumes "k \<le> length b"
  obtains zs ws where "b = zs @ ws" "length zs = k"
  using assms by (metis append_take_drop_id length_take min.absorb2)

lemma print_d_negative:
  assumes "length b = 32" and neg: "sint num < 0"
  shows "\<exists>b'. print_d num b = Some (b', length (show_d num)) \<and> length b' = 32 \<and> take (length (show_d num)) b' = show_d num"
proof -
  let ?n = "nat (sint (- num))"
  obtain c b1 where b: "b = c # b1" "length b1 = 31" using assms(1) by (cases b) auto
  obtain zs ws where z: "b1 = zs @ ws" "length zs = length (rev_digits ?n)"
    using split_buffer[of "length (rev_digits ?n)" b1] length_digits_int[of "- num"] b by auto
  have "put b 0 (CHR ''-'') = Some ([CHR ''-''] @ zs @ ws)" by (simp add: put_def b z)
  moreover have "dec_loop (sint (- num)) ([CHR ''-''] @ zs @ ws) 1 = Some ([CHR ''-''] @ rev_digits ?n @ ws, 1 + length (rev_digits ?n))"
    using dec_loop_eq[OF z(2), of "[CHR ''-'']" ws] by (subst dec_loop_nat) simp
  moreover have "reverse_loop ([CHR ''-''] @ rev_digits ?n @ ws) 1 (length (rev_digits ?n)) = [CHR ''-''] @ rev (rev_digits ?n) @ ws"
    using reverse_loop_eq[of "rev_digits ?n" "[CHR ''-'']" ws] by (cases "rev_digits ?n = []") (simp_all add: reverse_loop.simps)
  ultimately have "print_d num b = Some ([CHR ''-''] @ rev (rev_digits ?n) @ ws, 1 + length (rev_digits ?n))"
    using neg by (simp add: print_d_def)
  moreover have "length ([CHR ''-''] @ rev (rev_digits ?n) @ ws) = 32" using b z by simp
  ultimately show ?thesis using neg by (simp add: show_d_def)
qed

lemma print_d_positive:
  assumes "length b = 32" and pos: "\<not> sint num < 0"
  shows "\<exists>b'. print_d num b = Some (b', length (show_d num)) \<and> length b' = 32 \<and> take (length (show_d num)) b' = show_d num"
proof (cases "num = 0")
  case True
  then have "print_d num b = Some (b[0 := CHR ''0''], 1)"
    using assms(1) by (simp add: print_d_def put_def dec_loop.simps reverse_loop.simps)
  then show ?thesis using assms True by (cases b) (simp_all add: show_d_def dec_def)
next
  case False
  let ?n = "nat (sint num)" and ?m = "length (rev_digits (nat (sint num)))"
  have n: "?n \<noteq> 0" using pos False signed_eq_0_iff[of num] by (simp add: not_less order_le_less)
  then have ne: "rev_digits ?n \<noteq> []" by (subst rev_digits.simps) simp
  obtain zs ws where z: "b = zs @ ws" "length zs = ?m"
    using split_buffer[of ?m b] length_digits_int[of num] assms(1) by auto
  have "(rev_digits ?n @ ws) ! 0 \<in> set (rev_digits ?n)" using ne by (simp add: nth_append)
  from rev_digits_no_minus[OF this] have nm: "(rev_digits ?n @ ws) ! 0 \<noteq> CHR ''-''" by auto
  have "dec_loop (sint num) (zs @ ws) 0 = Some (rev_digits ?n @ ws, ?m)"
    using dec_loop_eq[OF z(2), of "[]" ws] by (subst dec_loop_nat) simp
  moreover have "reverse_loop (rev_digits ?n @ ws) 0 (?m - 1) = rev (rev_digits ?n) @ ws"
    using reverse_loop_eq[OF ne, of "[]" ws] by simp
  ultimately have "print_d num b = Some (rev (rev_digits ?n) @ ws, ?m)"
    using pos False nm by (simp add: print_d_def z)
  then show ?thesis using pos n assms(1) z by (simp add: show_d_def dec_def)
qed

lemma print_d_eq:
  assumes "length b = 32"
  shows "\<exists>b'. print_d num b = Some (b', length (show_d num)) \<and> length b' = 32 \<and> take (length (show_d num)) b' = show_d num"
  using print_d_negative[OF assms] print_d_positive[OF assms] by blast

text \<open>What \<open>%x\<close> prints.\<close>

definition nibble :: "u32 \<Rightarrow> nat \<Rightarrow> nat" where
  "nibble num shift = unat (drop_bit shift num AND 0xF)"

definition show_x :: "u32 \<Rightarrow> string" where
  "show_x num = ''0x'' @ (if num = 0 then ''0''
     else map hex_digit (dropWhile (\<lambda>d. d = 0) (map (nibble num) [28, 24, 20, 16, 12, 8, 4, 0])))"

lemma hex_loop_started:
  assumes "length zs = length shifts"
  shows "hex_loop num shifts (xs @ zs @ ws) (length xs) True =
    Some (xs @ map (\<lambda>k. hex_digit (nibble num k)) shifts @ ws, length xs + length shifts)"
  using assms
proof (induction shifts arbitrary: xs zs)
  case (Cons k shifts)
  then obtain z zs' where zs: "zs = z # zs'" "length zs' = length shifts" by (cases zs) auto
  from Cons.IH[OF zs(2), of "xs @ [hex_digit (nibble num k)]"] show ?case
    by (simp add: zs put_append nibble_def Let_def)
qed simp

lemma hex_loop_eq:
  assumes "length shifts \<le> length b - length xs" and "xs @ bs = b"
  shows "\<exists>b'. hex_loop num shifts b (length xs) False =
      Some (b', length xs + length (dropWhile (\<lambda>d. d = 0) (map (nibble num) shifts))) \<and> length b' = length b \<and>
    take (length xs + length (dropWhile (\<lambda>d. d = 0) (map (nibble num) shifts))) b' =
      xs @ map hex_digit (dropWhile (\<lambda>d. d = 0) (map (nibble num) shifts))"
  using assms(1)
proof (induction shifts)
  case Nil
  then show ?case using assms(2) by auto
next
  case (Cons k shifts)
  show ?case
  proof (cases "nibble num k = 0")
    case True
    with Cons show ?thesis by (simp add: Let_def nibble_def)
  next
    case False
    have "length (k # shifts) \<le> length bs" using Cons.prems assms(2) by auto
    then obtain zs ws where z: "bs = zs @ ws" "length zs = length (k # shifts)"
      using split_buffer[of "length (k # shifts)" bs] by blast
    have "hex_loop num (k # shifts) b (length xs) False = hex_loop num (k # shifts) (xs @ zs @ ws) (length xs) True"
      using False assms(2) z by (simp add: nibble_def Let_def)
    also have "\<dots> = Some (xs @ map (\<lambda>k. hex_digit (nibble num k)) (k # shifts) @ ws, length xs + length (k # shifts))"
      by (rule hex_loop_started[OF z(2)])
    finally show ?thesis using False assms(2) z by (auto simp: comp_def)
  qed
qed

lemma print_x_eq:
  assumes "length b = 32"
  shows "\<exists>b'. print_x num b = Some (b', length (show_x num)) \<and> length b' = 32 \<and> take (length (show_x num)) b' = show_x num"
proof -
  obtain c d e bs where b: "b = c # d # e # bs" "length bs = 29"
    using assms by (cases b; cases "tl b"; cases "tl (tl b)") auto
  have p: "put b 0 (CHR ''0'') = Some (CHR ''0'' # d # e # bs)" "put (CHR ''0'' # d # e # bs) 1 (CHR ''x'') = Some (''0x'' @ e # bs)"
    "put (''0x'' @ e # bs) 2 (CHR ''0'') = Some (''0x0'' @ bs)"
    by (simp_all add: put_def b)
  show ?thesis
  proof (cases "num = 0")
    case False
    have "hex_loop num [28, 24, 20, 16, 12, 8, 4, 0] (''0x'' @ e # bs) (length ''0x'') False = print_x num b"
      using False p by (simp add: print_x_def numeral_2_eq_2 del: hex_loop.simps)
    with hex_loop_eq[of "[28, 24, 20, 16, 12, 8, 4, 0]" "''0x'' @ e # bs" "''0x''" "e # bs" num] False b
    show ?thesis by (auto simp: show_x_def)
  qed (use b p in \<open>simp add: print_x_def show_x_def\<close>)
qed

section \<open>Reading the numerals back\<close>

definition undec_int :: "string \<Rightarrow> int" where
  "undec_int cs = (case cs of [] \<Rightarrow> 0 | c # ds \<Rightarrow> if c = CHR ''-'' then - int (undec ds) else int (undec cs))"

lemma sint_uminus_u32:
  fixes num :: u32
  assumes "num \<noteq> 0x80000000"
  shows "sint (- num) = - sint num"
proof -
  have "sint num \<noteq> - (2 ^ 31)"
  proof
    assume "sint num = - (2 ^ 31)"
    then have "num = of_int (- (2 ^ 31))" by (metis of_int_sint scast_id word_of_int_uint)
    with assms show False by simp
  qed
  then have "- (2 ^ 31) \<le> - sint num \<and> - sint num < 2 ^ 31"
    using sint_lt[of num] sint_ge[of num] by simp
  then show ?thesis by (simp add: sint_word_minus signed_take_bit_int_eq_self)
qed

lemma rev_digits_Nil [simp]: "rev_digits n = [] \<longleftrightarrow> n = 0" "rev_digits 0 = []"
  by (subst rev_digits.simps, simp)+

lemma undec_show_d:
  assumes "num \<noteq> 0x80000000"
  shows "undec_int (show_d num) = sint num"
proof (cases "sint num < 0")
  case True
  then show ?thesis using sint_uminus_u32[OF assms] by (simp add: show_d_def undec_int_def undec_rev_digits)
next
  case False
  have "undec_int (dec n) = int n" for n
  proof (cases "n = 0")
    case False
    then obtain c cs where r: "rev (rev_digits n) = c # cs"
      by (cases "rev (rev_digits n)") auto
    then have "c \<in> set (rev_digits n)" by (metis list.set_intros(1) set_rev)
    from rev_digits_no_minus[OF this] have "c \<noteq> CHR ''-''" by auto
    then show ?thesis using False r undec_rev_digits[of n] by (simp add: dec_def undec_int_def)
  qed (simp add: dec_def undec_int_def undec_def)
  then show ?thesis using False by (simp add: show_d_def)
qed

lemma nibble_div: "nibble num k = unat num div 2 ^ k mod 16"
proof -
  have "(0xF :: u32) = mask 4" by (simp add: mask_eq_exp_minus_1)
  then have "drop_bit k num AND 0xF = take_bit 4 (drop_bit k num)" by (simp only: take_bit_eq_mask)
  then have "nibble num k = take_bit 4 (drop_bit k (unat num))"
    using take_bit_nat_eq_self[OF unsigned_less[of num]]
    by (simp only: nibble_def unsigned_take_bit_eq unsigned_drop_bit_eq)
  then show ?thesis by (simp add: take_bit_eq_mod drop_bit_eq_div)
qed

lemma unhex_digits:
  assumes "\<forall>d \<in> set ds. d < 16"
  shows "foldl (\<lambda>v c. 16 * v + hex_value c) v (map hex_digit ds) = foldl (\<lambda>v d. 16 * v + d) v ds"
  using assms by (induction ds arbitrary: v) (auto simp: hex_value_digit)

lemma foldl_dropWhile_0: "foldl (\<lambda>v d. 16 * v + d) (0 :: nat) (dropWhile (\<lambda>d. d = 0) ds) = foldl (\<lambda>v d. 16 * v + d) 0 ds"
  by (induction ds) auto

lemma nibbles_value:
  fixes num :: u32
  shows "foldl (\<lambda>v d. 16 * v + d) 0 (map (nibble num) [28, 24, 20, 16, 12, 8, 4, 0]) = unat num"
proof -
  define N where "N = unat num"
  have s: "16 * (N div 2 ^ (k + 4)) + N div 2 ^ k mod 16 = N div 2 ^ k" for k
    by (simp add: power_add div_mult2_eq)
  have "N < 2 ^ 32" using unsigned_less[of num] by (simp add: N_def)
  then have z: "16 * 0 + N div 2 ^ 28 mod 16 = N div 2 ^ 28" by (simp add: less_mult_imp_div_less)
  show ?thesis
    using s[of 24] s[of 20] s[of 16] s[of 12] s[of 8] s[of 4] s[of 0]
    unfolding list.map foldl.simps nibble_div N_def[symmetric] z by (simp only: numeral_plus_numeral add_num_simps add_0 power_0 div_by_1)
qed

lemma unhex_show_x: "unhex (drop 2 (show_x num)) = unat num"
proof (cases "num = 0")
  case False
  let ?ds = "dropWhile (\<lambda>d. d = 0) (map (nibble num) [28, 24, 20, 16, 12, 8, 4, 0])"
  have "d < 16" if "d \<in> set ?ds" for d using set_dropWhileD[OF that] by (auto simp: nibble_div)
  then have "unhex (map hex_digit ?ds) = unat num"
    unfolding unhex_def by (subst unhex_digits) (blast, unfold foldl_dropWhile_0 nibbles_value, rule refl)
  moreover have "drop 2 (''0x'' @ cs) = cs" for cs by simp
  ultimately show ?thesis by (simp only: show_x_def False if_False)
qed (simp add: show_x_def unhex_def hex_value_def)

section \<open>What \<open>kprintf\<close> promises\<close>

text \<open>The bookkeeping of the loop: the buffer keeps its size and the count is what went to the terminal.\<close>

definition printer_ok :: "string \<Rightarrow> printer \<Rightarrow> bool" where
  "printer_ok t p \<longleftrightarrow> length (buf p) = 32 \<and> 0 \<le> written p \<and> (\<exists>cs. out p = t @ cs \<and> written p = int (length cs))"

lemma console_write_ok: "printer_ok t p \<Longrightarrow> console_write cs p = Some p' \<Longrightarrow> printer_ok t p'"
  by (auto simp: printer_ok_def console_write_def split: if_splits)

lemma print_buf_write:
  assumes "\<exists>b'. conv (buf p) = Some (b', length cs) \<and> length b' = 32 \<and> take (length cs) b' = cs"
  shows "\<exists>b'. length b' = 32 \<and> print_buf conv p = console_write cs (p\<lparr>buf := b'\<rparr>)"
  using assms by (auto simp: print_buf_def)

lemma print_buf_ok:
  assumes "\<exists>b'. conv (buf p) = Some (b', length cs) \<and> length b' = 32 \<and> take (length cs) b' = cs"
    and "printer_ok t p" and "print_buf conv p = Some p'"
  shows "printer_ok t p'"
proof -
  obtain b' where b: "length b' = 32" "print_buf conv p = console_write cs (p\<lparr>buf := b'\<rparr>)"
    using print_buf_write[where conv = conv and p = p and cs = cs, OF assms(1)] by blast
  have "printer_ok t (p\<lparr>buf := b'\<rparr>)" using assms(2) b(1) by (simp add: printer_ok_def)
  from console_write_ok[OF this] b(2) assms(3) show ?thesis by simp
qed

lemma print_numeral_ok:
  assumes "printer_ok t p"
  shows "print_buf (print_d n) p = Some p' \<Longrightarrow> printer_ok t p'" "print_buf (print_x n) p = Some p' \<Longrightarrow> printer_ok t p'"
proof -
  have b: "length (buf p) = 32" using assms by (simp add: printer_ok_def)
  show "print_buf (print_d n) p = Some p' \<Longrightarrow> printer_ok t p'"
    by (rule print_buf_ok[where conv = "print_d n" and cs = "show_d n", OF print_d_eq[OF b] assms])
  show "print_buf (print_x n) p = Some p' \<Longrightarrow> printer_ok t p'"
    by (rule print_buf_ok[where conv = "print_x n" and cs = "show_x n", OF print_x_eq[OF b] assms])
qed

lemma convert_ok:
  assumes "printer_ok t p" and "convert c args p = Some (args', p')"
  shows "printer_ok t p'"
  using assms(2) console_write_ok[OF assms(1)] print_numeral_ok[OF assms(1)]
  by (auto split: if_splits list.splits va_arg.splits)

lemma kprintf_loop_ok:
  "kprintf_loop fmt args p = Some (p', r) \<Longrightarrow> printer_ok t p \<Longrightarrow> printer_ok t p' \<and> (r = -1 \<or> r = written p')"
proof (induction fmt args p rule: kprintf_loop.induct)
  case (1 fmt args p)
  note IH = 1(1-4) and run = 1(5) and ok = 1(6)
  consider "fmt = []" | "fmt \<noteq> []" "is_escape fmt" | "fmt \<noteq> []" "\<not> is_escape fmt" "is_text fmt"
    | "fmt \<noteq> []" "\<not> is_escape fmt" "\<not> is_text fmt" by blast
  then show ?case
  proof cases
    case 1
    with run ok show ?thesis by (auto simp: kprintf_loop.simps)
  next
    case 2
    with run console_write_ok[OF ok] IH(1,2)[OF 2 refl refl] show ?thesis
      by (subst (asm) kprintf_loop.simps) (fastforce simp: Let_def split: if_splits option.splits)
  next
    case 3
    define f where "f = (if hd fmt = CHR ''%'' then tl fmt else fmt)"
    define n where "n = 1 + length (takeWhile (\<lambda>c. c \<noteq> CHR ''%'') (tl f))"
    have eq: "kprintf_loop fmt args p = (if INT_MAX - written p < int n then Some (p, -1)
        else case console_write (take n f) p of None \<Rightarrow> None | Some q \<Rightarrow> kprintf_loop (drop n f) args q)"
      using 3 by (subst kprintf_loop.simps) (simp only: Let_def f_def n_def if_True if_False)
    show ?thesis
    proof (cases "INT_MAX - written p < int n")
      case False
      then obtain q where q: "console_write (take n f) p = Some q" "kprintf_loop (drop n f) args q = Some (p', r)"
        using run eq by (auto split: option.splits)
      from IH(3)[OF 3 f_def n_def False q(1) q(2) console_write_ok[OF ok q(1)]] show ?thesis .
    qed (use run eq ok in auto)
  next
    case 4
    with run convert_ok[OF ok] IH(4)[OF 4] show ?thesis
      by (subst (asm) kprintf_loop.simps) (fastforce split: list.splits option.splits)
  qed
qed

text \<open>
  Whatever the format and the arguments, a \<open>kprintf\<close> that has a defined result only appends to the terminal and
  returns the number of characters it appended, or -1.
\<close>

theorem kprintf_counts:
  assumes "length b = 32" and "kprintf b fmt args t = Some (t', r)"
  shows "\<exists>cs. t' = t @ cs \<and> (r = -1 \<or> r = int (length cs))"
proof -
  from assms(2) obtain p' where run: "kprintf_loop fmt args \<lparr>buf = b, out = t, written = 0\<rparr> = Some (p', r)" and t': "t' = out p'"
    by (auto simp: kprintf_def)
  have "printer_ok t \<lparr>buf = b, out = t, written = 0\<rparr>" using assms(1) by (simp add: printer_ok_def)
  from kprintf_loop_ok[OF run this] t' show ?thesis by (auto simp: printer_ok_def)
qed

lemma convert_d:
  assumes "length (buf p) = 32" and "written p + int (length (show_d n)) \<le> INT_MAX"
  shows "\<exists>b'. length b' = 32 \<and> convert (CHR ''d'') (Va_int n # args) p =
    Some (args, p\<lparr>buf := b', out := out p @ show_d n, written := written p + int (length (show_d n))\<rparr>)"
  using print_buf_write[where conv = "print_d n" and cs = "show_d n", OF print_d_eq[OF assms(1)]] assms(2)
  by (auto simp: console_write_def)

lemma convert_x:
  assumes "length (buf p) = 32" and "written p + int (length (show_x n)) \<le> INT_MAX"
  shows "\<exists>b'. length b' = 32 \<and> convert (CHR ''x'') (Va_int n # args) p =
    Some (args, p\<lparr>buf := b', out := out p @ show_x n, written := written p + int (length (show_x n))\<rparr>)"
  using print_buf_write[where conv = "print_x n" and cs = "show_x n", OF print_x_eq[OF assms(1)]] assms(2)
  by (auto simp: console_write_def)

lemma show_d_least: "show_d 0x80000000 = ''-''"
  by (simp add: show_d_def)

lemma length_show_d: "length (show_d n) \<le> 11"
  using length_digits_int[of n] length_digits_int[of "- n"] by (simp add: show_d_def dec_def)

lemma length_show_x: "length (show_x n) \<le> 10"
  using length_dropWhile_le[of "\<lambda>d. d = 0" "map (nibble n) [28, 24, 20, 16, 12, 8, 4, 0]"]
  by (simp add: show_x_def del: dropWhile.simps list.map)

text \<open>
  C20. \<open>%d\<close> and \<open>%x\<close> print numerals that read back as the argument: \<open>%d\<close> the signed value, except that the least
  \<open>int\<close> is printed as a lone minus sign, and \<open>%x\<close> the unsigned value. The conversions stay inside the 32 bytes of
  the buffer, whatever it held before.
\<close>

theorem kprintf_numerals:
  assumes "length b = 32"
  shows "kprintf b ''%d %x'' [Va_int n, Va_int m] t =
      Some (t @ show_d n @ '' '' @ show_x m, int (length (show_d n) + 1 + length (show_x m))) \<and>
    (n \<noteq> 0x80000000 \<longrightarrow> undec_int (show_d n) = sint n) \<and> show_d 0x80000000 = ''-'' \<and>
    unhex (drop 2 (show_x m)) = unat m"
proof (intro conjI impI)
  let ?p = "\<lparr>buf = b, out = t, written = 0\<rparr>"
  obtain b1 where b1: "length b1 = 32" and c1: "convert (CHR ''d'') [Va_int n, Va_int m] ?p =
      Some ([Va_int m], \<lparr>buf = b1, out = t @ show_d n, written = int (length (show_d n))\<rparr>)"
    using convert_d[of ?p n "[Va_int m]"] assms length_show_d[of n] by auto
  let ?q = "\<lparr>buf = b1, out = t @ show_d n @ '' '', written = int (length (show_d n)) + 1\<rparr>"
  obtain b2 where c2: "convert (CHR ''x'') [Va_int m] ?q =
      Some ([], ?q\<lparr>buf := b2, out := out ?q @ show_x m, written := written ?q + int (length (show_x m))\<rparr>)"
    using convert_x[of ?q m "[]"] b1 length_show_d[of n] length_show_x[of m] by auto
  have "kprintf_loop ''%d %x'' [Va_int n, Va_int m] ?p = kprintf_loop '' %x'' [Va_int m] \<lparr>buf = b1, out = t @ show_d n, written = int (length (show_d n))\<rparr>"
    by (subst kprintf_loop.simps) (simp add: is_escape_def is_text_def c1 del: convert.simps)
  also have "\<dots> = kprintf_loop ''%x'' [Va_int m] ?q"
    using length_show_d[of n] by (subst kprintf_loop.simps) (simp add: is_escape_def is_text_def Let_def console_write_def)
  also have "\<dots> = kprintf_loop [] [] (?q\<lparr>buf := b2, out := out ?q @ show_x m, written := written ?q + int (length (show_x m))\<rparr>)"
    by (subst kprintf_loop.simps) (simp add: is_escape_def is_text_def c2 del: convert.simps)
  finally show "kprintf b ''%d %x'' [Va_int n, Va_int m] t =
      Some (t @ show_d n @ '' '' @ show_x m, int (length (show_d n) + 1 + length (show_x m)))"
    by (simp add: kprintf_def kprintf_loop.simps)
qed (simp_all add: undec_show_d unhex_show_x show_d_least)

text \<open>A lone \<open>%\<close> at the end, or an escape sequence that is not closed, makes the loop step over the terminator.\<close>

lemma kprintf_overrun: "kprintf b ''%'' args t = None" "kprintf b [ESC, CHR ''[''] args t = None"
  by (simp_all add: kprintf_def kprintf_loop.simps is_escape_def is_text_def console_write_def)

section \<open>What \<open>klog\<close> prints\<close>

lemma put_all_eq:
  assumes "length zs = length cs"
  shows "put_all (xs @ zs @ ws) (length xs) cs = Some (xs @ cs @ ws)"
  using assms
proof (induction cs arbitrary: xs zs)
  case (Cons c cs)
  then obtain z zs' where zs: "zs = z # zs'" "length zs' = length cs" by (cases zs) auto
  from Cons.IH[OF zs(2), of "xs @ [c]"] show ?case by (simp add: zs put_append)
qed simp

definition fmt_rev :: "nat \<Rightarrow> string" where
  "fmt_rev n = (if n = 0 then ''0'' else rev_digits n)"

lemma fmt_digits_eq:
  assumes "length zs = length (fmt_rev (unat v))"
  shows "fmt_digits v (xs @ zs @ ws) (length xs) = Some (xs @ fmt_rev (unat v) @ ws, length xs + length (fmt_rev (unat v)))"
  using assms
proof (induction "unat v" arbitrary: v xs zs rule: less_induct)
  case less
  have d: "fmt_rev (unat v) = digit (unat v mod 10) # (if unat v div 10 = 0 then [] else fmt_rev (unat v div 10))"
    by (auto simp: fmt_rev_def digit_0 rev_digits.simps[of "unat v"] rev_digits.simps[of 0])
  let ?xs = "xs @ [digit (unat v mod 10)]"
  have m: "unat (v mod 10) = unat v mod 10" "unat (v div 10) = unat v div 10" by (simp_all add: unat_mod unat_div)
  obtain z zs' where zs: "zs = z # zs'" using less.prems d by (cases zs) auto
  have gt: "0 < v div 10 \<longleftrightarrow> unat v div 10 \<noteq> 0" by (simp add: word_less_nat_alt m)
  show ?case
  proof (cases "unat v div 10 = 0")
    case True
    then show ?thesis using less.prems d zs gt by (subst fmt_digits.simps) (simp add: put_append m)
  next
    case False
    then have "unat (v div 10) < unat v" by (simp add: m)
    from less.hyps[OF this, of zs' ?xs] False less.prems d zs gt show ?thesis
      by (subst fmt_digits.simps) (simp add: put_append m)
  qed
qed

lemma rev_fmt_rev: "rev (fmt_rev n) = dec n"
  by (simp add: fmt_rev_def dec_def)

definition padded :: "nat \<Rightarrow> char \<Rightarrow> nat \<Rightarrow> string" where
  "padded width pad n = replicate (width - length (dec n)) pad @ dec n"

lemma fmt_uint_padded_eq:
  assumes "length (dec (unat v)) \<le> length tmp" and "length (padded width pad (unat v)) < length outb"
  shows "\<exists>rest. fmt_uint_padded tmp outb v width pad = Some (padded width pad (unat v) @ CHR 0x00 # rest)"
proof -
  have l: "length (fmt_rev (unat v)) = length (dec (unat v))" by (metis length_rev rev_fmt_rev)
  obtain zs ws where z: "tmp = zs @ ws" "length zs = length (fmt_rev (unat v))"
    using split_buffer[of "length (fmt_rev (unat v))" tmp] assms(1) l by auto
  let ?cs = "padded width pad (unat v) @ [CHR 0x00]"
  obtain ys us where y: "outb = ys @ us" "length ys = length ?cs"
    using split_buffer[of "length ?cs" outb] assms(2) by auto
  show ?thesis
    using fmt_digits_eq[OF z(2), of "[]" ws] put_all_eq[OF y(2), of "[]" us] l
    by (simp add: fmt_uint_padded_def z(1) y(1) padded_def rev_fmt_rev)
qed

lemma dec_no_nul: "c \<in> set (dec n) \<Longrightarrow> c \<noteq> CHR 0x00"
  using rev_digits_no_minus[of c n] by (auto simp: dec_def split: if_splits)

lemma c_string_padded:
  assumes "pad \<noteq> CHR 0x00"
  shows "c_string (padded width pad n @ CHR 0x00 # rest) = padded width pad n"
proof -
  have "c \<noteq> CHR 0x00" if "c \<in> set (padded width pad n)" for c
    using that assms dec_no_nul by (auto simp: padded_def set_replicate_conv_if split: if_splits)
  then show ?thesis unfolding c_string_def by (subst takeWhile_append2) auto
qed

lemma length_dec: "0 < k \<Longrightarrow> n < 10 ^ k \<Longrightarrow> length (dec n) \<le> k"
  using length_rev_digits[of n k] by (simp add: dec_def)

lemma length_padded: "length (padded width pad n) = max width (length (dec n))"
  by (simp add: padded_def)

text \<open>The line that \<open>klog\<close> starts.\<close>

definition klog_line :: "nat \<Rightarrow> klog_level \<Rightarrow> string \<Rightarrow> string" where
  "klog_line ms level subsystem =
     [ESC] @ ''[1;34m['' @ padded 5 (CHR '' '') (ms div 1000) @ ''.'' @ padded 3 (CHR ''0'') (ms mod 1000) @ '']'' @
     [ESC] @ ''[0m '' @ level_label level @ '' '' @ [ESC] @ ''[1m'' @ subsystem @ [ESC] @ ''[0m: ''"

lemma kprintf_klog_format:
  assumes "length a + length c + length d + length e \<le> 10000"
  shows "kprintf b ([ESC] @ ''[1;34m[%s.%s]'' @ [ESC] @ ''[0m %s '' @ [ESC] @ ''[1m%s'' @ [ESC] @ ''[0m: '')
      [Va_str a, Va_str c, Va_str d, Va_str e] t =
    Some (t @ [ESC] @ ''[1;34m['' @ a @ ''.'' @ c @ '']'' @ [ESC] @ ''[0m '' @ d @ '' '' @ [ESC] @ ''[1m'' @ e @ [ESC] @ ''[0m: '',
      int (length a + length c + length d + length e + 26))"
  using assms
  by (simp add: kprintf_def kprintf_loop.simps is_escape_def is_text_def console_write_def Let_def)

lemma klog_eq:
  assumes "length tmp = 20" and "length secbuf = 20" and "length msbuf = 8"
    and "unat ticks * 10 < 2 ^ 64" and "length subsystem \<le> 1000"
  shows "klog tmp secbuf msbuf b ticks level subsystem t = Some (t @ klog_line (unat ticks * 10) level subsystem)"
proof -
  let ?ms = "unat ticks * 10"
  have "unat (ticks * 10) = ?ms" using assms(4) by (simp add: unat_word_ariths)
  then have u: "unat (ticks * 10 div 1000) = ?ms div 1000" "unat (ticks * 10 mod 1000) = ?ms mod 1000"
    by (simp_all add: unat_div unat_mod)
  have l: "length (dec (?ms div 1000)) \<le> 17" "length (dec (?ms mod 1000)) \<le> 3"
    using assms(4) by (intro length_dec; simp)+
  obtain r where sec: "fmt_uint_padded tmp secbuf (ticks * 10 div 1000) 5 (CHR '' '') = Some (padded 5 (CHR '' '') (?ms div 1000) @ CHR 0x00 # r)"
    using fmt_uint_padded_eq[of "ticks * 10 div 1000" tmp 5 "CHR '' ''" secbuf] assms(1,2) l(1) by (auto simp: u length_padded)
  obtain r' where ms: "fmt_uint_padded tmp msbuf (ticks * 10 mod 1000) 3 (CHR ''0'') = Some (padded 3 (CHR ''0'') (?ms mod 1000) @ CHR 0x00 # r')"
    using fmt_uint_padded_eq[of "ticks * 10 mod 1000" tmp 3 "CHR ''0''" msbuf] assms(1,3) l(2) by (auto simp: u length_padded)
  have "length (level_label level) \<le> 100" by (simp add: level_label_def split: klog_level.splits)
  then have "length (padded 5 (CHR '' '') (?ms div 1000)) + length (padded 3 (CHR ''0'') (?ms mod 1000)) +
      length (level_label level) + length subsystem \<le> 10000"
    using l assms(5) by (simp add: length_padded)
  from kprintf_klog_format[OF this, of b t]
  show "klog tmp secbuf msbuf b ticks level subsystem t = Some (t @ klog_line ?ms level subsystem)"
    by (simp add: klog_def sec ms c_string_padded klog_line_def)
qed

text \<open>
  C21. As long as the tick counter times ten does not wrap around, \<open>klog\<close> prints the time since boot in seconds
  and milliseconds, right-aligned, the level and the subsystem, without leaving its local arrays; and the
  two numerals read back to the number of ticks.
\<close>

theorem klog_prints_time:
  assumes "length tmp = 20" and "length secbuf = 20" and "length msbuf = 8"
    and "unat ticks * 10 < 2 ^ 64" and "length subsystem \<le> 1000"
  shows "klog tmp secbuf msbuf b ticks level subsystem t = Some (t @ klog_line (unat ticks * 10) level subsystem) \<and>
    1000 * undec (dec (unat ticks * 10 div 1000)) + undec (dec (unat ticks * 10 mod 1000)) = 10 * unat ticks"
  using klog_eq[OF assms] by (simp only: undec_dec mult_div_mod_eq mult.commute[of "unat ticks" 10])

theorem kprintf_counts_witness:
  "\<exists>cs. kprintf (replicate 32 (CHR ''x'')) ''a%s%%'' [Va_str ''bc''] [] = Some (cs, 4) \<and> length cs = 4"
proof -
  have run: "kprintf (replicate 32 (CHR ''x'')) ''a%s%%'' [Va_str ''bc''] [] = Some (''abc%'', 4)"
    by (simp add: kprintf_def kprintf_loop.simps is_escape_def is_text_def console_write_def Let_def)
  from kprintf_counts[OF _ run] have "length ''abc%'' = 4" by simp
  with run show ?thesis by blast
qed

theorem kprintf_numerals_witness:
  "kprintf (replicate 32 (CHR ''x'')) ''%d %x'' [Va_int (-7), Va_int 0xAB] [] =
      Some (show_d (-7) @ '' '' @ show_x 0xAB, int (length (show_d (-7)) + 1 + length (show_x 0xAB))) \<and>
    undec_int (show_d (-7)) = -7 \<and> unhex (drop 2 (show_x 0xAB)) = 0xAB"
  using kprintf_numerals[of "replicate 32 (CHR ''x'')" "-7" "0xAB" "[]"] by simp

theorem klog_prints_time_witness:
  "klog (replicate 20 (CHR ''x'')) (replicate 20 (CHR ''y'')) (replicate 8 (CHR ''z'')) (replicate 32 (CHR ''w'')) 123456 KLOG_WARN ''PMM'' [] =
    Some (klog_line 1234560 KLOG_WARN ''PMM'')"
  using klog_prints_time[of "replicate 20 (CHR ''x'')" "replicate 20 (CHR ''y'')" "replicate 8 (CHR ''z'')" 123456 "''PMM''"
      "replicate 32 (CHR ''w'')" KLOG_WARN "[]"]
  by simp

end
