(* ===== verification/Vfs.thy ===== *)
theory Vfs
  imports KmemHeap Printf Paging
begin

text \<open>
  The in-memory file system of \<^verbatim>\<open>fs/vfs.c\<close>. Its structures are records, its arrays lists; the memory for
  them comes from the kernel heap, so that every allocation of the code is a call of \<open>kmalloc\<close>. An argument of
  type \<open>const char *\<close> is the string and the bytes that follow its terminator, since the code copies blocks of
  a fixed length from it. Dereferencing \<open>NULL\<close> or a freed object, and indexing outside an array, is \<open>None\<close>.
\<close>

section \<open>Data\<close>

abbreviation (input) INITIAL_CAPACITY :: int where "INITIAL_CAPACITY \<equiv> 200"
abbreviation (input) MAX_FILENAME :: nat where "MAX_FILENAME \<equiv> 256"
abbreviation (input) MAX_FILES :: nat where "MAX_FILES \<equiv> 100"
abbreviation (input) MYFS_MAGIC :: u32 where "MYFS_MAGIC \<equiv> 0x13131313"
abbreviation (input) MAX_DATABLOCKS :: nat where "MAX_DATABLOCKS \<equiv> 50"
abbreviation (input) BLOCK_SIZE :: nat where "BLOCK_SIZE \<equiv> 4096"
abbreviation (input) MAX_BLOCK_NUMBER :: nat where "MAX_BLOCK_NUMBER \<equiv> 50"

abbreviation (input) NUL :: char where "NUL \<equiv> CHR 0x00"

abbreviation (input) sizeof_File :: u64 where "sizeof_File \<equiv> 260"
abbreviation (input) sizeof_Directory :: u64 where "sizeof_Directory \<equiv> 272"
abbreviation (input) sizeof_superblock :: u64 where "sizeof_superblock \<equiv> 20"
abbreviation (input) sizeof_inode :: u64 where "sizeof_inode \<equiv> 208"
abbreviation (input) sizeof_VFS :: u64 where "sizeof_VFS \<equiv> 205632"

datatype vtype = VNON | VREG | VDIR | VBLK | VCHR

record File =
  file_name :: string
  inode_number :: u32

text \<open>\<open>files\<close> holds the entries in use, so \<open>file_count\<close> is its length; \<open>files_ptr\<close> is the array's address.\<close>

record Directory =
  dir_name :: string
  files :: "File list"
  files_ptr :: u64
  capacity :: int

record myfs_superblock =
  magic :: u32
  block_size :: u32
  inode_count :: u32
  free_blocks :: u32
  root_inode :: u32

record myfs_inode =
  mode :: u32
  inode_size :: u32
  inode_blocks :: "u32 list"

record VFS =
  root :: Directory
  superblock :: myfs_superblock
  inode_table :: "myfs_inode list"
  data_blocks :: "string list"
  total_files :: int
  total_size :: u64

text \<open>The global pointer, and the object it points to as long as that is allocated.\<close>

record vfs_state = vmm +
  vfs :: u64
  vfs_obj :: "VFS option"

text \<open>A \<open>const char *\<close>: the characters before the terminator and the bytes behind it.\<close>

record cptr =
  chars :: string
  behind :: "nat \<Rightarrow> char"

definition bytes_of :: "cptr \<Rightarrow> nat \<Rightarrow> string" where
  "bytes_of p n = take n (chars p @ NUL # map (behind p) [0..<n])"

definition file_count :: "VFS \<Rightarrow> int" where
  "file_count v = int (length (files (root v)))"

text \<open>A loop that stores the first index with a property in a variable that starts at -1.\<close>

definition search :: "('a \<Rightarrow> bool) \<Rightarrow> 'a list \<Rightarrow> int" where
  "search P xs = (case List.find (\<lambda>i. P (xs ! i)) [0..<length xs] of None \<Rightarrow> -1 | Some i \<Rightarrow> int i)"

definition name_is :: "cptr \<Rightarrow> File \<Rightarrow> bool" where
  "name_is name f \<longleftrightarrow> c_string (file_name f) = chars name"

text \<open>The copy of a name: 255 bytes of the argument and a terminator.\<close>

definition copy_name :: "cptr \<Rightarrow> string" where
  "copy_name name = bytes_of name (MAX_FILENAME - 1) @ [NUL]"

definition no_blocks :: "u32 list" where
  "no_blocks = replicate MAX_BLOCK_NUMBER (-1)"

section \<open>Operations\<close>

fun kfree_all :: "u64 list \<Rightarrow> 'a kmem_scheme \<Rightarrow> 'a kmem_scheme option" where
  "kfree_all [] s = Some s"
| "kfree_all (p # ps) s = do { s \<leftarrow> kfree p s; kfree_all ps s }"

text \<open>The loop that allocates the inodes: the pointers it got, and whether it got all of them.\<close>

fun alloc_inodes :: "nat \<Rightarrow> u64 list \<Rightarrow> 'a kmem_scheme \<Rightarrow> (bool \<times> u64 list \<times> 'a kmem_scheme) option" where
  "alloc_inodes 0 ps s = Some (True, ps, s)"
| "alloc_inodes (Suc n) ps s = do {
     (p, s) \<leftarrow> kmalloc sizeof_inode s;
     if p = 0 then Some (False, ps, s) else alloc_inodes n (ps @ [p]) s
   }"

definition fresh_vfs :: "u64 \<Rightarrow> VFS" where
  "fresh_vfs fp =
     \<lparr>root = \<lparr>dir_name = ''root'', files = [], files_ptr = fp, capacity = INITIAL_CAPACITY\<rparr>,
      superblock = \<lparr>magic = MYFS_MAGIC, block_size = of_nat BLOCK_SIZE, inode_count = of_nat MAX_FILES,
        free_blocks = of_nat MAX_DATABLOCKS, root_inode = 0\<rparr>,
      inode_table = replicate MAX_FILES \<lparr>mode = 0, inode_size = 0, inode_blocks = no_blocks\<rparr>,
      data_blocks = replicate MAX_DATABLOCKS (replicate BLOCK_SIZE NUL),
      total_files = 0, total_size = 0\<rparr>"

text \<open>Every failure frees what was allocated before and returns with \<open>vfs\<close> pointing to freed memory.\<close>

definition init_vfs :: "'a vfs_state_scheme \<Rightarrow> 'a vfs_state_scheme option" where
  "init_vfs s = do {
     (v, s) \<leftarrow> kmalloc sizeof_VFS s;
     let s = s\<lparr>vfs := v, vfs_obj := None\<rparr>;
     if v = 0 then Some s else do {
     (sb, s) \<leftarrow> kmalloc sizeof_superblock s;
     if sb = 0 then kfree v s else do {
     (all_inodes, ps, s) \<leftarrow> alloc_inodes MAX_FILES [] s;
     if \<not> all_inodes then kfree_all (ps @ [sb, v]) s else do {
     (r, s) \<leftarrow> kmalloc sizeof_Directory s;
     if r = 0 then kfree_all (ps @ [sb, v]) s else do {
     (fp, s) \<leftarrow> kmalloc (200 * sizeof_File) s;
     if fp = 0 then kfree_all (r # ps @ [sb, v]) s
     else Some (s\<lparr>vfs_obj := Some (fresh_vfs fp)\<rparr>)
     }}}}
   }"

text \<open>Doubling the capacity of the root directory.\<close>

definition grow_root :: "VFS \<Rightarrow> 'a vfs_state_scheme \<Rightarrow> (VFS \<times> 'a vfs_state_scheme) option" where
  "grow_root v s =
     (if file_count v \<ge> capacity (root v)
      then do {
        let cap = capacity (root v) * 2;
        (fp, s) \<leftarrow> krealloc (files_ptr (root v)) (word_of_int cap * sizeof_File) s;
        Some (v\<lparr>root := (root v)\<lparr>capacity := cap, files_ptr := fp\<rparr>\<rparr>, s)
      }
      else Some (v, s))"

definition add_file :: "cptr \<Rightarrow> nat \<Rightarrow> VFS \<Rightarrow> VFS option" where
  "add_file name inode v =
     (if files_ptr (root v) = 0 then None
      else Some (v\<lparr>root := (root v)\<lparr>files := files (root v) @ [\<lparr>file_name = copy_name name, inode_number = of_nat inode\<rparr>]\<rparr>,
                   total_files := total_files v + 1\<rparr>))"

text \<open>
  Without a free block \<open>block_num\<close> is -1 and the code goes on. The blocks start 816 bytes into the structure, behind the two
  pointers and the hundred pointers to the inodes, so that the 4096 bytes of \<open>data_blocks[-1]\<close> are the 3280 bytes in front of the
  structure, its own header in the heap among them, and all of these pointers: the copy replaces \<open>root\<close>, \<open>superblock\<close> and the inode table by
  the bytes from 3280 on of what is copied, and the next statement follows \<open>root\<close>. That is the undefined result \<open>None\<close>.
\<close>

definition create_file :: "cptr \<Rightarrow> cptr \<Rightarrow> vtype \<Rightarrow> 'a vfs_state_scheme \<Rightarrow> (int \<times> 'a vfs_state_scheme) option" where
  "create_file name data VTYPE s = do {
     v \<leftarrow> vfs_obj s;
     (v, s) \<leftarrow> grow_root v s;
     let inode_num = search (\<lambda>n. mode n = 0) (inode_table v);
     if inode_num = -1 then Some (-1, s\<lparr>vfs_obj := Some v\<rparr>)
     else do {
       let block_num = search (\<lambda>b. b ! 0 = NUL) (data_blocks v);
       let i = nat inode_num;
       if block_num = -1 then None
       else do {
         let n = inode_table v ! i;
         let v = v\<lparr>inode_table := (inode_table v)[i := n\<lparr>mode := 420, inode_size := of_nat (length (chars data)),
                                                       inode_blocks := (inode_blocks n)[0 := word_of_int block_num]\<rparr>],
                   data_blocks := (data_blocks v)[nat block_num := bytes_of data BLOCK_SIZE]\<rparr>;
         v \<leftarrow> add_file name i v;
         let v = v\<lparr>total_size := total_size v + of_nat (length (chars data)),
                   superblock := (superblock v)\<lparr>free_blocks := free_blocks (superblock v) - 1,
                                                inode_count := inode_count (superblock v) - 1\<rparr>\<rparr>;
         Some (0, s\<lparr>vfs_obj := Some v\<rparr>)
       }
     }
   }"

text \<open>\<open>Some None\<close> is the result \<open>NULL\<close>, \<open>Some (Some d)\<close> a pointer to the block with the bytes \<open>d\<close>.\<close>

definition read_file :: "cptr \<Rightarrow> 'a vfs_state_scheme \<Rightarrow> string option option" where
  "read_file name s =
     (if vfs s = 0 then Some None
      else do {
        v \<leftarrow> vfs_obj s;
        let i = search (name_is name) (files (root v));
        if i = -1 then Some None
        else do {
          let inode_number = unat (inode_number (files (root v) ! nat i));
          if inode_number \<ge> length (inode_table v) then None
          else do {
            let inode = inode_table v ! inode_number;
            if mode inode = 493 then Some None
            else do {
              let block_number = inode_blocks inode ! 0;
              if block_number = -1 then Some None
              else if unat block_number \<ge> length (data_blocks v) then None
              else Some (Some (data_blocks v ! unat block_number))
            }
          }
        }
      })"

fun free_file_blocks :: "u32 list \<Rightarrow> VFS \<Rightarrow> VFS option" where
  "free_file_blocks [] v = Some v"
| "free_file_blocks (blocknum # bs) v =
     (if blocknum \<noteq> -1
      then if unat blocknum < length (data_blocks v)
           then free_file_blocks bs
                  (v\<lparr>data_blocks := (data_blocks v)[unat blocknum := replicate BLOCK_SIZE NUL],
                     superblock := (superblock v)\<lparr>free_blocks := free_blocks (superblock v) + 1\<rparr>\<rparr>)
           else None
      else free_file_blocks bs v)"

text \<open>The loop that moves the entries behind \<open>i\<close> one position down.\<close>

function move_down :: "nat \<Rightarrow> 'a list \<Rightarrow> 'a list" where
  "move_down j fs = (if Suc j < length fs then move_down (Suc j) (fs[j := fs ! Suc j]) else butlast fs)"
  by auto
termination by (relation "measure (\<lambda>(j, fs). length fs - j)") auto
declare move_down.simps [simp del]

definition delete_file :: "cptr \<Rightarrow> 'a vfs_state_scheme \<Rightarrow> (int \<times> 'a vfs_state_scheme) option" where
  "delete_file name s = do {
     v \<leftarrow> vfs_obj s;
     let i = search (name_is name) (files (root v));
     if i = -1 then Some (-1, s)
     else do {
       let inode_num = unat (inode_number (files (root v) ! nat i));
       if inode_num \<ge> length (inode_table v) then None
       else do {
         v \<leftarrow> free_file_blocks (inode_blocks (inode_table v ! inode_num)) v;
         let v = v\<lparr>inode_table := (inode_table v)[inode_num := \<lparr>mode = 0, inode_size = 0, inode_blocks = no_blocks\<rparr>],
                   superblock := (superblock v)\<lparr>inode_count := inode_count (superblock v) + 1\<rparr>,
                   root := (root v)\<lparr>files := move_down (nat i) (files (root v))\<rparr>,
                   total_files := total_files v - 1\<rparr>;
         let v = v\<lparr>total_size := total_size v - ucast (inode_size (inode_table v ! inode_num))\<rparr>;
         Some (0, s\<lparr>vfs_obj := Some v\<rparr>)
       }
     }
   }"

text \<open>The test for an existing entry only prints a message. The new directory's own file list is not linked to
  anything; when no inode is free the code goes on with index -1.\<close>

definition create_directory :: "cptr \<Rightarrow> 'a vfs_state_scheme \<Rightarrow> (int \<times> 'a vfs_state_scheme) option" where
  "create_directory name s =
     (if length (chars name) > MAX_FILENAME then Some (-1, s)
      else do {
        v \<leftarrow> vfs_obj s;
        let inode_number = search (\<lambda>n. mode n = 0) (inode_table v);
        (dir, s) \<leftarrow> kmalloc sizeof_Directory s;
        if dir = 0 then Some (-1, s)
        else do {
          (dir_files, s) \<leftarrow> kmalloc (200 * sizeof_File) s;
          if dir_files = 0 then do { s \<leftarrow> kfree dir s; Some (-1, s) }
          else if inode_number = -1 then None
          else do {
            let i = nat inode_number;
            let v = v\<lparr>inode_table := (inode_table v)[i := \<lparr>mode = 493, inode_size = 0, inode_blocks = no_blocks\<rparr>]\<rparr>;
            (v, s) \<leftarrow> grow_root v s;
            if files_ptr (root v) = 0
            then do { s \<leftarrow> kfree_all [dir_files, dir] s; Some (-1, s\<lparr>vfs_obj := Some v\<rparr>) }
            else do {
              v \<leftarrow> add_file name i v;
              let v = v\<lparr>superblock := (superblock v)\<lparr>inode_count := inode_count (superblock v) - 1\<rparr>\<rparr>;
              Some (0, s\<lparr>vfs_obj := Some v\<rparr>)
            }
          }
        }
      })"

section \<open>Output\<close>

text \<open>Everything the console shows goes through \<open>kprintf\<close>; \<open>b\<close> is its uninitialised buffer.\<close>

definition display_all_files :: "string \<Rightarrow> 'a vfs_state_scheme \<Rightarrow> string \<Rightarrow> string option" where
  "display_all_files b s term = do {
     v \<leftarrow> vfs_obj s;
     (term, _) \<leftarrow> kprintf b (''--ALL FILES--'' @ [CHR 0x0A]) [] term;
     term \<leftarrow> fold (\<lambda>f t. Option.bind t (\<lambda>t. map_option fst (kprintf b ''%s '' [Va_str (c_string (file_name f))] t)))
               (files (root v)) (Some term);
     (term, _) \<leftarrow> kprintf b (''---------------'' @ [CHR 0x0A]) [] term;
     Some term
   }"

text \<open>The last entry with the name wins here.\<close>

definition display_content :: "string \<Rightarrow> cptr \<Rightarrow> 'a vfs_state_scheme \<Rightarrow> string \<Rightarrow> string option" where
  "display_content b name s term = do {
     v \<leftarrow> vfs_obj s;
     f \<leftarrow> List.find (name_is name) (rev (files (root v)));
     let i = unat (inode_number f);
     if i \<ge> length (inode_table v) then None
     else do {
       (term, _) \<leftarrow> kprintf b (''Content of file '' @ [CHR 0x27] @ ''%s'' @ [CHR 0x27] @ '':'' @ [CHR 0x0A]) [Va_str (chars name)] term;
       term \<leftarrow> fold (\<lambda>n t. Option.bind t (\<lambda>t.
                   if n = -1 then Some t
                   else if unat n \<ge> length (data_blocks v) then None
                   else map_option fst (kprintf b ''%s'' [Va_str (c_string (data_blocks v ! unat n))] t)))
                 (inode_blocks (inode_table v ! i)) (Some term);
       (term, _) \<leftarrow> kprintf b [CHR 0x0A] [] term;
       Some term
     }
   }"

section \<open>The self-test\<close>

text \<open>
  \<open>test_vfs\<close> test by test: whether the test passes, and the state behind it. A test that fails ends the suite.
  The literals of the code are followed by bytes that are not known, given by \<open>k\<close>; the messages on the console
  are left out, except for those of the two display functions.
\<close>

definition lit :: "(string \<Rightarrow> nat \<Rightarrow> char) \<Rightarrow> string \<Rightarrow> cptr" where
  "lit k cs = \<lparr>chars = cs, behind = k cs\<rparr>"

abbreviation (input) hello_txt :: string where "hello_txt \<equiv> ''hello.txt''"
abbreviation (input) test_txt :: string where "test_txt \<equiv> ''test.txt''"
abbreviation (input) file1_data :: string where "file1_data \<equiv> ''Hello, VFS!''"
abbreviation (input) file2_data :: string where "file2_data \<equiv> ''This is another file.''"
abbreviation (input) missing_txt :: string where "missing_txt \<equiv> ''does_not_exist.txt''"

definition test1_init :: "'a vfs_state_scheme \<Rightarrow> bool option" where
  "test1_init s =
     (if vfs s = 0 then Some False
      else do {
        v \<leftarrow> vfs_obj s;
        Some (file_count v = 0 \<and> total_files v = 0 \<and> total_size v = 0)
      })"

definition test2_create :: "(string \<Rightarrow> nat \<Rightarrow> char) \<Rightarrow> 'a vfs_state_scheme \<Rightarrow> (bool \<times> 'a vfs_state_scheme) option" where
  "test2_create k s = do {
     (result, s) \<leftarrow> create_file (lit k hello_txt) (lit k file1_data) VREG s;
     v \<leftarrow> vfs_obj s;
     Some (result = 0 \<and> file_count v = 1 \<and> total_files v = 1 \<and> total_size v = of_nat (length file1_data), s)
   }"

definition test3_read :: "(string \<Rightarrow> nat \<Rightarrow> char) \<Rightarrow> string \<Rightarrow> string \<Rightarrow> 'a vfs_state_scheme \<Rightarrow> bool option" where
  "test3_read k name expected s = do {
     content \<leftarrow> read_file (lit k name) s;
     Some (case content of None \<Rightarrow> False | Some d \<Rightarrow> c_string d = expected)
   }"

definition test4_missing :: "(string \<Rightarrow> nat \<Rightarrow> char) \<Rightarrow> 'a vfs_state_scheme \<Rightarrow> bool option" where
  "test4_missing k s = do {
     content \<leftarrow> read_file (lit k missing_txt) s;
     Some (content = None)
   }"

definition test5_second :: "(string \<Rightarrow> nat \<Rightarrow> char) \<Rightarrow> 'a vfs_state_scheme \<Rightarrow> (bool \<times> 'a vfs_state_scheme) option" where
  "test5_second k s = do {
     (result, s) \<leftarrow> create_file (lit k test_txt) (lit k file2_data) VREG s;
     v \<leftarrow> vfs_obj s;
     Some (result = 0 \<and> file_count v = 2 \<and> total_files v = 2, s)
   }"

definition test7_display :: "string \<Rightarrow> (string \<Rightarrow> nat \<Rightarrow> char) \<Rightarrow> 'a vfs_state_scheme \<Rightarrow> string \<Rightarrow> string option" where
  "test7_display b k s term = do {
     term \<leftarrow> display_all_files b s term;
     display_content b (lit k hello_txt) s term
   }"

definition test9_directory :: "(string \<Rightarrow> nat \<Rightarrow> char) \<Rightarrow> 'a vfs_state_scheme \<Rightarrow> (bool \<times> 'a vfs_state_scheme) option" where
  "test9_directory k s = do {
     (result, s) \<leftarrow> create_directory (lit k ''mydir'') s;
     v \<leftarrow> vfs_obj s;
     Some (result = 0 \<and> file_count v = 3 \<and> total_files v = 3, s)
   }"

definition test10_inode :: "(string \<Rightarrow> nat \<Rightarrow> char) \<Rightarrow> 'a vfs_state_scheme \<Rightarrow> bool option" where
  "test10_inode k s = do {
     v \<leftarrow> vfs_obj s;
     let i = search (name_is (lit k ''mydir'')) (files (root v));
     if i = -1 then Some False
     else let dir_inode = unat (inode_number (files (root v) ! nat i))
          in if dir_inode \<ge> length (inode_table v) then None
             else Some (mode (inode_table v ! dir_inode) = 493)
   }"

definition test11_delete :: "(string \<Rightarrow> nat \<Rightarrow> char) \<Rightarrow> 'a vfs_state_scheme \<Rightarrow> (bool \<times> 'a vfs_state_scheme) option" where
  "test11_delete k s = do {
     (result, s) \<leftarrow> delete_file (lit k hello_txt) s;
     content \<leftarrow> read_file (lit k hello_txt) s;
     v \<leftarrow> vfs_obj s;
     Some (result = 0 \<and> content = None \<and> file_count v = 2 \<and> total_files v = 2, s)
   }"

definition test12_delete_missing :: "(string \<Rightarrow> nat \<Rightarrow> char) \<Rightarrow> 'a vfs_state_scheme \<Rightarrow> (bool \<times> 'a vfs_state_scheme) option" where
  "test12_delete_missing k s = do {
     (result, s) \<leftarrow> delete_file (lit k missing_txt) s;
     Some (result = -1, s)
   }"

definition test13_remaining :: "(string \<Rightarrow> nat \<Rightarrow> char) \<Rightarrow> 'a vfs_state_scheme \<Rightarrow> bool option" where
  "test13_remaining k s = do {
     content \<leftarrow> read_file (lit k test_txt) s;
     dir \<leftarrow> read_file (lit k ''mydir'') s;
     Some (content \<noteq> None \<and> dir = None)
   }"

text \<open>The number of the test that fails, or 0; and the terminal at the end of a run without failure.\<close>

definition test_vfs :: "string \<Rightarrow> (string \<Rightarrow> nat \<Rightarrow> char) \<Rightarrow> 'a vfs_state_scheme \<Rightarrow> string \<Rightarrow> (nat \<times> string \<times> 'a vfs_state_scheme) option" where
  "test_vfs b k s term = do {
     ok \<leftarrow> test1_init s;
     if \<not> ok then Some (1, term, s) else do {
     (ok, s) \<leftarrow> test2_create k s;
     if \<not> ok then Some (2, term, s) else do {
     ok \<leftarrow> test3_read k hello_txt file1_data s;
     if \<not> ok then Some (3, term, s) else do {
     ok \<leftarrow> test4_missing k s;
     if \<not> ok then Some (4, term, s) else do {
     (ok, s) \<leftarrow> test5_second k s;
     if \<not> ok then Some (5, term, s) else do {
     ok \<leftarrow> test3_read k test_txt file2_data s;
     if \<not> ok then Some (6, term, s) else do {
     term \<leftarrow> test7_display b k s term;
     (ok, s) \<leftarrow> test9_directory k s;
     if \<not> ok then Some (9, term, s) else do {
     ok \<leftarrow> test10_inode k s;
     if \<not> ok then Some (10, term, s) else do {
     (ok, s) \<leftarrow> test11_delete k s;
     if \<not> ok then Some (11, term, s) else do {
     (ok, s) \<leftarrow> test12_delete_missing k s;
     if \<not> ok then Some (12, term, s) else do {
     ok \<leftarrow> test13_remaining k s;
     if \<not> ok then Some (13, term, s) else do {
     term \<leftarrow> display_all_files b s term;
     Some (0, term, s)
     }}}}}}}}}}}
   }"

section \<open>The invariant\<close>

text \<open>
  Every entry of the root directory has an inode of its own. The inode of a regular file names one block,
  which no other file uses and whose first byte is not zero, since that is how a free block is recognised.
  Every other inode and block is free.
\<close>

definition inode_of :: "VFS \<Rightarrow> File \<Rightarrow> myfs_inode" where
  "inode_of v f = inode_table v ! unat (inode_number f)"

definition block_of :: "VFS \<Rightarrow> File \<Rightarrow> u32" where
  "block_of v f = inode_blocks (inode_of v f) ! 0"

definition entry_ok :: "VFS \<Rightarrow> File \<Rightarrow> bool" where
  "entry_ok v f \<longleftrightarrow> unat (inode_number f) < 100 \<and>
     (mode (inode_of v f) = 493 \<and> block_of v f = -1 \<or>
      mode (inode_of v f) = 420 \<and> unat (block_of v f) < 50 \<and> data_blocks v ! unat (block_of v f) ! 0 \<noteq> NUL)"

definition vfs_wf :: "VFS \<Rightarrow> bool" where
  "vfs_wf v \<longleftrightarrow>
     length (inode_table v) = 100 \<and> length (data_blocks v) = 50 \<and> files_ptr (root v) \<noteq> 0 \<and> 200 \<le> capacity (root v) \<and>
     (\<forall>n \<in> set (inode_table v). \<exists>b. inode_blocks n = b # replicate 49 (-1)) \<and>
     (\<forall>f \<in> set (files (root v)). entry_ok v f) \<and> distinct (map inode_number (files (root v))) \<and>
     (\<forall>f \<in> set (files (root v)). \<forall>g \<in> set (files (root v)).
        mode (inode_of v f) = 420 \<longrightarrow> block_of v f = block_of v g \<longrightarrow> f = g) \<and>
     (\<forall>i < 100. mode (inode_table v ! i) \<noteq> 0 \<longrightarrow> (\<exists>f \<in> set (files (root v)). unat (inode_number f) = i)) \<and>
     (\<forall>k < 50. data_blocks v ! k ! 0 \<noteq> NUL \<longrightarrow>
        (\<exists>f \<in> set (files (root v)). mode (inode_of v f) = 420 \<and> unat (block_of v f) = k)) \<and>
     (\<forall>b \<in> set (data_blocks v). length b = 4096) \<and> (\<forall>f \<in> set (files (root v)). length (file_name f) = 256)"

text \<open>What a client sees: the names in order, and the content of those that are regular files.\<close>

definition content_of :: "VFS \<Rightarrow> File \<Rightarrow> string option" where
  "content_of v f = (if mode (inode_of v f) = 493 then None else Some (c_string (data_blocks v ! unat (block_of v f))))"

definition vfs_abs :: "VFS \<Rightarrow> (string \<times> string option) list" where
  "vfs_abs v = map (\<lambda>f. (c_string (file_name f), content_of v f)) (files (root v))"

fun del_entry :: "string \<Rightarrow> (string \<times> string option) list \<Rightarrow> (string \<times> string option) list" where
  "del_entry name [] = []"
| "del_entry name ((n, c) # xs) = (if n = name then xs else (n, c) # del_entry name xs)"

section \<open>Lemmas on the helpers\<close>

lemma search_cases:
  obtains (none) "search P xs = -1" "\<forall>x \<in> set xs. \<not> P x"
  | (some) i where "search P xs = int i" "i < length xs" "P (xs ! i)" "\<forall>j < i. \<not> P (xs ! j)"
proof (cases "List.find (\<lambda>i. P (xs ! i)) [0..<length xs]")
  case None
  then have "\<forall>x \<in> set xs. \<not> P x" by (auto simp: find_None_iff in_set_conv_nth)
  with None show thesis by (intro none) (simp_all add: search_def)
next
  case (Some i)
  then have "i < length xs \<and> P (xs ! i) \<and> (\<forall>j < i. \<not> P (xs ! j))" by (auto simp: find_Some_iff)
  with Some show thesis by (intro some[of i]) (simp_all add: search_def)
qed

lemma search_found:
  assumes "x \<in> set xs" and "P x"
  obtains i where "search P xs = int i" "i < length xs" "P (xs ! i)" "\<forall>j < i. \<not> P (xs ! j)"
  using assms by (cases rule: search_cases[of P xs]) auto

lemma c_string_append: "NUL \<notin> set cs \<Longrightarrow> c_string (cs @ NUL # rest) = cs"
  unfolding c_string_def by (subst takeWhile_append2) auto

lemma bytes_of_short: "length (chars p) < n \<Longrightarrow> \<exists>rest. bytes_of p n = chars p @ NUL # rest"
  by (cases "n - length (chars p)") (simp_all add: bytes_of_def)

lemma length_bytes_of [simp]: "length (bytes_of p n) = n"
  by (simp add: bytes_of_def)

lemma c_string_bytes:
  assumes "NUL \<notin> set (chars p)" and "length (chars p) < n"
  shows "c_string (bytes_of p n) = chars p"
  using bytes_of_short[OF assms(2)] c_string_append[OF assms(1)] by auto

lemma c_string_copy_name:
  assumes "NUL \<notin> set (chars p)" and "length (chars p) < 256"
  shows "c_string (copy_name p) = chars p"
proof (cases "length (chars p) = 255")
  case True
  then show ?thesis using c_string_append[OF assms(1), of "[]"] by (simp add: copy_name_def bytes_of_def)
next
  case False
  then obtain rest where "bytes_of p 255 = chars p @ NUL # rest" using bytes_of_short[of p 255] assms(2) by auto
  then show ?thesis using c_string_append[OF assms(1)] by (simp add: copy_name_def)
qed

lemma move_down_eq: "i < length fs \<Longrightarrow> move_down i fs = take i fs @ drop (Suc i) fs"
proof (induction i fs rule: move_down.induct)
  case (1 j fs)
  show ?case
  proof (cases "Suc j < length fs")
    case True
    from 1(1)[OF True] True have "move_down j fs = take (Suc j) (fs[j := fs ! Suc j]) @ drop (Suc (Suc j)) fs"
      by (subst move_down.simps) simp
    also have "take (Suc j) (fs[j := fs ! Suc j]) = take j fs @ [fs ! Suc j]" using True by (simp add: take_Suc_conv_app_nth)
    finally show ?thesis using True by (simp add: Cons_nth_drop_Suc)
  next
    case False
    then have "length fs = Suc j" using 1(2) by simp
    then show ?thesis by (subst move_down.simps) (simp add: butlast_conv_take)
  qed
qed

lemma vfs_obj_eq [simp]: "s\<lparr>vfs_obj := a\<rparr> = s\<lparr>vfs_obj := b\<rparr> \<longleftrightarrow> a = b"
  by (cases s) simp

lemma free_file_blocks_none: "free_file_blocks (replicate k (-1)) v = Some v"
  by (induction k) auto

lemma files_bound:
  assumes "vfs_wf v"
  shows "length (files (root v)) \<le> 100"
proof -
  let ?ns = "map unat (map inode_number (files (root v)))"
  have "distinct (map inode_number (files (root v)))" using assms by (simp add: vfs_wf_def)
  then have "distinct ?ns" by (subst distinct_map) (auto intro: inj_onI simp: word_unat_eq_iff)
  moreover have "set ?ns \<subseteq> {..<100}" using assms by (auto simp: vfs_wf_def entry_ok_def)
  ultimately have "length ?ns \<le> card {..<100 :: nat}" using card_mono[of "{..<100}" "set ?ns"] distinct_card by fastforce
  then show ?thesis by simp
qed

lemma unat_minus_1_u32 [simp]: "unat (-1 :: u32) = 4294967295"
  by (simp add: unsigned_minus_1_eq_mask mask_eq_exp_minus_1)

lemma free_inode:
  assumes "vfs_wf v" and "length (vfs_abs v) < 100"
  shows "\<exists>n \<in> set (inode_table v). mode n = 0"
proof (rule ccontr)
  assume a: "\<not> ?thesis"
  have "i \<in> set (map (\<lambda>f. unat (inode_number f)) (files (root v)))" if "i < 100" for i
  proof -
    have "mode (inode_table v ! i) \<noteq> 0" using a that assms(1) by (auto simp: vfs_wf_def)
    with assms(1) that obtain f where "f \<in> set (files (root v))" "unat (inode_number f) = i"
      unfolding vfs_wf_def by blast
    then show ?thesis by auto
  qed
  then have "{..<100} \<subseteq> set (map (\<lambda>f. unat (inode_number f)) (files (root v)))" by auto
  from card_mono[OF _ this] card_length[of "map (\<lambda>f. unat (inode_number f)) (files (root v))"] assms(2)
  show False by (simp add: vfs_abs_def)
qed

lemma free_block:
  assumes "vfs_wf v" and "length (filter (\<lambda>e. snd e \<noteq> None) (vfs_abs v)) < 50"
  shows "\<exists>b \<in> set (data_blocks v). b ! 0 = NUL"
proof (rule ccontr)
  assume a: "\<not> ?thesis"
  let ?fs = "filter (\<lambda>f. content_of v f \<noteq> None) (files (root v))"
  have "k \<in> set (map (\<lambda>f. unat (block_of v f)) ?fs)" if "k < 50" for k
  proof -
    have "data_blocks v ! k ! 0 \<noteq> NUL" using a that assms(1) by (auto simp: vfs_wf_def)
    with assms(1) that obtain f where "f \<in> set (files (root v))" "mode (inode_of v f) = 420" "unat (block_of v f) = k"
      unfolding vfs_wf_def by blast
    then show ?thesis by (auto simp: content_of_def)
  qed
  then have "{..<50} \<subseteq> set (map (\<lambda>f. unat (block_of v f)) ?fs)" by auto
  from card_mono[OF _ this] card_length[of "map (\<lambda>f. unat (block_of v f)) ?fs"] assms(2)
  show False by (simp add: vfs_abs_def filter_map comp_def)
qed

lemma grow_root_id: "vfs_wf v \<Longrightarrow> grow_root v s = Some (v, s)"
  using files_bound[of v] by (auto simp: grow_root_def file_count_def vfs_wf_def)
section \<open>The operations implement the abstract file system\<close>

lemma vfs_wfD:
  assumes "vfs_wf v"
  shows "length (inode_table v) = 100" "length (data_blocks v) = 50" "files_ptr (root v) \<noteq> 0"
    "n \<in> set (inode_table v) \<Longrightarrow> \<exists>b. inode_blocks n = b # replicate 49 (-1)"
    "f \<in> set (files (root v)) \<Longrightarrow> entry_ok v f"
    "b \<in> set (data_blocks v) \<Longrightarrow> length b = 4096" "f \<in> set (files (root v)) \<Longrightarrow> length (file_name f) = 256"
  using assms by (auto simp: vfs_wf_def)

lemma no_blocks_Cons: "no_blocks = -1 # replicate 49 (-1)"
  by (simp add: no_blocks_def flip: replicate_Suc)

lemma table_update:
  assumes "vfs_wf v" and "t = (inode_table v)[i := n]" and "\<exists>b. inode_blocks n = b # replicate 49 (-1)" and "m \<in> set t"
  shows "\<exists>b. inode_blocks m = b # replicate 49 (-1)"
  using assms(2-4) vfs_wfD(4)[OF assms(1), of m] set_update_subset_insert[of "inode_table v" i n] by blast

text \<open>Entries that keep their inode and block keep their content.\<close>

lemma entry_same:
  assumes "inode_of v' f = inode_of v f"
    and "mode (inode_of v f) = 420 \<Longrightarrow> data_blocks v' ! unat (block_of v f) = data_blocks v ! unat (block_of v f)"
    and "entry_ok v f"
  shows "block_of v' f = block_of v f" "entry_ok v' f" "content_of v' f = content_of v f"
  using assms by (auto simp: block_of_def entry_ok_def content_of_def)

lemma create_file_eq:
  assumes grow: "grow_root v s = Some (v, s)" "files_ptr (root v) \<noteq> 0" and obj: "vfs_obj s = Some v"
    and i: "search (\<lambda>n. mode n = 0) (inode_table v) = int i" and k: "search (\<lambda>b. b ! 0 = NUL) (data_blocks v) = int k"
  shows "\<exists>v'. create_file name data vt s = Some (0, s\<lparr>vfs_obj := Some v'\<rparr>) \<and>
    root v' = (root v)\<lparr>files := files (root v) @ [\<lparr>file_name = copy_name name, inode_number = of_nat i\<rparr>]\<rparr> \<and>
    inode_table v' = (inode_table v)[i := (inode_table v ! i)\<lparr>mode := 420, inode_size := of_nat (length (chars data)),
      inode_blocks := (inode_blocks (inode_table v ! i))[0 := of_nat k]\<rparr>] \<and>
    data_blocks v' = (data_blocks v)[k := bytes_of data 4096] \<and>
    total_files v' = total_files v + 1 \<and> total_size v' = total_size v + of_nat (length (chars data))"
  using grow(2)
  by (simp add: create_file_def obj grow(1) i k add_file_def Let_def)

text \<open>A new entry with an inode that was free.\<close>

lemma add_wf:
  assumes wf: "vfs_wf v" and i: "i < 100" "mode (inode_table v ! i) = 0" and n: "\<exists>b. inode_blocks n = b # replicate 49 (-1)"
    and g: "unat (inode_number g) = i" "length (file_name g) = 256"
    and v': "root v' = (root v)\<lparr>files := files (root v) @ [g]\<rparr>" "inode_table v' = (inode_table v)[i := n]" "length (data_blocks v') = 50"
      "\<forall>b \<in> set (data_blocks v'). length b = 4096"
    and same: "\<And>f. f \<in> set (files (root v)) \<Longrightarrow> mode (inode_of v f) = 420 \<Longrightarrow>
      data_blocks v' ! unat (block_of v f) = data_blocks v ! unat (block_of v f)"
    and new: "entry_ok v' g" and fresh: "\<And>f. f \<in> set (files (root v)) \<Longrightarrow> mode n = 420 \<Longrightarrow> block_of v f \<noteq> block_of v' g"
    and used: "\<And>k. k < 50 \<Longrightarrow> data_blocks v' ! k ! 0 \<noteq> NUL \<Longrightarrow> data_blocks v ! k ! 0 \<noteq> NUL \<or> mode n = 420 \<and> unat (block_of v' g) = k"
  shows "vfs_wf v'" and "vfs_abs v' = vfs_abs v @ [(c_string (file_name g), content_of v' g)]"
proof -
  note w = vfs_wfD[OF wf]
  have old: "unat (inode_number f) \<noteq> i" "inode_of v' f = inode_of v f"
    "block_of v' f = block_of v f" "entry_ok v' f" "content_of v' f = content_of v f"
    if f: "f \<in> set (files (root v))" for f
  proof -
    have "mode (inode_of v f) \<noteq> 0" using w(5)[OF f] by (auto simp: entry_ok_def)
    then show "unat (inode_number f) \<noteq> i" using i(2) by (auto simp: inode_of_def)
    then show eq: "inode_of v' f = inode_of v f" by (simp add: inode_of_def v')
    from entry_same[OF eq same[OF f] w(5)[OF f]]
    show "block_of v' f = block_of v f" "entry_ok v' f" "content_of v' f = content_of v f" by auto
  qed
  have inew: "inode_of v' g = n" using i g w(1) by (simp add: inode_of_def v')
  have fs: "files (root v') = files (root v) @ [g]" by (simp add: v')
  have tab: "\<exists>b. inode_blocks m = b # replicate 49 (-1)" if m: "m \<in> set (inode_table v')" for m
    by (rule table_update[OF wf v'(2) n m])
  have "inode_number f \<noteq> inode_number g" if "f \<in> set (files (root v))" for f using old(1)[OF that] g by auto
  then have "inode_number g \<notin> inode_number ` set (files (root v))" by (metis imageE)
  then have dist: "distinct (map inode_number (files (root v')))" using wf by (simp add: vfs_wf_def fs)
  have sep: "block_of v f \<noteq> block_of v' g" if "f \<in> set (files (root v))" "mode (inode_of v f) = 420 \<or> mode n = 420" for f
    using that fresh new w(5)[OF that(1)] inew by (auto simp: entry_ok_def)
  have excl: "f = h" if "f \<in> set (files (root v'))" "h \<in> set (files (root v'))" "mode (inode_of v' f) = 420"
    "block_of v' f = block_of v' h" for f h
  proof -
    have "f = h" if "f \<in> set (files (root v))" "h \<in> set (files (root v))" "mode (inode_of v f) = 420" "block_of v f = block_of v h"
      using wf that unfolding vfs_wf_def by blast
    then show ?thesis using that sep old(2,3) inew unfolding fs by (auto dest: sym)
  qed
  have ent: "entry_ok v' f" if "f \<in> set (files (root v'))" for f using that old(4) new by (auto simp: fs)
  have rest: "length (inode_table v') = 100" "files_ptr (root v') \<noteq> 0" "200 \<le> capacity (root v')"
    using wf by (auto simp: v' vfs_wf_def)
  have usedi: "\<exists>f \<in> set (files (root v')). unat (inode_number f) = j" if "j < 100" "mode (inode_table v' ! j) \<noteq> 0" for j
    using that wf g by (cases "j = i") (auto simp: fs v' vfs_wf_def)
  have usedb: "\<exists>f \<in> set (files (root v')). mode (inode_of v' f) = 420 \<and> unat (block_of v' f) = j"
    if j: "j < 50" "data_blocks v' ! j ! 0 \<noteq> NUL" for j
    using used[OF j]
  proof
    assume "data_blocks v ! j ! 0 \<noteq> NUL"
    with j(1) wf obtain f where "f \<in> set (files (root v))" "mode (inode_of v f) = 420" "unat (block_of v f) = j"
      unfolding vfs_wf_def by blast
    then show ?thesis using old(2,3) by (auto simp: fs)
  qed (use inew in \<open>auto simp: fs\<close>)
  have names: "\<forall>f \<in> set (files (root v')). length (file_name f) = 256" using w(7) g(2) by (auto simp: fs)
  show "vfs_wf v'" unfolding vfs_wf_def using rest v'(3,4) tab ent dist excl usedi usedb names by blast
  show "vfs_abs v' = vfs_abs v @ [(c_string (file_name g), content_of v' g)]"
    using old(5) by (simp add: vfs_abs_def fs)
qed

lemma create_wf:
  assumes wf: "vfs_wf v" and i: "i < 100" "mode (inode_table v ! i) = 0" and k: "k < 50" "data_blocks v ! k ! 0 = NUL"
    and n: "mode n = 420" "inode_blocks n = of_nat k # replicate 49 (-1)" and d: "d ! 0 \<noteq> NUL" "length d = 4096"
    and g: "unat (inode_number g) = i" "length (file_name g) = 256"
    and v': "root v' = (root v)\<lparr>files := files (root v) @ [g]\<rparr>" "inode_table v' = (inode_table v)[i := n]"
      "data_blocks v' = (data_blocks v)[k := d]"
  shows "vfs_wf v'" and "vfs_abs v' = vfs_abs v @ [(c_string (file_name g), Some (c_string d))]"
proof -
  note w = vfs_wfD[OF wf]
  have uk: "unat (of_nat k :: u32) = k" using k(1) by (simp add: unat_of_nat_small)
  have nk: "unat (block_of v f) \<noteq> k" if "f \<in> set (files (root v))" for f
    using w(5)[OF that] k by (auto simp: entry_ok_def)
  have new: "block_of v' g = of_nat k" "entry_ok v' g" "content_of v' g = Some (c_string d)"
    using i k n d g uk w(1,2) by (auto simp: inode_of_def block_of_def entry_ok_def content_of_def v')
  have *: "block_of v f \<noteq> block_of v' g" "data_blocks v' ! unat (block_of v f) = data_blocks v ! unat (block_of v f)"
    if "f \<in> set (files (root v))" for f using nk[OF that] new(1) uk by (auto simp: v')
  have used: "data_blocks v ! j ! 0 \<noteq> NUL \<or> mode n = 420 \<and> unat (block_of v' g) = j"
    if "data_blocks v' ! j ! 0 \<noteq> NUL" for j
    using that n new uk by (cases "j = k") (auto simp: v')
  have len: "length (data_blocks v') = 50" "\<forall>b \<in> set (data_blocks v'). length b = 4096"
    using w(2,6) d(2) set_update_subset_insert[of "data_blocks v" k d] by (auto simp: v')
  have nb: "\<exists>b. inode_blocks n = b # replicate 49 (-1)" using n by simp
  show "vfs_wf v'" "vfs_abs v' = vfs_abs v @ [(c_string (file_name g), Some (c_string d))]"
    using add_wf[OF wf i nb g v'(1,2) len *(2) new(2) *(1) used] new(3) by auto
qed

lemma mkdir_wf:
  assumes wf: "vfs_wf v" and i: "i < 100" "mode (inode_table v ! i) = 0" and n: "mode n = 493" "inode_blocks n = no_blocks"
    and g: "unat (inode_number g) = i" "length (file_name g) = 256"
    and v': "root v' = (root v)\<lparr>files := files (root v) @ [g]\<rparr>" "inode_table v' = (inode_table v)[i := n]"
      "data_blocks v' = data_blocks v"
  shows "vfs_wf v'" and "vfs_abs v' = vfs_abs v @ [(c_string (file_name g), None)]"
proof -
  note w = vfs_wfD[OF wf]
  have new: "entry_ok v' g" "content_of v' g = None"
    using i n g w(1) by (auto simp: inode_of_def block_of_def entry_ok_def content_of_def v' no_blocks_Cons)
  have len: "length (data_blocks v') = 50" "\<forall>b \<in> set (data_blocks v'). length b = 4096" using w(2,6) by (auto simp: v')
  have nb: "\<exists>b. inode_blocks n = b # replicate 49 (-1)" using n by (simp add: no_blocks_Cons)
  show "vfs_wf v'" "vfs_abs v' = vfs_abs v @ [(c_string (file_name g), None)]"
    using add_wf[OF wf i nb g v'(1,2) len _ new(1)] new(2) n(1) by (auto simp: v'(3))
qed

lemma create_file_correct:
  assumes wf: "vfs_wf v" and obj: "vfs_obj s = Some v" and name: "NUL \<notin> set (chars name)" "length (chars name) < 256"
    and data: "NUL \<notin> set (chars data)" "chars data \<noteq> []" "length (chars data) < 4096"
    and room: "length (vfs_abs v) < 100" "length (filter (\<lambda>e. snd e \<noteq> None) (vfs_abs v)) < 50"
  shows "\<exists>v'. create_file name data vt s = Some (0, s\<lparr>vfs_obj := Some v'\<rparr>) \<and> vfs_wf v' \<and>
    vfs_abs v' = vfs_abs v @ [(chars name, Some (chars data))] \<and> total_files v' = total_files v + 1 \<and>
    total_size v' = total_size v + of_nat (length (chars data))"
proof -
  obtain i where i: "search (\<lambda>n. mode n = 0) (inode_table v) = int i" "i < 100" "mode (inode_table v ! i) = 0"
    using free_inode[OF wf room(1)] search_found[of _ "inode_table v" "\<lambda>n. mode n = 0"] vfs_wfD(1)[OF wf] by metis
  obtain k where k: "search (\<lambda>b. b ! 0 = NUL) (data_blocks v) = int k" "k < 50" "data_blocks v ! k ! 0 = NUL"
    using free_block[OF wf room(2)] search_found[of _ "data_blocks v" "\<lambda>b. b ! 0 = NUL"] vfs_wfD(2)[OF wf] by metis
  obtain b where b: "inode_blocks (inode_table v ! i) = b # replicate 49 (-1)"
    using vfs_wfD(4)[OF wf, of "inode_table v ! i"] vfs_wfD(1)[OF wf] i(2) by auto
  let ?n = "(inode_table v ! i)\<lparr>mode := 420, inode_size := of_nat (length (chars data)),
    inode_blocks := (inode_blocks (inode_table v ! i))[0 := of_nat k]\<rparr>"
  let ?g = "\<lparr>file_name = copy_name name, inode_number = of_nat i\<rparr>"
  have n: "mode ?n = 420" "inode_blocks ?n = of_nat k # replicate 49 (-1)" by (simp_all add: b)
  have d: "bytes_of data 4096 ! 0 \<noteq> NUL"
    using data bytes_of_short[OF data(3)] by (cases "chars data") auto
  have g: "unat (inode_number ?g) = i" "length (file_name ?g) = 256" using i(2) by (simp_all add: unat_of_nat_small copy_name_def)
  note cs = c_string_copy_name[OF name] c_string_bytes[OF data(1,3)]
  obtain v' where "create_file name data vt s = Some (0, s\<lparr>vfs_obj := Some v'\<rparr>)" "total_files v' = total_files v + 1"
      "total_size v' = total_size v + of_nat (length (chars data))" and v': "root v' = (root v)\<lparr>files := files (root v) @ [?g]\<rparr>"
      "inode_table v' = (inode_table v)[i := ?n]" "data_blocks v' = (data_blocks v)[k := bytes_of data 4096]"
    using create_file_eq[OF grow_root_id[OF wf] vfs_wfD(3)[OF wf] obj i(1) k(1), of name data vt] by blast
  with create_wf[OF wf i(2,3) k(2,3) n d length_bytes_of g v'] cs show ?thesis by auto
qed

lemma before_first:
  assumes "\<forall>j < i. \<not> P (xs ! j)" and "i < length xs"
  shows "\<forall>x \<in> set (take i xs). \<not> P x"
proof
  fix x assume "x \<in> set (take i xs)"
  then obtain j where "j < i" "x = xs ! j" using assms(2) by (auto simp: in_set_conv_nth)
  with assms(1) show "\<not> P x" by simp
qed

lemma map_of_search:
  "map_of (map (\<lambda>f. (nm f, ct f)) fs) k =
    (if search (\<lambda>f. nm f = k) fs = -1 then None else Some (ct (fs ! nat (search (\<lambda>f. nm f = k) fs))))"
proof (cases rule: search_cases[of "\<lambda>f. nm f = k" fs])
  case none
  then show ?thesis by (auto simp: map_of_eq_None_iff)
next
  case (some i)
  let ?m = "map (\<lambda>f. (nm f, ct f))"
  have fs: "fs = take i fs @ fs ! i # drop (Suc i) fs" by (rule id_take_nth_drop[OF some(2)])
  have "\<forall>f \<in> set (take i fs). nm f \<noteq> k" using before_first[OF some(4) some(2)] by blast
  then have "map_of (?m (take i fs)) k = None" by (auto simp: map_of_eq_None_iff)
  then have "map_of (?m (take i fs @ fs ! i # drop (Suc i) fs)) k = Some (ct (fs ! i))"
    using some(3) by (simp add: map_add_def)
  with fs some(1) show ?thesis by simp
qed

lemma del_entry_search:
  assumes "search (\<lambda>f. nm f = k) fs = int i"
  shows "del_entry k (map (\<lambda>f. (nm f, ct f)) fs) = map (\<lambda>f. (nm f, ct f)) (take i fs @ drop (Suc i) fs)"
proof -
  have i: "i < length fs" "nm (fs ! i) = k" "\<forall>j < i. nm (fs ! j) \<noteq> k"
    using assms by (cases rule: search_cases[of "\<lambda>f. nm f = k" fs]; simp)+
  have app: "del_entry k (xs @ ys) = xs @ del_entry k ys" if "\<forall>x \<in> set xs. fst x \<noteq> k" for xs ys
    using that by (induction xs) auto
  have "\<forall>x \<in> set (map (\<lambda>f. (nm f, ct f)) (take i fs)). fst x \<noteq> k" using before_first[OF i(3) i(1)] by auto
  from app[OF this, of "map (\<lambda>f. (nm f, ct f)) (fs ! i # drop (Suc i) fs)"] i(2) id_take_nth_drop[OF i(1)]
  show ?thesis by (metis (no_types, lifting) del_entry.simps(2) list.simps(9) map_append)
qed

lemma name_search: "search (name_is name) fs = search (\<lambda>f. c_string (file_name f) = chars name) fs"
  by (simp add: name_is_def [abs_def])

text \<open>The result of \<open>read_file\<close>, as a C string.\<close>

definition read_string :: "cptr \<Rightarrow> 'a vfs_state_scheme \<Rightarrow> string option option" where
  "read_string name s = map_option (map_option c_string) (read_file name s)"

lemma read_file_correct:
  assumes wf: "vfs_wf v" and obj: "vfs_obj s = Some v" "vfs s \<noteq> 0"
  shows "read_string name s = Some (Option.bind (map_of (vfs_abs v) (chars name)) (\<lambda>c. c))"
proof (cases rule: search_cases[of "name_is name" "files (root v)"])
  case none
  then show ?thesis using obj
    by (simp add: read_string_def read_file_def vfs_abs_def map_of_search name_search[symmetric])
next
  case (some i)
  let ?f = "files (root v) ! i"
  have f: "?f \<in> set (files (root v))" using some(2) by simp
  have m: "map_of (vfs_abs v) (chars name) = Some (content_of v ?f)"
    using some(1) by (simp add: vfs_abs_def map_of_search name_search[symmetric])
  have e: "entry_ok v ?f" by (rule vfs_wfD(5)[OF wf f])
  then have "unat (inode_number ?f) < length (inode_table v)" by (simp add: entry_ok_def vfs_wfD(1)[OF wf])
  moreover have "mode (inode_of v ?f) \<noteq> 493 \<Longrightarrow> unat (block_of v ?f) < length (data_blocks v) \<and> block_of v ?f \<noteq> -1"
    using e vfs_wfD(2)[OF wf] by (auto simp: entry_ok_def)
  ultimately show ?thesis using obj some(1) m
    by (auto simp: read_string_def read_file_def content_of_def inode_of_def block_of_def)
qed

lemma delete_file_eq:
  assumes wf: "vfs_wf v" and obj: "vfs_obj s = Some v" and i: "search (name_is name) (files (root v)) = int i"
    and f: "f = files (root v) ! i" "f \<in> set (files (root v))"
  shows "\<exists>v'. delete_file name s = Some (0, s\<lparr>vfs_obj := Some v'\<rparr>) \<and>
    root v' = (root v)\<lparr>files := move_down i (files (root v))\<rparr> \<and>
    inode_table v' = (inode_table v)[unat (inode_number f) := \<lparr>mode = 0, inode_size = 0, inode_blocks = no_blocks\<rparr>] \<and>
    data_blocks v' = (if block_of v f = -1 then data_blocks v else (data_blocks v)[unat (block_of v f) := replicate 4096 NUL]) \<and>
    total_files v' = total_files v - 1 \<and> total_size v' = total_size v"
proof -
  have e: "entry_ok v f" by (rule vfs_wfD(5)[OF wf f(2)])
  then have n: "unat (inode_number f) < length (inode_table v)" by (simp add: entry_ok_def vfs_wfD(1)[OF wf])
  then obtain b where b: "inode_blocks (inode_of v f) = b # replicate 49 (-1)"
    using vfs_wfD(4)[OF wf, of "inode_of v f"] by (auto simp: inode_of_def)
  then have "block_of v f = b" by (simp add: block_of_def)
  moreover from this e have "b \<noteq> -1 \<Longrightarrow> unat b < length (data_blocks v)" using vfs_wfD(2)[OF wf] by (auto simp: entry_ok_def)
  moreover have "inode_blocks (inode_table v ! unat (inode_number f)) = b # replicate 49 (-1)" using b by (simp add: inode_of_def)
  ultimately show ?thesis using n i f(1)
    by (auto simp: delete_file_def obj free_file_blocks_none Let_def)
qed

lemma delete_wf:
  assumes wf: "vfs_wf v" and i: "i < length (files (root v))" and f: "f = files (root v) ! i"
    and v': "root v' = (root v)\<lparr>files := take i (files (root v)) @ drop (Suc i) (files (root v))\<rparr>"
      "inode_table v' = (inode_table v)[unat (inode_number f) := \<lparr>mode = 0, inode_size = 0, inode_blocks = no_blocks\<rparr>]"
      "data_blocks v' = (if block_of v f = -1 then data_blocks v else (data_blocks v)[unat (block_of v f) := replicate 4096 NUL])"
  shows "vfs_wf v'" and "vfs_abs v' = map (\<lambda>g. (c_string (file_name g), content_of v g)) (files (root v'))"
proof -
  note w = vfs_wfD[OF wf]
  let ?fs = "files (root v)"
  have split: "?fs = take i ?fs @ f # drop (Suc i) ?fs" unfolding f by (rule id_take_nth_drop[OF i])
  have fs': "files (root v') = take i ?fs @ drop (Suc i) ?fs" by (simp add: v')
  have fin: "f \<in> set ?fs" using i f by simp
  have dist: "distinct (map inode_number ?fs)" using wf by (simp add: vfs_wf_def)
  then have "distinct (map inode_number (take i ?fs @ f # drop (Suc i) ?fs))" by (simp only: split[symmetric])
  then have dist': "distinct (map inode_number (files (root v')))"
    and nf: "inode_number f \<notin> inode_number ` set (files (root v'))" by (auto simp: fs')
  have ne: "inode_number g \<noteq> inode_number f" if "g \<in> set (files (root v'))" for g using nf that by (metis imageI)
  have sub: "g \<in> set ?fs" if "g \<in> set (files (root v'))" for g
    using that by (auto simp: fs' dest: in_set_takeD in_set_dropD)
  have sup: "g \<in> set (files (root v'))" if "g \<in> set ?fs" "g \<noteq> f" for g
    using that by (subst (asm) split) (auto simp: fs')
  have excl: "h = g" if "g \<in> set ?fs" "h \<in> set ?fs" "mode (inode_of v h) = 420" "block_of v h = block_of v g" for g h
    using wf that unfolding vfs_wf_def by blast
  have old: "inode_of v' g = inode_of v g" "block_of v' g = block_of v g" "entry_ok v' g" "content_of v' g = content_of v g"
    if g: "g \<in> set (files (root v'))" for g
  proof -
    have "unat (inode_number g) \<noteq> unat (inode_number f)" using ne[OF g] by (simp add: word_unat_eq_iff)
    then show same: "inode_of v' g = inode_of v g" by (simp add: inode_of_def v')
    have "data_blocks v' ! unat (block_of v g) = data_blocks v ! unat (block_of v g)" if m: "mode (inode_of v g) = 420"
    proof (cases "block_of v f = block_of v g")
      case True
      from excl[OF fin sub[OF g] m True[symmetric]] ne[OF g] show ?thesis by simp
    next
      case False
      then show ?thesis by (simp add: v' word_unat_eq_iff)
    qed
    from entry_same[OF same this w(5)[OF sub[OF g]]]
    show "block_of v' g = block_of v g" "entry_ok v' g" "content_of v' g = content_of v g" by auto
  qed
  have tab: "\<exists>b. inode_blocks m = b # replicate 49 (-1)" if m: "m \<in> set (inode_table v')" for m
    by (rule table_update[OF wf v'(2) _ m]) (simp add: no_blocks_Cons)
  have usedi: "\<exists>g \<in> set (files (root v')). unat (inode_number g) = j" if j: "j < 100" "mode (inode_table v' ! j) \<noteq> 0" for j
  proof -
    have "j \<noteq> unat (inode_number f)" using j w(1) by (auto simp: v')
    then obtain g where "g \<in> set ?fs" "unat (inode_number g) = j" using j wf unfolding vfs_wf_def v' by (metis nth_list_update_neq)
    then show ?thesis using sup[of g] \<open>j \<noteq> unat (inode_number f)\<close> by auto
  qed
  have usedb: "\<exists>g \<in> set (files (root v')). mode (inode_of v' g) = 420 \<and> unat (block_of v' g) = j"
    if j: "j < 50" "data_blocks v' ! j ! 0 \<noteq> NUL" for j
  proof -
    have "j \<noteq> unat (block_of v f)" using j w(2) by (auto simp: v' split: if_splits)
    moreover from this have "data_blocks v ! j ! 0 \<noteq> NUL" using j by (auto simp: v' split: if_splits)
    then obtain g where g: "g \<in> set ?fs" "mode (inode_of v g) = 420" "unat (block_of v g) = j"
      using j(1) wf unfolding vfs_wf_def by blast
    ultimately have "g \<in> set (files (root v'))" using sup[of g] by auto
    then show ?thesis using g old(1,2) by auto
  qed
  have excl': "g = h" if "g \<in> set (files (root v'))" "h \<in> set (files (root v'))" "mode (inode_of v' g) = 420"
    "block_of v' g = block_of v' h" for g h
    using excl[of h g] that sub old(1,2) by metis
  have rest: "length (inode_table v') = 100" "length (data_blocks v') = 50" "files_ptr (root v') \<noteq> 0" "200 \<le> capacity (root v')"
    using wf by (auto simp: v' vfs_wf_def)
  have lens: "\<forall>b \<in> set (data_blocks v'). length b = 4096" "\<forall>g \<in> set (files (root v')). length (file_name g) = 256"
    using w(6,7) sub set_update_subset_insert[of "data_blocks v" "unat (block_of v f)"] by (auto simp: v'(3)) fastforce
  show "vfs_wf v'" unfolding vfs_wf_def using rest tab old(3) dist' excl' usedi usedb lens by blast
  show "vfs_abs v' = map (\<lambda>g. (c_string (file_name g), content_of v g)) (files (root v'))"
    using old(4) by (simp add: vfs_abs_def)
qed

lemma delete_file_correct:
  assumes wf: "vfs_wf v" and obj: "vfs_obj s = Some v"
  shows "if chars name \<in> fst ` set (vfs_abs v)
    then \<exists>v'. delete_file name s = Some (0, s\<lparr>vfs_obj := Some v'\<rparr>) \<and> vfs_wf v' \<and>
      vfs_abs v' = del_entry (chars name) (vfs_abs v) \<and> total_files v' = total_files v - 1 \<and> total_size v' = total_size v
    else delete_file name s = Some (-1, s)"
proof (cases rule: search_cases[of "name_is name" "files (root v)"])
  case none
  then show ?thesis using obj by (auto simp: delete_file_def vfs_abs_def name_is_def)
next
  case (some i)
  let ?f = "files (root v) ! i"
  have fin: "?f \<in> set (files (root v))" using some(2) by simp
  obtain v' where d: "delete_file name s = Some (0, s\<lparr>vfs_obj := Some v'\<rparr>)" "total_files v' = total_files v - 1" "total_size v' = total_size v"
      "root v' = (root v)\<lparr>files := take i (files (root v)) @ drop (Suc i) (files (root v))\<rparr>"
      "inode_table v' = (inode_table v)[unat (inode_number ?f) := \<lparr>mode = 0, inode_size = 0, inode_blocks = no_blocks\<rparr>]"
      "data_blocks v' = (if block_of v ?f = -1 then data_blocks v else (data_blocks v)[unat (block_of v ?f) := replicate 4096 NUL])"
    using delete_file_eq[OF wf obj some(1) refl fin] move_down_eq[OF some(2)] by auto
  note dw = delete_wf[OF wf some(2) refl d(4-6)]
  have "del_entry (chars name) (vfs_abs v) = map (\<lambda>g. (c_string (file_name g), content_of v g)) (files (root v'))"
    using del_entry_search[where nm = "\<lambda>f. c_string (file_name f)" and ct = "content_of v"] some(1) d(4)
    by (simp add: vfs_abs_def name_search)
  then have "del_entry (chars name) (vfs_abs v) = vfs_abs v'" using dw(2) by simp
  moreover have "chars name \<in> fst ` set (vfs_abs v)"
    using some(3) fin by (force simp: vfs_abs_def name_is_def)
  ultimately show ?thesis using d(1-3) dw(1) by auto
qed

section \<open>Initialisation and directories: enough heap\<close>

text \<open>\<open>heap_room s n\<close>: no block of the heap is free and at least \<open>n\<close> bytes are left above the break.\<close>

definition heap_room :: "'a kmem_scheme \<Rightarrow> nat \<Rightarrow> bool" where
  "heap_room s n \<longleftrightarrow> (\<exists>bs live. heap_ok s bs live \<and> (\<forall>b \<in> set bs. live (b + 40) \<noteq> None)) \<and>
     unat (brk s) + n \<le> unat (endp s) \<and> unat (endp s) + 0x100000 < 2 ^ 64"

lemma heap_room_init:
  assumes "heap s \<noteq> 0" and "unat (heap s) + 0x1100000 < 2 ^ 64"
  shows "heap_room (kmem_init s) 0x1000000"
proof -
  have "heap_ok (kmem_init s) [] Map.empty" using assms by (intro heap_ok_init) auto
  then show ?thesis using assms by (auto simp: heap_room_def kmem_init_def unat_add_nowrap intro!: exI[of _ "[]"])
qed

lemma heap_room_alloc:
  assumes r: "heap_room s n" and sz: "43 + unat sz \<le> n" "unat sz < 0xFFF00"
  shows "\<exists>p s'. kmalloc sz s = Some (p, s') \<and> p \<noteq> 0 \<and> heap_room s' (n - (43 + unat sz))"
proof -
  obtain bs live where ok: "heap_ok s bs live" and used: "\<forall>b \<in> set bs. live (b + 40) \<noteq> None"
    using r by (auto simp: heap_room_def)
  have top: "unat (brk s) + n \<le> unat (endp s)" "unat (endp s) + 0x100000 < 2 ^ 64" using r by (auto simp: heap_room_def)
  have fit: "unat (endp s) + 44 + unat sz < 2 ^ 64" using top(2) sz(2) by simp
  have al: "unat (align4 sz) \<le> unat sz + 3" using align4_bounds[of sz] fit by auto
  have none: "\<forall>b \<in> set bs. get_free s b = 0 \<or> get_size s b < align4 sz" using free_not_live[OF ok] used by blast
  have "\<not> unat (endp s) < unat (brk s) + 40 + unat (align4 sz)" using top(1) sz(1) al by simp
  with kmalloc_fresh[OF ok fit none] obtain s' where s': "kmalloc sz s = Some (brk s + 40, s')" "brk s + 40 \<noteq> 0"
      "heap_ok s' (bs @ [brk s]) (live(brk s + 40 \<mapsto> unat sz))" "brk s' = brk s + (40 + align4 sz)"
    by auto
  have "unat (brk s') = unat (brk s) + 40 + unat (align4 sz)"
    using s'(4) top al fit by (simp add: unat_add_nowrap)
  then have "unat (brk s') + (n - (43 + unat sz)) \<le> unat (endp s')"
    using top al sz kmalloc_endp[OF s'(1)] by simp
  moreover have "\<forall>b \<in> set (bs @ [brk s]). (live(brk s + 40 \<mapsto> unat sz)) (b + 40) \<noteq> None" using used by auto
  ultimately have "heap_room s' (n - (43 + unat sz))"
    using s'(3) top(2) kmalloc_endp[OF s'(1)] unfolding heap_room_def
    by (intro conjI exI[of _ "bs @ [brk s]"] exI[of _ "live(brk s + 40 \<mapsto> unat sz)"]) simp_all
  with s' show ?thesis by blast
qed

lemma kmalloc_vfs: "kmalloc sz s = Some (p, s') \<Longrightarrow> vfs s' = vfs s \<and> vfs_obj s' = vfs_obj s"
  by (auto simp: kmalloc_def extend_heap_def sbrk_def split_def Let_def Kmem.split_def
      set_free_def set_size_def set_next_def set_prev_def set_ptr_def split: option.splits if_splits prod.splits)

lemma heap_room_vfs [simp]: "heap_room (s\<lparr>vfs_obj := X\<rparr>) n = heap_room s n" "heap_room (s\<lparr>vfs := p\<rparr>) n = heap_room s n"
  by (simp_all add: heap_room_def heap_ok_def live_block_def heap_floor_def)

lemma heap_room_mono: "heap_room s n \<Longrightarrow> m \<le> n \<Longrightarrow> heap_room s m"
  by (auto simp: heap_room_def)

lemma alloc_inodes_room:
  assumes "heap_room s (251 * k + n)"
  shows "\<exists>ps' s'. alloc_inodes k ps s = Some (True, ps', s') \<and> heap_room s' n \<and> vfs s' = vfs s \<and> vfs_obj s' = vfs_obj s"
  using assms
proof (induction k arbitrary: ps s)
  case (Suc k)
  obtain p s1 where 1: "kmalloc 208 s = Some (p, s1)" "p \<noteq> 0" "heap_room s1 (251 * k + n)"
    using heap_room_alloc[OF Suc.prems, of 208] by auto
  from Suc.IH[OF 1(3), of "ps @ [p]"] kmalloc_vfs[OF 1(1)] 1 show ?case by auto
qed simp

lemma fresh_vfs_wf: "fp \<noteq> 0 \<Longrightarrow> vfs_wf (fresh_vfs fp)" and fresh_vfs_abs: "vfs_abs (fresh_vfs fp) = []"
  by (auto simp: vfs_wf_def fresh_vfs_def no_blocks_Cons vfs_abs_def)

lemma fresh_counts: "total_files (fresh_vfs fp) = 0" "total_size (fresh_vfs fp) = 0"
  by (simp_all add: fresh_vfs_def)

text \<open>The state in which the kernel uses the file system.\<close>

definition vfs_ready :: "'a vfs_state_scheme \<Rightarrow> VFS \<Rightarrow> nat \<Rightarrow> bool" where
  "vfs_ready s v n \<longleftrightarrow> vfs s \<noteq> 0 \<and> vfs_obj s = Some v \<and> vfs_wf v \<and> heap_room s n"

lemma init_vfs_ready:
  assumes "heap_room s (300000 + n)"
  shows "\<exists>s' fp. init_vfs s = Some s' \<and> vfs_ready s' (fresh_vfs fp) n"
proof -
  obtain v s1 where 1: "kmalloc 205632 s = Some (v, s1)" "v \<noteq> 0" "heap_room s1 (94325 + n)"
    using heap_room_alloc[OF assms, of 205632] by auto
  let ?s1 = "s1\<lparr>vfs := v, vfs_obj := None\<rparr>"
  obtain sb s2 where 2: "kmalloc 20 ?s1 = Some (sb, s2)" "sb \<noteq> 0" "heap_room s2 (94262 + n)"
    using heap_room_alloc[of ?s1 "94325 + n" 20] 1(3) by auto
  obtain ps s3 where 3: "alloc_inodes 100 [] s2 = Some (True, ps, s3)" "heap_room s3 (69162 + n)" "vfs s3 = v"
    using alloc_inodes_room[of s2 100 "69162 + n" "[]"] 2(3) kmalloc_vfs[OF 2(1)] by auto
  obtain r s4 where 4: "kmalloc 272 s3 = Some (r, s4)" "r \<noteq> 0" "heap_room s4 (68847 + n)"
    using heap_room_alloc[OF 3(2), of 272] by auto
  obtain fp s5 where 5: "kmalloc 52000 s4 = Some (fp, s5)" "fp \<noteq> 0" "heap_room s5 (16804 + n)"
    using heap_room_alloc[OF 4(3), of 52000] by auto
  have "vfs s5 \<noteq> 0" using kmalloc_vfs[OF 4(1)] kmalloc_vfs[OF 5(1)] 3(3) 1(2) by simp
  moreover have "init_vfs s = Some (s5\<lparr>vfs_obj := Some (fresh_vfs fp)\<rparr>)"
    using 1 2 3 4 5 by (simp add: init_vfs_def Let_def)
  ultimately show ?thesis using fresh_vfs_wf[OF 5(2)] heap_room_mono[OF 5(3), of n] by (auto simp: vfs_ready_def)
qed

lemma create_directory_correct:
  assumes rd: "vfs_ready s v (52358 + n)" and name: "NUL \<notin> set (chars name)" "length (chars name) < 256"
    and room: "length (vfs_abs v) < 100"
  shows "\<exists>s' v'. create_directory name s = Some (0, s') \<and> vfs_ready s' v' n \<and>
    vfs_abs v' = vfs_abs v @ [(chars name, None)] \<and> total_files v' = total_files v + 1 \<and> total_size v' = total_size v"
proof -
  have obj: "vfs_obj s = Some v" "vfs s \<noteq> 0" and wf: "vfs_wf v" and hr: "heap_room s (52358 + n)"
    using rd by (auto simp: vfs_ready_def)
  obtain d s1 where 1: "kmalloc 272 s = Some (d, s1)" "d \<noteq> 0" "heap_room s1 (52043 + n)"
    using heap_room_alloc[OF hr, of 272] by auto
  obtain fp s2 where 2: "kmalloc 52000 s1 = Some (fp, s2)" "fp \<noteq> 0" "heap_room s2 n"
    using heap_room_alloc[OF 1(3), of 52000] by auto
  have s2: "vfs s2 \<noteq> 0" using kmalloc_vfs[OF 1(1)] kmalloc_vfs[OF 2(1)] obj by simp
  obtain i where i: "search (\<lambda>n. mode n = 0) (inode_table v) = int i" "i < 100" "mode (inode_table v ! i) = 0"
    using free_inode[OF wf room] search_found[of _ "inode_table v" "\<lambda>n. mode n = 0"] vfs_wfD(1)[OF wf] by metis
  let ?n = "\<lparr>mode = 493, inode_size = 0, inode_blocks = no_blocks\<rparr>"
  let ?g = "\<lparr>file_name = copy_name name, inode_number = of_nat i\<rparr>"
  define v' where "v' = v\<lparr>root := (root v)\<lparr>files := files (root v) @ [?g]\<rparr>, inode_table := (inode_table v)[i := ?n],
    total_files := total_files v + 1, superblock := (superblock v)\<lparr>inode_count := inode_count (superblock v) - 1\<rparr>\<rparr>"
  have g: "unat (inode_number ?g) = i" "length (file_name ?g) = 256" using i(2) by (simp_all add: unat_of_nat_small copy_name_def)
  have m: "vfs_wf v'" "vfs_abs v' = vfs_abs v @ [(chars name, None)]"
    using mkdir_wf[of v i ?n ?g v'] wf i g c_string_copy_name[OF name] by (auto simp: v'_def)
  have "grow_root (v\<lparr>inode_table := (inode_table v)[i := ?n]\<rparr>) s2 = Some (v\<lparr>inode_table := (inode_table v)[i := ?n]\<rparr>, s2)"
    using files_bound[OF wf] wf by (auto simp: grow_root_def file_count_def vfs_wf_def)
  then have "create_directory name s = Some (0, s2\<lparr>vfs_obj := Some v'\<rparr>)"
    using name(2) obj 1 2 i(1) vfs_wfD(3)[OF wf] by (simp add: create_directory_def add_file_def v'_def)
  with m 2(3) s2 show ?thesis by (auto simp: vfs_ready_def v'_def)
qed

section \<open>The interface of the file system\<close>

text \<open>What a client may rely on, for a store whose state \<open>s\<close> stands for the list of entries \<open>xs\<close>.\<close>

definition good_name :: "cptr \<Rightarrow> bool" where
  "good_name p \<longleftrightarrow> NUL \<notin> set (chars p) \<and> length (chars p) < 256"

definition good_data :: "cptr \<Rightarrow> bool" where
  "good_data p \<longleftrightarrow> NUL \<notin> set (chars p) \<and> chars p \<noteq> [] \<and> length (chars p) < 4096"

definition has_room :: "(string \<times> string option) list \<Rightarrow> bool" where
  "has_room xs \<longleftrightarrow> length xs < 100 \<and> length (filter (\<lambda>e. snd e \<noteq> None) xs) < 50"

lemma map_of_del_entry: "distinct (map fst xs) \<Longrightarrow> map_of (del_entry k xs) n = (if n = k then None else map_of xs n)"
  by (induction k xs rule: del_entry.induct) (auto intro: map_of_eq_None_iff[THEN iffD2])

locale file_store =
  fixes stands :: "'s \<Rightarrow> (string \<times> string option) list \<Rightarrow> bool"
    and creat :: "cptr \<Rightarrow> cptr \<Rightarrow> 's \<Rightarrow> (int \<times> 's) option"
    and rd :: "cptr \<Rightarrow> 's \<Rightarrow> string option option"
    and del :: "cptr \<Rightarrow> 's \<Rightarrow> (int \<times> 's) option"
  assumes creat_ok: "stands s xs \<Longrightarrow> good_name name \<Longrightarrow> good_data data \<Longrightarrow> has_room xs \<Longrightarrow>
      \<exists>s'. creat name data s = Some (0, s') \<and> stands s' (xs @ [(chars name, Some (chars data))])"
    and rd_ok: "stands s xs \<Longrightarrow> rd name s = Some (Option.bind (map_of xs (chars name)) (\<lambda>c. c))"
    and del_ok: "stands s xs \<Longrightarrow> chars name \<in> fst ` set xs \<Longrightarrow>
      \<exists>s'. del name s = Some (0, s') \<and> stands s' (del_entry (chars name) xs)"
begin

lemma creat_then_rd:
  assumes "stands s xs" and "good_name name" and "good_data data" and "has_room xs" and "chars name \<notin> fst ` set xs"
  shows "\<exists>s'. creat name data s = Some (0, s') \<and> rd name s' = Some (Some (chars data)) \<and>
    (\<forall>other. chars other \<noteq> chars name \<longrightarrow> rd other s' = rd other s)"
proof -
  obtain s' where s': "creat name data s = Some (0, s')" "stands s' (xs @ [(chars name, Some (chars data))])"
    using creat_ok[OF assms(1-4)] by blast
  have "map_of (xs @ [(chars name, Some (chars data))]) (chars name) = Some (Some (chars data))"
    using assms(5) by (simp add: map_add_def map_of_eq_None_iff[symmetric])
  moreover have "map_of (xs @ [(chars name, Some (chars data))]) n = map_of xs n" if "n \<noteq> chars name" for n
    using that by (simp add: map_add_def split: option.split)
  ultimately show ?thesis using s' rd_ok[OF s'(2)] rd_ok[OF assms(1)] by auto
qed

lemma del_then_rd:
  assumes "stands s xs" and "chars name \<in> fst ` set xs" and "distinct (map fst xs)"
  shows "\<exists>s'. del name s = Some (0, s') \<and> rd name s' = Some None \<and> (\<forall>other. chars other \<noteq> chars name \<longrightarrow> rd other s' = rd other s)"
proof -
  obtain s' where s': "del name s = Some (0, s')" "stands s' (del_entry (chars name) xs)"
    using del_ok[OF assms(1,2)] by blast
  then show ?thesis using rd_ok[OF s'(2)] rd_ok[OF assms(1)] map_of_del_entry[OF assms(3)] by auto
qed

end

definition vfs_stands :: "nat \<Rightarrow> 'a vfs_state_scheme \<Rightarrow> (string \<times> string option) list \<Rightarrow> bool" where
  "vfs_stands n s xs \<longleftrightarrow> (\<exists>v. vfs_ready s v n \<and> vfs_abs v = xs)"

lemma vfs_create_stands:
  assumes "vfs_stands n s xs" and "good_name name" and "good_data data" and "has_room xs"
  shows "\<exists>s'. create_file name data vt s = Some (0, s') \<and> vfs_stands n s' (xs @ [(chars name, Some (chars data))])"
proof -
  obtain v where v: "vfs_ready s v n" "vfs_abs v = xs" using assms(1) by (auto simp: vfs_stands_def)
  then have "vfs_wf v" "vfs_obj s = Some v" by (auto simp: vfs_ready_def)
  from create_file_correct[OF this, of name data vt] assms(2-4) v obtain v' where
    "create_file name data vt s = Some (0, s\<lparr>vfs_obj := Some v'\<rparr>)" "vfs_wf v'" "vfs_abs v' = xs @ [(chars name, Some (chars data))]"
    by (auto simp: good_name_def good_data_def has_room_def)
  then show ?thesis using v by (auto simp: vfs_stands_def vfs_ready_def)
qed

lemma vfs_read_stands:
  "vfs_stands n s xs \<Longrightarrow> read_string name s = Some (Option.bind (map_of xs (chars name)) (\<lambda>c. c))"
  using read_file_correct[of _ s name] by (auto simp: vfs_stands_def vfs_ready_def)

lemma vfs_delete_stands:
  assumes "vfs_stands n s xs"
  shows "if chars name \<in> fst ` set xs then \<exists>s'. delete_file name s = Some (0, s') \<and> vfs_stands n s' (del_entry (chars name) xs)
    else delete_file name s = Some (-1, s)"
proof -
  obtain v where v: "vfs_ready s v n" "vfs_abs v = xs" using assms by (auto simp: vfs_stands_def)
  then have "vfs_wf v" "vfs_obj s = Some v" by (auto simp: vfs_ready_def)
  note d = delete_file_correct[OF this, of name]
  show ?thesis
  proof (cases "chars name \<in> fst ` set xs")
    case True
    then obtain v' where "delete_file name s = Some (0, s\<lparr>vfs_obj := Some v'\<rparr>)" "vfs_wf v'" "vfs_abs v' = del_entry (chars name) xs"
      using d v by auto
    then show ?thesis using v True by (auto simp: vfs_stands_def vfs_ready_def)
  qed (use d v in auto)
qed

lemma vfs_mkdir_stands:
  assumes "vfs_stands (52358 + n) s xs" and "good_name name" and "length xs < 100"
  shows "\<exists>s'. create_directory name s = Some (0, s') \<and> vfs_stands n s' (xs @ [(chars name, None)])"
  using assms create_directory_correct[of s _ n name] by (fastforce simp: vfs_stands_def good_name_def)

interpretation vs: file_store "vfs_stands n" "\<lambda>name data. create_file name data VREG" read_string delete_file for n
proof
  fix s :: "'a vfs_state_scheme" and xs and name :: cptr
  assume "vfs_stands n s xs" "chars name \<in> fst ` set xs"
  then show "\<exists>s'. delete_file name s = Some (0, s') \<and> vfs_stands n s' (del_entry (chars name) xs)"
    using vfs_delete_stands[of n s xs name] by simp
qed (use vfs_create_stands vfs_read_stands in blast)+

section \<open>What clients get\<close>

text \<open>Histories of client calls, with the list of entries that the calls should leave behind.\<close>

datatype fs_op = Create cptr cptr | Mkdir cptr | Delete cptr

fun fs_exec :: "fs_op \<Rightarrow> 'a vfs_state_scheme \<Rightarrow> (int \<times> 'a vfs_state_scheme) option" where
  "fs_exec (Create name data) s = create_file name data VREG s"
| "fs_exec (Mkdir name) s = create_directory name s"
| "fs_exec (Delete name) s = delete_file name s"

fun fs_spec :: "fs_op \<Rightarrow> (string \<times> string option) list \<Rightarrow> (string \<times> string option) list" where
  "fs_spec (Create name data) xs = xs @ [(chars name, Some (chars data))]"
| "fs_spec (Mkdir name) xs = xs @ [(chars name, None)]"
| "fs_spec (Delete name) xs = del_entry (chars name) xs"

fun fs_allowed :: "fs_op \<Rightarrow> (string \<times> string option) list \<Rightarrow> bool" where
  "fs_allowed (Create name data) xs = (good_name name \<and> good_data data \<and> has_room xs)"
| "fs_allowed (Mkdir name) xs = (good_name name \<and> length xs < 100)"
| "fs_allowed (Delete name) xs = True"

fun fs_run :: "fs_op list \<Rightarrow> 'a vfs_state_scheme \<Rightarrow> 'a vfs_state_scheme option" where
  "fs_run [] s = Some s"
| "fs_run (op # ops) s = Option.bind (fs_exec op s) (\<lambda>(r, s). fs_run ops s)"

fun fs_all_allowed :: "fs_op list \<Rightarrow> (string \<times> string option) list \<Rightarrow> bool" where
  "fs_all_allowed [] xs = True"
| "fs_all_allowed (op # ops) xs = (fs_allowed op xs \<and> fs_all_allowed ops (fs_spec op xs))"

lemma del_entry_absent: "k \<notin> fst ` set xs \<Longrightarrow> del_entry k xs = xs"
  by (induction k xs rule: del_entry.induct) auto

lemma vfs_stands_mono: "vfs_stands n s xs \<Longrightarrow> m \<le> n \<Longrightarrow> vfs_stands m s xs"
  by (auto simp: vfs_stands_def vfs_ready_def intro: heap_room_mono)

lemma fs_exec_refines:
  assumes "vfs_stands (52358 + n) s xs" and "fs_allowed op xs"
  shows "\<exists>r s'. fs_exec op s = Some (r, s') \<and> vfs_stands n s' (fs_spec op xs)"
proof (cases op)
  case (Create name data)
  then show ?thesis using vfs_create_stands[OF assms(1), of name data VREG] assms(2) vfs_stands_mono[of "52358 + n" _ _ n] by fastforce
next
  case (Mkdir name)
  then show ?thesis using vfs_mkdir_stands[OF assms(1), of name] assms(2) by auto
next
  case (Delete name)
  note d = vfs_delete_stands[OF assms(1), of name] and mono = vfs_stands_mono[of "52358 + n" _ _ n]
  show ?thesis
  proof (cases "chars name \<in> fst ` set xs")
    case True
    then obtain s' where "delete_file name s = Some (0, s')" "vfs_stands (52358 + n) s' (del_entry (chars name) xs)" using d by auto
    then show ?thesis using mono Delete by simp
  next
    case False
    then have "delete_file name s = Some (-1, s)" using d by simp
    then show ?thesis using mono[OF assms(1)] del_entry_absent[OF False] Delete by simp
  qed
qed

lemma fs_run_refines:
  assumes "vfs_stands (52358 * length ops) s xs" and "fs_all_allowed ops xs"
  shows "\<exists>s'. fs_run ops s = Some s' \<and> vfs_stands 0 s' (fold fs_spec ops xs)"
  using assms
proof (induction ops arbitrary: s xs)
  case (Cons op ops)
  have "vfs_stands (52358 + 52358 * length ops) s xs" using Cons.prems(1) by simp
  from fs_exec_refines[OF this, of op] Cons.prems(2) obtain r s1 where
    1: "fs_exec op s = Some (r, s1)" "vfs_stands (52358 * length ops) s1 (fs_spec op xs)" by auto
  from Cons.IH[OF 1(2)] Cons.prems(2) 1(1) show ?case by auto
qed (auto intro: vfs_stands_mono)

text \<open>
  C22. The file system implements its abstract specification. After \<open>kmem_init\<close> and \<open>init_vfs\<close>, a history of
  creations, directory creations and deletions that stays within the limits of the file system (100 entries, 50 regular
  files, names below 256 and non-empty contents below 4096 characters, as many calls as the heap has room for)
  runs without an undefined step, and afterwards \<open>read_file\<close> answers for every name what the first entry of that name
  in the specification's list holds.
\<close>

theorem vfs_refines:
  assumes "heap s \<noteq> 0" and "unat (heap s) + 0x1100000 < 2 ^ 64" and "52358 * length ops + 300000 \<le> 0x1000000"
    and "fs_all_allowed ops []"
  shows "\<exists>s0 s1. init_vfs (kmem_init s) = Some s0 \<and> fs_run ops s0 = Some s1 \<and>
    (\<forall>name. read_string name s1 = Some (Option.bind (map_of (fold fs_spec ops []) (chars name)) (\<lambda>c. c)))"
proof -
  have "heap_room (kmem_init s) (300000 + 52358 * length ops)"
    using heap_room_mono[OF heap_room_init[OF assms(1,2)]] assms(3) by simp
  from init_vfs_ready[OF this] obtain s0 where s0: "init_vfs (kmem_init s) = Some s0" "vfs_stands (52358 * length ops) s0 []"
    using fresh_vfs_abs by (auto simp: vfs_stands_def)
  from fs_run_refines[OF s0(2) assms(4)] obtain s1 where "fs_run ops s0 = Some s1" "vfs_stands 0 s1 (fold fs_spec ops [])" by blast
  with s0(1) vfs_read_stands show ?thesis by blast
qed

text \<open>
  C23. Writing a file and reading it back, in a store that stands. Creating: under a name that no file has, shorter than 256
  characters, and with data that is not empty and shorter than a block, a regular file can be created as long as there are fewer than 100
  files and fewer than 50 with a block of their own; it reads back as its data, and every other name reads as before. Deleting: in a
  store without duplicate names, a file that exists can be deleted; it then cannot be read, and every other name reads as before.
  (An empty file shares its block with the next one; and with 50 blocks in use \<open>create_file\<close> overwrites the file system itself.)
\<close>

theorem vfs_round_trip:
  assumes "vfs_ready s v n"
  shows "(\<forall>name data. good_name name \<and> good_data data \<and> has_room (vfs_abs v) \<and> chars name \<notin> fst ` set (vfs_abs v) \<longrightarrow>
      (\<exists>s'. create_file name data VREG s = Some (0, s') \<and> read_string name s' = Some (Some (chars data)) \<and>
        (\<forall>other. chars other \<noteq> chars name \<longrightarrow> read_string other s' = read_string other s))) \<and>
    (\<forall>old. chars old \<in> fst ` set (vfs_abs v) \<and> distinct (map fst (vfs_abs v)) \<longrightarrow>
      (\<exists>s'. delete_file old s = Some (0, s') \<and> read_string old s' = Some None \<and>
        (\<forall>other. chars other \<noteq> chars old \<longrightarrow> read_string other s' = read_string other s)))"
proof -
  have st: "vfs_stands n s (vfs_abs v)" using assms(1) by (auto simp: vfs_stands_def)
  show ?thesis using vs.creat_then_rd[OF st] vs.del_then_rd[OF st] by blast
qed

section \<open>The self-test passes\<close>

lemma kprintf_s: "length a \<le> 10000 \<Longrightarrow> kprintf b ''%s '' [Va_str a] t = Some (t @ a @ '' '', int (length a + 1))"
  "length a \<le> 10000 \<Longrightarrow> kprintf b ''%s'' [Va_str a] t = Some (t @ a, int (length a))"
  by (simp_all add: kprintf_def kprintf_loop.simps is_escape_def is_text_def console_write_def Let_def)

lemma kprintf_literals:
  "kprintf b (''--ALL FILES--'' @ [CHR 0x0A]) [] t = Some (t @ ''--ALL FILES--'' @ [CHR 0x0A], 14)"
  "kprintf b (''---------------'' @ [CHR 0x0A]) [] t = Some (t @ ''---------------'' @ [CHR 0x0A], 16)"
  "kprintf b [CHR 0x0A] [] t = Some (t @ [CHR 0x0A], 1)"
  by (simp_all add: kprintf_def kprintf_loop.simps is_escape_def is_text_def console_write_def Let_def)

lemma display_names:
  assumes "\<forall>f \<in> set fs. length (file_name f) \<le> 256"
  shows "fold (\<lambda>f t. Option.bind t (\<lambda>t. map_option fst (kprintf b ''%s '' [Va_str (c_string (file_name f))] t))) fs (Some t) =
    Some (t @ concat (map (\<lambda>f. c_string (file_name f) @ '' '') fs))"
  using assms
proof (induction fs arbitrary: t)
  case (Cons f fs)
  have "length (c_string (file_name f)) \<le> 10000"
    using Cons.prems length_takeWhile_le[of "\<lambda>c. c \<noteq> NUL" "file_name f"] by (simp add: c_string_def)
  then show ?case using Cons by (simp add: kprintf_s)
qed simp

text \<open>What \<open>ls\<close> shows.\<close>

lemma display_all_files_eq:
  assumes "vfs_obj s = Some v" and "vfs_wf v"
  shows "display_all_files b s t = Some (t @ ''--ALL FILES--'' @ [CHR 0x0A] @
    concat (map (\<lambda>e. fst e @ '' '') (vfs_abs v)) @ ''---------------'' @ [CHR 0x0A])"
  using assms(1) display_names[of "files (root v)"] vfs_wfD(7)[OF assms(2)]
  by (simp add: display_all_files_def kprintf_literals[unfolded append.simps] vfs_abs_def comp_def)

lemma funpow_same: "((\<lambda>t. t) ^^ k) t = t"
  by (induction k) auto

lemma display_content_defined:
  assumes wf: "vfs_wf v" and obj: "vfs_obj s = Some v" and f: "f \<in> set (files (root v))" "c_string (file_name f) = chars name"
    and short: "length (chars name) \<le> 256"
  shows "\<exists>t'. display_content b name s t = Some t'"
proof -
  obtain g where g: "List.find (name_is name) (rev (files (root v))) = Some g"
    using f by (cases "List.find (name_is name) (rev (files (root v)))") (auto simp: find_None_iff name_is_def)
  then have gin: "g \<in> set (files (root v))" by (auto simp: find_Some_iff in_set_conv_nth)
      (metis in_set_conv_nth length_rev nth_mem set_rev)
  have e: "entry_ok v g" by (rule vfs_wfD(5)[OF wf gin])
  then have i: "unat (inode_number g) < length (inode_table v)" by (simp add: entry_ok_def vfs_wfD(1)[OF wf])
  then obtain k where k: "inode_blocks (inode_table v ! unat (inode_number g)) = k # replicate 49 (-1)"
    using vfs_wfD(4)[OF wf, of "inode_table v ! unat (inode_number g)"] by auto
  then have kb: "block_of v g = k" by (simp add: block_of_def inode_of_def)
  have kl: "k \<noteq> -1 \<Longrightarrow> unat k < length (data_blocks v)" using e vfs_wfD(2)[OF wf] kb by (auto simp: entry_ok_def)
  have cl: "k \<noteq> -1 \<Longrightarrow> length (c_string (data_blocks v ! unat k)) \<le> 10000"
    using kl vfs_wfD(6)[OF wf] length_takeWhile_le[of "\<lambda>c. c \<noteq> NUL" "data_blocks v ! unat k"] nth_mem[of "unat k" "data_blocks v"]
    by (fastforce simp: c_string_def)
  have h: "\<exists>t'. kprintf b (''Content of file '' @ [CHR 0x27] @ ''%s'' @ [CHR 0x27] @ '':'' @ [CHR 0x0A]) [Va_str (chars name)] t = Some t'" for t
    using short by (simp add: kprintf_def kprintf_loop.simps is_escape_def is_text_def console_write_def Let_def)
  obtain t1 r where t1: "kprintf b (''Content of file '' @ [CHR 0x27] @ ''%s'' @ [CHR 0x27] @ '':'' @ [CHR 0x0A]) [Va_str (chars name)] t = Some (t1, r)"
    using h[of t] by auto
  show ?thesis
    using i kl cl t1[unfolded append.simps]
    by (cases "k = -1") (simp_all add: display_content_def obj g k funpow_same kprintf_s kprintf_literals[unfolded append.simps])
qed

definition look :: "(string \<times> string option) list \<Rightarrow> string \<Rightarrow> string option" where
  "look xs name = Option.bind (map_of xs name) (\<lambda>c. c)"

lemma read_look:
  assumes "vfs_ready s v n"
  obtains d where "read_file name s = Some d" "look (vfs_abs v) (chars name) = map_option c_string d"
proof -
  have "read_string name s = Some (look (vfs_abs v) (chars name))"
    using vfs_read_stands[of n s "vfs_abs v" name] assms by (auto simp: vfs_stands_def look_def)
  then show thesis using that by (auto simp: read_string_def)
qed

lemma test_reads:
  assumes "vfs_ready s v n"
  shows "test3_read k name e s = Some (look (vfs_abs v) name = Some e)"
    "test4_missing k s = Some (look (vfs_abs v) missing_txt = None)"
    "test13_remaining k s = Some (look (vfs_abs v) test_txt \<noteq> None \<and> look (vfs_abs v) ''mydir'' = None)"
proof -
  have r: "\<exists>d. read_file (lit k name) s = Some d \<and> look (vfs_abs v) name = map_option c_string d" for name
    using read_look[OF assms, of "lit k name"] by (metis (no_types, lifting) cptr.select_convs(1) lit_def)
  obtain d where "read_file (lit k name) s = Some d" "look (vfs_abs v) name = map_option c_string d" using r by blast
  then show "test3_read k name e s = Some (look (vfs_abs v) name = Some e)"
    by (cases d) (auto simp: test3_read_def)
  obtain d where "read_file (lit k missing_txt) s = Some d" "look (vfs_abs v) missing_txt = map_option c_string d" using r by blast
  then show "test4_missing k s = Some (look (vfs_abs v) missing_txt = None)"
    by (cases d) (auto simp: test4_missing_def)
  obtain d d' where "read_file (lit k test_txt) s = Some d" "look (vfs_abs v) test_txt = map_option c_string d"
    "read_file (lit k ''mydir'') s = Some d'" "look (vfs_abs v) ''mydir'' = map_option c_string d'" using r by blast
  then show "test13_remaining k s = Some (look (vfs_abs v) test_txt \<noteq> None \<and> look (vfs_abs v) ''mydir'' = None)"
    by (cases d; cases d') (auto simp: test13_remaining_def)
qed

lemma file_count_abs: "file_count v = int (length (vfs_abs v))"
  by (simp add: file_count_def vfs_abs_def)

lemma test_create:
  assumes rd: "vfs_ready s v n" and name: "NUL \<notin> set name" "length name < 256"
    and data: "NUL \<notin> set data" "data \<noteq> []" "length data < 4096" and room: "has_room (vfs_abs v)"
  shows "\<exists>s' v'. create_file (lit k name) (lit k data) VREG s = Some (0, s') \<and> vfs_ready s' v' n \<and> vfs_obj s' = Some v' \<and>
    vfs_abs v' = vfs_abs v @ [(name, Some data)] \<and> total_files v' = total_files v + 1 \<and>
    total_size v' = total_size v + of_nat (length data)"
proof -
  have "vfs_wf v" "vfs_obj s = Some v" using rd by (auto simp: vfs_ready_def)
  from create_file_correct[OF this, of "lit k name" "lit k data" VREG] name data room obtain v' where
    "create_file (lit k name) (lit k data) VREG s = Some (0, s\<lparr>vfs_obj := Some v'\<rparr>)" "vfs_wf v'"
    "vfs_abs v' = vfs_abs v @ [(name, Some data)]" "total_files v' = total_files v + 1"
    "total_size v' = total_size v + of_nat (length data)"
    by (auto simp: lit_def has_room_def)
  then show ?thesis using rd by (intro exI[of _ "s\<lparr>vfs_obj := Some v'\<rparr>"] exI[of _ v']) (auto simp: vfs_ready_def)
qed

lemma test10_mode:
  assumes "vfs_ready s v n" and "map_of (vfs_abs v) ''mydir'' = Some None"
  shows "test10_inode k s = Some True"
proof -
  have wf: "vfs_wf v" and obj: "vfs_obj s = Some v" using assms(1) by (auto simp: vfs_ready_def)
  let ?i = "search (name_is (lit k ''mydir'')) (files (root v))"
  have i: "?i \<noteq> -1" "content_of v (files (root v) ! nat ?i) = None"
    using assms(2) unfolding vfs_abs_def map_of_search name_search by (auto simp: lit_def split: if_splits)
  then have "nat ?i < length (files (root v))"
    by (cases rule: search_cases[of "name_is (lit k ''mydir'')" "files (root v)"]) auto
  then have "entry_ok v (files (root v) ! nat ?i)" by (intro vfs_wfD(5)[OF wf]) simp
  with i show ?thesis
    by (auto simp: test10_inode_def obj entry_ok_def content_of_def inode_of_def vfs_wfD(1)[OF wf] Let_def split: if_splits)
qed

lemma test11_ok:
  assumes rd: "vfs_ready s v n" and xs: "vfs_abs v = (hello_txt, c) # xs" "length xs = 2" "look xs hello_txt = None" "total_files v = 3"
  shows "\<exists>s' v'. test11_delete k s = Some (True, s') \<and> vfs_ready s' v' n \<and> vfs_abs v' = xs"
proof -
  have "vfs_wf v" "vfs_obj s = Some v" using rd by (auto simp: vfs_ready_def)
  from delete_file_correct[OF this, of "lit k hello_txt"] xs obtain v' where
    d: "delete_file (lit k hello_txt) s = Some (0, s\<lparr>vfs_obj := Some v'\<rparr>)" "vfs_wf v'" "vfs_abs v' = xs" "total_files v' = 2"
    by (auto simp: lit_def)
  let ?s = "s\<lparr>vfs_obj := Some v'\<rparr>"
  have rd': "vfs_ready ?s v' n" using rd d(2) by (auto simp: vfs_ready_def)
  obtain e where e: "read_file (lit k hello_txt) ?s = Some e" "look xs hello_txt = map_option c_string e"
    using read_look[OF rd', of "lit k hello_txt"] d(3) by (auto simp: lit_def)
  then have "test11_delete k s = Some (True, ?s)"
    using d xs by (simp add: test11_delete_def file_count_abs)
  with rd' d(3) show ?thesis by blast
qed

lemma test12_ok:
  assumes "vfs_ready s v n" and "missing_txt \<notin> fst ` set (vfs_abs v)"
  shows "test12_delete_missing k s = Some (True, s)"
proof -
  have "vfs_wf v" "vfs_obj s = Some v" using assms(1) by (auto simp: vfs_ready_def)
  from delete_file_correct[OF this, of "lit k missing_txt"] assms(2) show ?thesis
    by (simp add: test12_delete_missing_def lit_def)
qed

lemma test7_ok:
  assumes rd: "vfs_ready s v n" and "hello_txt \<in> fst ` set (vfs_abs v)"
  shows "\<exists>t'. test7_display b k s t = Some t'"
proof -
  have wf: "vfs_wf v" and obj: "vfs_obj s = Some v" using rd by (auto simp: vfs_ready_def)
  obtain f where f: "f \<in> set (files (root v))" "c_string (file_name f) = chars (lit k hello_txt)"
    using assms(2) by (auto simp: vfs_abs_def lit_def)
  have "\<exists>t'. display_content b (lit k hello_txt) s t = Some t'" for t
    by (rule display_content_defined[OF wf obj f]) (simp add: lit_def)
  then show ?thesis by (simp add: test7_display_def display_all_files_eq[OF obj wf])
qed

text \<open>
  The kernel's own test of the file system passes: run on the state that \<open>kmem_init\<close> and \<open>init_vfs\<close> leave, every
  one of its thirteen tests succeeds, whatever follows the string literals in memory.
\<close>

theorem test_vfs_passes:
  assumes "heap s \<noteq> 0" and "unat (heap s) + 0x1100000 < 2 ^ 64"
  shows "\<exists>s0 t' s'. init_vfs (kmem_init s) = Some s0 \<and> test_vfs b k s0 t = Some (0, t', s')"
proof -
  have "heap_room (kmem_init s) (300000 + (52358 + 0))"
    using heap_room_mono[OF heap_room_init[OF assms]] by simp
  from init_vfs_ready[OF this] obtain s0 fp where s0: "init_vfs (kmem_init s) = Some s0" "vfs_ready s0 (fresh_vfs fp) (52358 + 0)"
    by blast
  have t1: "test1_init s0 = Some True"
    using s0(2) by (simp add: test1_init_def vfs_ready_def fresh_vfs_def file_count_def)
  obtain s1 v1 where 1: "create_file (lit k hello_txt) (lit k file1_data) VREG s0 = Some (0, s1)" "vfs_ready s1 v1 (52358 + 0)"
      "vfs_obj s1 = Some v1" "vfs_abs v1 = [(hello_txt, Some file1_data)]" "total_files v1 = 1" "total_size v1 = 11"
    using test_create[OF s0(2), of hello_txt file1_data k] 
    by (auto simp: fresh_vfs_abs fresh_counts has_room_def)
  obtain s2 v2 where 2: "create_file (lit k test_txt) (lit k file2_data) VREG s1 = Some (0, s2)" "vfs_ready s2 v2 (52358 + 0)"
      "vfs_obj s2 = Some v2" "vfs_abs v2 = [(hello_txt, Some file1_data), (test_txt, Some file2_data)]" "total_files v2 = 2"
    using test_create[OF 1(2), of test_txt file2_data k] by (auto simp: 1(4,5) has_room_def)
  obtain t3 where t7: "test7_display b k s2 t = Some t3" using test7_ok[OF 2(2), of b k t] by (auto simp: 2(4))
  obtain s3 v3 where 3: "create_directory (lit k ''mydir'') s2 = Some (0, s3)" "vfs_ready s3 v3 0"
      "vfs_abs v3 = [(hello_txt, Some file1_data), (test_txt, Some file2_data), (''mydir'', None)]" "total_files v3 = 3"
    using create_directory_correct[OF 2(2), of "lit k ''mydir''"] by (auto simp: 2(4,5) lit_def)
  have t10: "test10_inode k s3 = Some True" by (rule test10_mode[OF 3(2)]) (simp add: 3(3))
  obtain s4 v4 where 4: "test11_delete k s3 = Some (True, s4)" "vfs_ready s4 v4 0" "vfs_abs v4 = [(test_txt, Some file2_data), (''mydir'', None)]"
    using test11_ok[OF 3(2,3), of k] 3(4) by (auto simp: look_def)
  have t12: "test12_delete_missing k s4 = Some (True, s4)" by (rule test12_ok[OF 4(2)]) (simp add: 4(3))
  have obj4: "vfs_obj s4 = Some v4" "vfs_wf v4" and obj3: "vfs_obj s3 = Some v3" using 3(2) 4(2) by (auto simp: vfs_ready_def)
  have t2: "test2_create k s0 = Some (True, s1)" and t5: "test5_second k s1 = Some (True, s2)" and t9: "test9_directory k s2 = Some (True, s3)"
    using 1 2 3 obj3 by (simp_all add: test2_create_def test5_second_def test9_directory_def file_count_abs)
  have r: "test3_read k hello_txt file1_data s1 = Some True" "test4_missing k s1 = Some True"
    "test3_read k test_txt file2_data s2 = Some True" "test13_remaining k s4 = Some True"
    by (simp_all add: test_reads[OF 1(2)] test_reads[OF 2(2)] test_reads[OF 4(2)] 1(4) 2(4) 4(3) look_def)
  show ?thesis
    unfolding test_vfs_def by (simp add: s0(1) t1 t2 r t5 t7 t9 t10 4(1) t12 display_all_files_eq[OF obj4])
qed

section \<open>Where the file system breaks\<close>

lemma search_eq:
  assumes "i < length xs" and "P (xs ! i)" and "\<forall>j < i. \<not> P (xs ! j)"
  shows "search P xs = int i"
proof (cases rule: search_cases[of P xs])
  case none
  then show ?thesis using assms(1,2) by simp
next
  case (some k)
  then have "k = i" using assms by (cases k i rule: linorder_cases) auto
  then show ?thesis using some(1) by simp
qed

lemma all_blocks_taken:
  assumes wf: "vfs_wf v" and full: "50 \<le> length (filter (\<lambda>e. snd e \<noteq> None) (vfs_abs v))" and c: "c \<in> set (data_blocks v)"
  shows "c ! 0 \<noteq> NUL"
proof -
  let ?fs = "filter (\<lambda>f. content_of v f \<noteq> None) (files (root v))" and ?b = "\<lambda>f. unat (block_of v f)"
  have r: "f \<in> set (files (root v))" "mode (inode_of v f) = 420" "?b f < 50" "data_blocks v ! ?b f ! 0 \<noteq> NUL" if "f \<in> set ?fs" for f
    using that vfs_wfD(5)[OF wf, of f] by (auto simp: content_of_def entry_ok_def split: if_splits)
  have "distinct ?fs" using wf by (simp add: vfs_wf_def distinct_map)
  moreover have "inj_on ?b (set ?fs)"
    using wf r(1,2) unfolding vfs_wf_def by (intro inj_onI) (metis word_unat_eq_iff)
  ultimately have "card (?b ` set ?fs) = length ?fs" by (simp only: card_image distinct_card)
  moreover have "50 \<le> length ?fs" using full by (simp add: vfs_abs_def filter_map comp_def)
  moreover have "?b ` set ?fs \<subseteq> {..<50}" using r(3) by auto
  ultimately have all: "?b ` set ?fs = {..<50}" by (intro card_seteq) auto
  obtain i where i: "i < 50" "c = data_blocks v ! i" using c vfs_wfD(2)[OF wf] by (auto simp: in_set_conv_nth)
  then have "i \<in> ?b ` set ?fs" by (simp only: all lessThan_iff)
  then obtain f where "f \<in> set ?fs" "i = ?b f" by (rule imageE)
  with r(4)[of f] i(2) show ?thesis by simp
qed

text \<open>
  When fifty regular files exist, \<open>create_file\<close> does not fail with an error: it goes on with the block number -1, and nothing of
  what it does from there on is defined.
\<close>

lemma create_file_no_block:
  assumes "vfs_ready s v n" and "length (vfs_abs v) < 100" and "50 \<le> length (filter (\<lambda>e. snd e \<noteq> None) (vfs_abs v))"
  shows "create_file name data vt s = None"
proof -
  have wf: "vfs_wf v" and obj: "vfs_obj s = Some v" using assms(1) by (auto simp: vfs_ready_def)
  have "search (\<lambda>c. c ! 0 = NUL) (data_blocks v) = -1"
    using all_blocks_taken[OF wf assms(3)] by (cases rule: search_cases[of "\<lambda>c. c ! 0 = NUL" "data_blocks v"]) auto
  moreover obtain i where "search (\<lambda>n. mode n = 0) (inode_table v) = int i"
    using free_inode[OF wf assms(2)] search_found[of _ "inode_table v" "\<lambda>n. mode n = 0"] by metis
  ultimately show ?thesis by (simp add: create_file_def obj grow_root_id[OF wf])
qed

text \<open>
  A block counts as free when its first byte is zero, so the block of an empty file is handed out again: after
  creating an empty file and then another file, reading the empty file gives the contents of the other.
\<close>

theorem create_file_empty_shares:
  assumes "vfs_obj s = Some (fresh_vfs fp)" and "vfs s \<noteq> 0" and "fp \<noteq> 0" and "good_name name1" and "good_name name2"
    and "chars data1 = []" and "good_data data2"
  shows "\<exists>s1 s2. create_file name1 data1 VREG s = Some (0, s1) \<and> create_file name2 data2 VREG s1 = Some (0, s2) \<and>
    read_string name1 s2 = Some (Some (chars data2))"
proof -
  let ?v = "fresh_vfs fp"
  have g: "grow_root ?v s = Some (?v, s)" "files_ptr (root ?v) \<noteq> 0"
    using assms(3) by (simp_all add: grow_root_def file_count_def fresh_vfs_def)
  have "search (\<lambda>n. mode n = 0) (inode_table ?v) = int 0" "search (\<lambda>b. b ! 0 = NUL) (data_blocks ?v) = int 0"
    by (rule search_eq; simp add: fresh_vfs_def)+
  from create_file_eq[OF g assms(1) this, of name1 data1 VREG] obtain v1 where v1:
      "create_file name1 data1 VREG s = Some (0, s\<lparr>vfs_obj := Some v1\<rparr>)"
      "root v1 = (root ?v)\<lparr>files := [\<lparr>file_name = copy_name name1, inode_number = 0\<rparr>]\<rparr>"
      "inode_table v1 = (inode_table ?v)[0 := \<lparr>mode = 420, inode_size = 0, inode_blocks = no_blocks[0 := 0]\<rparr>]"
      "data_blocks v1 = (data_blocks ?v)[0 := bytes_of data1 4096]"
    using assms(6) by (auto simp: fresh_vfs_def)
  let ?s1 = "s\<lparr>vfs_obj := Some v1\<rparr>"
  have g1: "grow_root v1 ?s1 = Some (v1, ?s1)" "files_ptr (root v1) \<noteq> 0" "vfs_obj ?s1 = Some v1"
    using g by (simp_all add: grow_root_def file_count_def v1(2) fresh_vfs_def)
  have b0: "bytes_of data1 4096 ! 0 = NUL" using assms(6) by (simp add: bytes_of_def)
  have "search (\<lambda>n. mode n = 0) (inode_table v1) = int 1" "search (\<lambda>b. b ! 0 = NUL) (data_blocks v1) = int 0"
    by (rule search_eq; simp add: v1 fresh_vfs_def b0)+
  from create_file_eq[OF g1 this, of name2 data2 VREG] obtain v2 where v2:
      "create_file name2 data2 VREG ?s1 = Some (0, ?s1\<lparr>vfs_obj := Some v2\<rparr>)"
      "files (root v2) ! 0 = \<lparr>file_name = copy_name name1, inode_number = 0\<rparr>" "files (root v2) \<noteq> []"
      "inode_table v2 ! 0 = \<lparr>mode = 420, inode_size = 0, inode_blocks = no_blocks[0 := 0]\<rparr>" "inode_table v2 \<noteq> []"
      "data_blocks v2 ! 0 = bytes_of data2 4096" "data_blocks v2 \<noteq> []"
    by (auto simp: v1 fresh_vfs_def nth_append)
  have "search (name_is name1) (files (root v2)) = int 0"
    using v2(2,3) c_string_copy_name[of name1] assms(4) by (intro search_eq) (auto simp: name_is_def good_name_def)
  then have "read_file name1 (?s1\<lparr>vfs_obj := Some v2\<rparr>) = Some (Some (bytes_of data2 4096))"
    using assms(2) v2 by (simp add: read_file_def no_blocks_Cons)
  then have "read_string name1 (?s1\<lparr>vfs_obj := Some v2\<rparr>) = Some (Some (chars data2))"
    using c_string_bytes[of data2 4096] assms(7) by (simp add: read_string_def good_data_def)
  with v1(1) v2(1) show ?thesis by blast
qed

section \<open>Examples\<close>

definition ex_vstate :: vfs_state where
  "ex_vstate = \<lparr>ram = (\<lambda>_. 0), hhdm = 0, trace = [], heap = 0x1000, brk = 0, endp = 0, base = 0,
      physical_base = 0, physical_size = 0, bitmap = 0, total_pages = 0, bitmap_size = 0, usable_base = 0,
      PML4 = 0, cr3 = 0, kernel_virtual_base = 0, kernel_physical_base = 0, vfs = 0, vfs_obj = None\<rparr>"

definition ex_str :: "string \<Rightarrow> cptr" where
  "ex_str cs = lit (\<lambda>_ _. CHR ''z'') cs"

lemma ex_str_simps [simp]: "chars (ex_str cs) = cs" "good_name (ex_str ''a'')" "good_name (ex_str ''b'')" "good_data (ex_str ''xyz'')"
  "good_data (ex_str ''uv'')"
  by (simp_all add: ex_str_def lit_def good_name_def good_data_def)

theorem vfs_refines_witness:
  "\<exists>s0 s1. init_vfs (kmem_init ex_vstate) = Some s0 \<and>
    fs_run [Create (ex_str ''a'') (ex_str ''xyz''), Mkdir (ex_str ''b''), Create (ex_str ''b'') (ex_str ''uv''), Delete (ex_str ''b'')] s0 = Some s1 \<and>
    read_string (ex_str ''a'') s1 = Some (Some ''xyz'') \<and> read_string (ex_str ''b'') s1 = Some (Some ''uv'')"
  using vfs_refines[of ex_vstate "[Create (ex_str ''a'') (ex_str ''xyz''), Mkdir (ex_str ''b''), Create (ex_str ''b'') (ex_str ''uv''), Delete (ex_str ''b'')]"]
  by (auto simp: ex_vstate_def has_room_def)

theorem test_vfs_passes_witness:
  "\<exists>s0 t' s'. init_vfs (kmem_init ex_vstate) = Some s0 \<and> test_vfs [] (\<lambda>_ _. CHR ''z'') s0 [] = Some (0, t', s')"
  by (rule test_vfs_passes) (simp_all add: ex_vstate_def)

lemma ex_fresh: "\<exists>s0 fp. init_vfs (kmem_init ex_vstate) = Some s0 \<and> vfs_ready s0 (fresh_vfs fp) 10000000"
proof -
  have "heap_room (kmem_init ex_vstate) (300000 + 10000000)"
    by (rule heap_room_mono[OF heap_room_init]) (simp_all add: ex_vstate_def)
  from init_vfs_ready[OF this] show ?thesis .
qed

lemma ex_many:
  assumes "n \<le> 50"
  shows "\<exists>s v. vfs_ready (s :: vfs_state) v 0 \<and> vfs_abs v = replicate n (''a'', Some ''xyz'')"
proof -
  have all: "length xs + m \<le> 50 \<Longrightarrow> fs_all_allowed (replicate m (Create (ex_str ''a'') (ex_str ''xyz''))) xs" for m xs
  proof (induction m arbitrary: xs)
    case (Suc m)
    then show ?case by (auto simp: has_room_def intro: order_le_less_trans[OF length_filter_le])
  qed simp
  have rep: "replicate m x @ [x] = x # replicate m x" for m and x :: "string \<times> string option" by (simp add: replicate_append_same)
  have abs: "fold fs_spec (replicate m (Create (ex_str ''a'') (ex_str ''xyz''))) xs = xs @ replicate m (''a'', Some ''xyz'')" for m xs
    by (induction m arbitrary: xs) (simp_all add: rep)
  obtain s0 :: vfs_state and fp where s0: "vfs_ready s0 (fresh_vfs fp) 10000000" using ex_fresh by blast
  let ?ops = "replicate n (Create (ex_str ''a'') (ex_str ''xyz''))"
  have "vfs_stands 10000000 s0 []" using s0 fresh_vfs_abs unfolding vfs_stands_def by blast
  then have st: "vfs_stands (52358 * length ?ops) s0 []" by (rule vfs_stands_mono) (use assms in simp)
  have "fs_all_allowed ?ops []" using assms by (intro all) simp
  from fs_run_refines[OF st this] obtain s :: vfs_state where "vfs_stands 0 s (replicate n (''a'', Some ''xyz''))"
    unfolding abs append.simps by blast
  then show ?thesis unfolding vfs_stands_def by blast
qed

theorem vfs_round_trip_witness:
  "\<exists>(s :: vfs_state) s' s''. create_file (ex_str ''b'') (ex_str ''uv'') VREG s = Some (0, s') \<and>
    read_string (ex_str ''b'') s' = Some (Some ''uv'') \<and> delete_file (ex_str ''a'') s = Some (0, s'') \<and>
    read_string (ex_str ''a'') s'' = Some None"
proof -
  obtain s :: vfs_state and v where s: "vfs_ready s v 0" "vfs_abs v = [(''a'', Some ''xyz'')]" using ex_many[of 1] by auto
  have "has_room (vfs_abs v)" "chars (ex_str ''b'') \<notin> fst ` set (vfs_abs v)" "chars (ex_str ''a'') \<in> fst ` set (vfs_abs v)"
    "distinct (map fst (vfs_abs v))" by (simp_all add: s(2) has_room_def)
  with vfs_round_trip[OF s(1), THEN conjunct1, rule_format, of "ex_str ''b''" "ex_str ''uv''"]
    vfs_round_trip[OF s(1), THEN conjunct2, rule_format, of "ex_str ''a''"] show ?thesis by auto
qed

theorem create_file_empty_shares_witness:
  "\<exists>(s :: vfs_state) s1 s2. create_file (ex_str ''a'') (ex_str []) VREG s = Some (0, s1) \<and>
    create_file (ex_str ''b'') (ex_str ''uv'') VREG s1 = Some (0, s2) \<and> read_string (ex_str ''a'') s2 = Some (Some ''uv'')"
proof -
  obtain s :: vfs_state and fp where s: "vfs_ready s (fresh_vfs fp) 10000000" using ex_fresh by blast
  then have "vfs_obj s = Some (fresh_vfs fp)" "vfs s \<noteq> 0" "fp \<noteq> 0" by (auto simp: vfs_ready_def vfs_wf_def fresh_vfs_def)
  from create_file_empty_shares[OF this, of "ex_str ''a''" "ex_str ''b''" "ex_str []" "ex_str ''uv''"] show ?thesis by auto
qed

end
