(* ===== verification/Bytes.thy ===== *)
theory Bytes
  imports Prelude
begin

text \<open>
  Images of structures in memory: the bytes of little-endian fields, where they lie in memory, and what
  the loads of the code read out of them.
\<close>

definition le :: "nat \<Rightarrow> 'a::len word \<Rightarrow> u8 list" where
  "le n v = map (\<lambda>i. ucast (drop_bit (8 * i) v)) [0..<n]"

definition bytes_at :: "mem \<Rightarrow> u64 \<Rightarrow> u8 list \<Rightarrow> bool" where
  "bytes_at m a bs \<longleftrightarrow> (\<forall>i < length bs. m (a + of_nat i) = bs ! i)"

lemma unat_ucast_up:
  fixes x :: "'a::len word"
  assumes "LENGTH('a) \<le> LENGTH('b::len)"
  shows "unat (ucast x :: 'b word) = unat x"
proof -
  have "unat x < 2 ^ LENGTH('a)" by (rule unsigned_less)
  also have "(2 :: nat) ^ LENGTH('a) \<le> 2 ^ LENGTH('b)" using assms by (intro power_increasing) auto
  finally show ?thesis by (simp only: unsigned_ucast_eq take_bit_nat_eq_self)
qed

lemma length_le [simp]: "length (le n v) = n"
  by (simp add: le_def)

lemma bytes_at_Nil [simp]: "bytes_at m a []"
  by (simp add: bytes_at_def)

lemma bytes_at_Cons [simp]: "bytes_at m a (b # bs) \<longleftrightarrow> m a = b \<and> bytes_at m (a + 1) bs"
proof -
  have "(\<forall>i < Suc n. P i) \<longleftrightarrow> P 0 \<and> (\<forall>i < n. P (Suc i))" for P n
    by (auto simp: less_Suc_eq_0_disj)
  then show ?thesis by (simp add: bytes_at_def add.assoc)
qed

lemma bytes_at_append: "bytes_at m a (xs @ ys) \<longleftrightarrow> bytes_at m a xs \<and> bytes_at m (a + of_nat (length xs)) ys"
  by (induction xs arbitrary: a) (auto simp: add.assoc)

lemma bytes_at_cong: "(\<And>i. i < length bs \<Longrightarrow> m' (a + of_nat i) = m (a + of_nat i)) \<Longrightarrow> bytes_at m a bs \<Longrightarrow> bytes_at m' a bs"
  by (simp add: bytes_at_def)

lemma ldn_bytes:
  fixes v :: "'a::len word"
  assumes "bytes_at m a (le n v)" and "n \<le> 8"
  shows "ldn n m a = ucast (take_bit (8 * n) v)"
proof (rule bit_word_eqI)
  fix k assume k: "k < LENGTH(64)"
  have "8 * (k div 8) + k mod 8 = k" by simp
  moreover have "m (a + of_nat (k div 8)) = ucast (drop_bit (8 * (k div 8)) v)" if "k < 8 * n"
  proof -
    have "k div 8 < n" using that by (simp add: less_mult_imp_div_less mult.commute)
    then show ?thesis using assms(1) by (simp add: bytes_at_def le_def)
  qed
  ultimately show "bit (ldn n m a) k = bit (ucast (take_bit (8 * n) v) :: u64) k"
    using k by (auto simp: bit_ldn bit_simps dest: bit_imp_le_length)
qed

lemma ld_bytes [simp]:
  "bytes_at m a (le 4 (v :: u32)) \<Longrightarrow> ld32 m a = v" "bytes_at m a (le 2 (w :: u16)) \<Longrightarrow> ld16 m a = w"
  "bytes_at m a (le 8 (x :: u64)) \<Longrightarrow> ld64 m a = x"
proof -
  have t: "take_bit 32 v = v" "take_bit 16 w = w" "take_bit 64 x = x"
    using take_bit_length_eq[of v] take_bit_length_eq[of w] take_bit_length_eq[of x] by simp_all
  have u: "ucast (ucast v :: u64) = v" "ucast (ucast w :: u64) = w" by (simp_all add: bit_eq_iff bit_ucast_iff)
  show "bytes_at m a (le 4 v) \<Longrightarrow> ld32 m a = v" using ldn_bytes[of m a 4 v] t u by simp
  show "bytes_at m a (le 2 w) \<Longrightarrow> ld16 m a = w" using ldn_bytes[of m a 2 w] t u by simp
  show "bytes_at m a (le 8 x) \<Longrightarrow> ld64 m a = x" using ldn_bytes[of m a 8 x] t by simp
qed

end
