(* ===== verification/Descriptors.thy ===== *)
theory Descriptors
  imports Printf
begin

text \<open>
  The segment and interrupt descriptor tables of \<^verbatim>\<open>cpu/gdt.c\<close> and \<^verbatim>\<open>cpu/idt.c\<close>: the
  descriptors as the packed structures of the headers, the functions that fill them, and the addresses and
  limits that the processor reads out of them; and the way of an exception from its gate through the stubs of
  \<^verbatim>\<open>asm/idt.asm\<close> to \<open>exception_handler\<close>.
\<close>

section \<open>The global descriptor table\<close>

record gdt_entry_struct =
  g_limit_low :: u16
  g_base_low :: u16
  g_base_middle :: u8
  g_access :: u8
  g_limit_high :: "4 word"
  g_flags :: "4 word"
  g_base_high :: u8

record gdt_tss_entry_struct = gdt_entry_struct +
  g_base_upper32 :: u32
  g_reserved :: u32

record gdt_ptr_struct =
  gp_limit :: u16
  gp_base :: u64

record tss_entry_struct =
  rsp0 :: u64
  iopb_offset :: u16

record gdt =
  gdt_entries :: "gdt_entry_struct list"
  gdt_tss_entry :: gdt_tss_entry_struct
  gdtr :: gdt_ptr_struct
  tss :: tss_entry_struct

definition setGdtGate :: "nat \<Rightarrow> u64 \<Rightarrow> u64 \<Rightarrow> u8 \<Rightarrow> u8 \<Rightarrow> gdt \<Rightarrow> gdt" where
  "setGdtGate num addr limit access gran s =
     s\<lparr>gdt_entries := (gdt_entries s)[num := (gdt_entries s ! num)\<lparr>
         g_limit_low := ucast (limit AND 0xFFFF),
         g_base_low := ucast (addr AND 0xFFFF),
         g_base_middle := ucast (drop_bit 16 addr AND 0xFF),
         g_base_high := ucast (drop_bit 24 addr AND 0xFF),
         g_flags := ucast gran,
         g_access := access\<rparr>]\<rparr>"

text \<open>The upper half of a system descriptor, as the entry that it occupies in the table.\<close>

definition upper_half :: "gdt_tss_entry_struct \<Rightarrow> gdt_entry_struct" where
  "upper_half e =
     \<lparr>g_limit_low = ucast (g_base_upper32 e), g_base_low = ucast (drop_bit 16 (g_base_upper32 e)),
      g_base_middle = ucast (g_reserved e), g_access = ucast (drop_bit 8 (g_reserved e)),
      g_limit_high = ucast (drop_bit 16 (g_reserved e)), g_flags = ucast (drop_bit 20 (g_reserved e)),
      g_base_high = ucast (drop_bit 24 (g_reserved e))\<rparr>"

definition write_tss :: "nat \<Rightarrow> u64 \<Rightarrow> u64 \<Rightarrow> u8 \<Rightarrow> u8 \<Rightarrow> gdt \<Rightarrow> gdt" where
  "write_tss num addr limit access gran s =
     (let e = \<lparr>g_limit_low = ucast (limit AND 0xFFFF), g_base_low = ucast (addr AND 0xFFFF),
               g_base_middle = ucast (drop_bit 16 addr AND 0xFF), g_access = access,
               g_limit_high = ucast (drop_bit 16 limit AND 0xF), g_flags = ucast (gran AND 0xF),
               g_base_high = ucast (drop_bit 24 addr AND 0xFF), g_base_upper32 = ucast (drop_bit 32 addr), g_reserved = 0\<rparr>
      in s\<lparr>tss := \<lparr>rsp0 = 0xFFFFFFFF80000000, iopb_offset = 10\<rparr>, gdt_tss_entry := e,
           gdt_entries := (gdt_entries s)[num := gdt_entry_struct.truncate e, num + 1 := upper_half e]\<rparr>)"

text \<open>\<open>at_tss\<close> and \<open>at_gdt\<close> are the addresses of the two objects. The table has seven entries of eight bytes.\<close>

definition initGdt :: "u64 \<Rightarrow> u64 \<Rightarrow> gdt \<Rightarrow> gdt" where
  "initGdt at_tss at_gdt s0 =
     (let s = setGdtGate 0 0 0 0 0 s0;
          s = setGdtGate 1 0 0xFFFFF 0x9A 0xA s;
          s = setGdtGate 2 0 0xFFFFF 0x92 0xC s;
          s = setGdtGate 3 0 0xFFFFF 0xFA 0xA s;
          s = setGdtGate 4 0 0xFFFFF 0xF2 0xC s;
          s = write_tss 5 at_tss (10 - 1) 0x89 0x0 s
      in s\<lparr>gdtr := \<lparr>gp_limit = 8 * 7 - 1, gp_base = at_gdt\<rparr>\<rparr>)"

text \<open>What the processor reads.\<close>

definition gate_base :: "'a gdt_entry_struct_scheme \<Rightarrow> u32" where
  "gate_base e = ucast (g_base_low e) OR push_bit 16 (ucast (g_base_middle e)) OR push_bit 24 (ucast (g_base_high e))"

definition gate_limit :: "'a gdt_entry_struct_scheme \<Rightarrow> u32" where
  "gate_limit e = ucast (g_limit_low e) OR push_bit 16 (ucast (g_limit_high e))"

definition system_base :: "gdt_entry_struct \<Rightarrow> gdt_entry_struct \<Rightarrow> u64" where
  "system_base lo hi = ucast (gate_base lo) OR push_bit 32 (ucast (g_limit_low hi)) OR push_bit 48 (ucast (g_base_low hi))"

definition zero_gate :: gdt_entry_struct where
  "zero_gate = \<lparr>g_limit_low = 0, g_base_low = 0, g_base_middle = 0, g_access = 0, g_limit_high = 0, g_flags = 0, g_base_high = 0\<rparr>"

section \<open>The interrupt descriptor table\<close>

record InterruptDescriptor64 =
  address_low :: u16
  selector :: u16
  ist :: u8
  gate_flags :: u8
  address_mid :: u16
  address_high :: u32
  reserved :: u32

record Idt_ptr =
  ip_limit :: u16
  ip_base :: u64

definition setIdtGate :: "InterruptDescriptor64 list \<Rightarrow> u8 \<Rightarrow> u64 \<Rightarrow> u16 \<Rightarrow> u8 \<Rightarrow> InterruptDescriptor64 list" where
  "setIdtGate idt num addr sel fl =
     idt[unat num := (idt ! unat num)\<lparr>
       address_low := ucast (addr AND 0xFFFF),
       address_mid := ucast (drop_bit 16 addr AND 0xFFFF),
       address_high := ucast (drop_bit 32 addr),
       selector := sel,
       gate_flags := fl,
       ist := 0\<rparr>]"

definition zero_descriptor :: InterruptDescriptor64 where
  "zero_descriptor = \<lparr>address_low = 0, selector = 0, ist = 0, gate_flags = 0, address_mid = 0, address_high = 0, reserved = 0\<rparr>"

text \<open>
  The routines whose addresses \<open>InitIdt\<close> takes: the stubs of \<^verbatim>\<open>asm/idt.asm\<close> for the exceptions and the two interrupt
  handlers. Where the linker puts them is the argument \<open>entry\<close>.
\<close>

datatype routine =
  divideException
  | debugException
  | breakpointException
  | overflowException
  | boundRangeExceededException
  | invalidOpcodeException
  | deviceNotAvaliableException
  | doubleFaultException
  | coprocessorSegmentOverrunException
  | invalidTSSException
  | segmentNotPresentException
  | stackSegmentFaultException
  | generalProtectionFaultException
  | pageFaultException
  | floatingPointException
  | alignmentCheckException
  | machineCheckException
  | simdFloatingPointException
  | virtualisationException
  | apic_timer_handler
  | keyboardhandler

definition InitIdt :: "(routine \<Rightarrow> u64) \<Rightarrow> u64 \<Rightarrow> InterruptDescriptor64 list \<times> Idt_ptr" where
  "InitIdt entry at_idt =
     (let idt = replicate 256 zero_descriptor;
          idt = setIdtGate idt 0 (entry divideException) 0x08 0x8E;
          idt = setIdtGate idt 1 (entry debugException) 0x08 0x8E;
          idt = setIdtGate idt 3 (entry breakpointException) 0x08 0x8E;
          idt = setIdtGate idt 4 (entry overflowException) 0x08 0x8E;
          idt = setIdtGate idt 5 (entry boundRangeExceededException) 0x08 0x8E;
          idt = setIdtGate idt 6 (entry invalidOpcodeException) 0x08 0x8E;
          idt = setIdtGate idt 7 (entry deviceNotAvaliableException) 0x08 0x8E;
          idt = setIdtGate idt 8 (entry doubleFaultException) 0x08 0x8E;
          idt = setIdtGate idt 9 (entry coprocessorSegmentOverrunException) 0x08 0x8E;
          idt = setIdtGate idt 10 (entry invalidTSSException) 0x08 0x8E;
          idt = setIdtGate idt 11 (entry segmentNotPresentException) 0x08 0x8E;
          idt = setIdtGate idt 12 (entry stackSegmentFaultException) 0x08 0x8E;
          idt = setIdtGate idt 13 (entry generalProtectionFaultException) 0x08 0x8E;
          idt = setIdtGate idt 14 (entry pageFaultException) 0x08 0x8E;
          idt = setIdtGate idt 16 (entry floatingPointException) 0x08 0x8E;
          idt = setIdtGate idt 17 (entry alignmentCheckException) 0x08 0x8E;
          idt = setIdtGate idt 18 (entry machineCheckException) 0x08 0x8E;
          idt = setIdtGate idt 19 (entry simdFloatingPointException) 0x08 0x8E;
          idt = setIdtGate idt 20 (entry virtualisationException) 0x08 0x8E;
          idt = setIdtGate idt 32 (entry apic_timer_handler) 0x08 0x8E;
          idt = setIdtGate idt 33 (entry keyboardhandler) 0x08 0x8E
      in (idt, \<lparr>ip_limit = 16 * 256 - 1, ip_base = at_idt\<rparr>))"

definition gate_address :: "InterruptDescriptor64 \<Rightarrow> u64" where
  "gate_address d = ucast (address_low d) OR push_bit 16 (ucast (address_mid d)) OR push_bit 32 (ucast (address_high d))"

definition gate_present :: "InterruptDescriptor64 \<Rightarrow> bool" where
  "gate_present d \<longleftrightarrow> bit (gate_flags d) 7"

text \<open>The name that \<open>exception_handler\<close> prints.\<close>

definition exception_label :: "u64 \<Rightarrow> string" where
  "exception_label type =
     (if type = 0 then ''Divide by Zero Exception''
      else if type = 1 then ''Debug Exception''
      else if type = 3 then ''Breakpoint Exception''
      else if type = 4 then ''Overflow Exception''
      else if type = 5 then ''Bound Range Exceeded''
      else if type = 6 then ''Invalid Opcode Exception''
      else if type = 7 then ''Device Not Available''
      else if type = 8 then ''Double Fault''
      else if type = 9 then ''Coprocessor Segment Overrun''
      else if type = 10 then ''Invalid TSS''
      else if type = 11 then ''Segment Not Present''
      else if type = 12 then ''Stack-Segment Fault''
      else if type = 13 then ''General Protection Fault''
      else if type = 14 then ''Page Fault''
      else if type = 16 then ''Floating-Point Exception''
      else if type = 17 then ''Alignment Check''
      else if type = 18 then ''Machine Check''
      else if type = 19 then ''SIMD Floating-Point Exception''
      else if type = 20 then ''Virtualization Exception''
      else ''Unknown Exception'')"

record IDTEFrame =
  reg_cr2 :: u64
  reg_r15 :: u64
  reg_r14 :: u64
  reg_r13 :: u64
  reg_r12 :: u64
  reg_r11 :: u64
  reg_r10 :: u64
  reg_r9 :: u64
  reg_r8 :: u64
  reg_rbp :: u64
  reg_rdi :: u64
  reg_rsi :: u64
  reg_rdx :: u64
  reg_rcx :: u64
  reg_rbx :: u64
  reg_rax :: u64
  reg_type :: u64
  reg_code :: u64
  reg_rip :: u64
  reg_cs :: u64
  reg_flags :: u64
  reg_rsp :: u64
  reg_ss :: u64

text \<open>\<open>%x\<close> takes an \<open>unsigned int\<close>: of the 64-bit registers passed for it the lower half is printed.\<close>

definition dump_Registers :: "string \<Rightarrow> IDTEFrame \<Rightarrow> string \<Rightarrow> string option" where
  "dump_Registers b f term =
     map_option fst (kprintf b
       (''Registers:'' @ [CHR 0x0A] @
        ''RAX: %x RBX: %x RCX: %x RDX: %x'' @ [CHR 0x0A] @
        ''RSI: %x RDI: %x RBP: %x RSP: %x'' @ [CHR 0x0A] @
        ''R8:  %x R9:  %x R10: %x R11: %x'' @ [CHR 0x0A] @
        ''R12: %x R13: %x R14: %x R15: %x'' @ [CHR 0x0A] @
        ''RIP: %x CS: %x'' @ [CHR 0x0A])
       (map (\<lambda>r. Va_int (ucast (r f)))
          [reg_rax, reg_rbx, reg_rcx, reg_rdx, reg_rsi, reg_rdi, reg_rbp, reg_rsp, reg_r8, reg_r9, reg_r10, reg_r11, reg_r12, reg_r13, reg_r14, reg_r15, reg_rip, reg_cs])
       term)"

text \<open>The terminal when the handler stops the machine; the first arguments are the local arrays of \<open>klog\<close> and \<open>kprintf\<close>.\<close>

definition exception_handler ::
  "string \<Rightarrow> string \<Rightarrow> string \<Rightarrow> string \<Rightarrow> u64 \<Rightarrow> IDTEFrame \<Rightarrow> string \<Rightarrow> string option" where
  "exception_handler tmp secbuf msbuf b ticks registers term = do {
     term \<leftarrow> dump_Registers b registers term;
     let label = exception_label (reg_type registers);
     term \<leftarrow> klog tmp secbuf msbuf b ticks KLOG_ERROR ''TRAP'' term;
     map_option fst (kprintf b (''%s'' @ [CHR 0x0A]) [Va_str label] term)
   }"

section \<open>Entry of an exception\<close>

text \<open>
  The stubs and \<open>baseHandler\<close> of \<^verbatim>\<open>asm/idt.asm\<close>. A stack is the list of its words from the top; the two
  interrupt handlers are not stubs. \<open>exception_handler\<close> takes its structure by value, so that the caller's
  stack from the top on is the structure, word by word.
\<close>

record cpu_regs =
  cpu_rax :: u64
  cpu_rbx :: u64
  cpu_rcx :: u64
  cpu_rdx :: u64
  cpu_rsi :: u64
  cpu_rdi :: u64
  cpu_rbp :: u64
  cpu_r8 :: u64
  cpu_r9 :: u64
  cpu_r10 :: u64
  cpu_r11 :: u64
  cpu_r12 :: u64
  cpu_r13 :: u64
  cpu_r14 :: u64
  cpu_r15 :: u64

fun stub :: "routine \<Rightarrow> u64 list \<Rightarrow> u64 list option" where
  "stub divideException st = Some (0 # 0 # st)"
| "stub debugException st = Some (1 # 0 # st)"
| "stub breakpointException st = Some (3 # 0 # st)"
| "stub overflowException st = Some (4 # 0 # st)"
| "stub boundRangeExceededException st = Some (5 # 0 # st)"
| "stub invalidOpcodeException st = Some (6 # 0 # st)"
| "stub deviceNotAvaliableException st = Some (7 # 0 # st)"
| "stub doubleFaultException st = Some (8 # st)"
| "stub coprocessorSegmentOverrunException st = Some (9 # 0 # st)"
| "stub invalidTSSException st = Some (10 # st)"
| "stub segmentNotPresentException st = Some (11 # st)"
| "stub stackSegmentFaultException st = Some (12 # st)"
| "stub generalProtectionFaultException st = Some (13 # st)"
| "stub pageFaultException st = Some (14 # st)"
| "stub floatingPointException st = Some (16 # 0 # st)"
| "stub alignmentCheckException st = Some (17 # st)"
| "stub machineCheckException st = Some (18 # 0 # st)"
| "stub simdFloatingPointException st = Some (19 # 0 # st)"
| "stub virtualisationException st = Some (20 # 0 # st)"
| "stub apic_timer_handler st = None"
| "stub keyboardhandler st = None"

definition baseHandler :: "cpu_regs \<Rightarrow> u64 list \<Rightarrow> u64 list" where
  "baseHandler c st =
     fold (\<lambda>r st. r c # st) [cpu_rax, cpu_rbx, cpu_rcx, cpu_rdx, cpu_rsi, cpu_rdi, cpu_rbp, cpu_r8, cpu_r9, cpu_r10, cpu_r11, cpu_r12, cpu_r13, cpu_r14, cpu_r15] st"

definition frame_at :: "u64 list \<Rightarrow> IDTEFrame" where
  "frame_at st =
     \<lparr>reg_cr2 = st ! 0, reg_r15 = st ! 1, reg_r14 = st ! 2, reg_r13 = st ! 3, reg_r12 = st ! 4, reg_r11 = st ! 5,
      reg_r10 = st ! 6, reg_r9 = st ! 7, reg_r8 = st ! 8, reg_rbp = st ! 9, reg_rdi = st ! 10, reg_rsi = st ! 11,
      reg_rdx = st ! 12, reg_rcx = st ! 13, reg_rbx = st ! 14, reg_rax = st ! 15, reg_type = st ! 16, reg_code = st ! 17,
      reg_rip = st ! 18, reg_cs = st ! 19, reg_flags = st ! 20, reg_rsp = st ! 21, reg_ss = st ! 22\<rparr>"

text \<open>What the processor pushes before it enters a gate: five words, and an error code for some of the vectors.\<close>

definition pushes_code :: "u8 \<Rightarrow> bool" where
  "pushes_code v \<longleftrightarrow> v \<in> {8, 10, 11, 12, 13, 14, 17, 21, 29, 30}"

definition processor_pushes :: "u8 \<Rightarrow> u64 \<Rightarrow> u64 list \<Rightarrow> u64 list \<Rightarrow> u64 list" where
  "processor_pushes v code ret st = (if pushes_code v then [code] else []) @ ret @ st"

text \<open>From the fault to the stopped machine, for the routine that the gate of the vector names.\<close>

definition exception_entry ::
  "string \<Rightarrow> string \<Rightarrow> string \<Rightarrow> string \<Rightarrow> u64 \<Rightarrow> routine \<Rightarrow> cpu_regs \<Rightarrow> u64 list \<Rightarrow> string \<Rightarrow> string option" where
  "exception_entry tmp secbuf msbuf b ticks r c st term = do {
     st \<leftarrow> stub r st;
     exception_handler tmp secbuf msbuf b ticks (frame_at (baseHandler c st)) term
   }"

section \<open>The processor reads what was written\<close>

lemma gate_address_gate:
  "gate_address (d\<lparr>address_low := ucast (a AND 0xFFFF), address_mid := ucast (drop_bit 16 a AND 0xFFFF), address_high := ucast (drop_bit 32 a),
     selector := sel, gate_flags := fl, ist := i\<rparr>) = a"
proof -
  have m: "(0xFFFF :: u64) = mask 16" by (simp add: mask_eq_exp_minus_1)
  show ?thesis
  proof (rule bit_word_eqI)
    fix n :: nat
    consider "n < 16" | "16 \<le> n" "n < 32" | "32 \<le> n" by linarith
    then show "bit (gate_address (d\<lparr>address_low := ucast (a AND 0xFFFF), address_mid := ucast (drop_bit 16 a AND 0xFFFF),
        address_high := ucast (drop_bit 32 a), selector := sel, gate_flags := fl, ist := i\<rparr>)) n = bit a n" if "n < LENGTH(64)"
      using that by cases (auto simp: gate_address_def m bit_simps)
  qed
qed

lemma setIdtGate_nth:
  assumes "length idt = 256"
  shows "gate_address (setIdtGate idt v a sel fl ! unat v) = a" "gate_flags (setIdtGate idt v a sel fl ! unat v) = fl"
    "selector (setIdtGate idt v a sel fl ! unat v) = sel" "w \<noteq> v \<Longrightarrow> setIdtGate idt v a sel fl ! unat w = idt ! unat w"
    "length (setIdtGate idt v a sel fl) = 256"
proof -
  have "unat v < length idt" using unsigned_less[of v] assms by simp
  then show "gate_address (setIdtGate idt v a sel fl ! unat v) = a" "gate_flags (setIdtGate idt v a sel fl ! unat v) = fl"
    "selector (setIdtGate idt v a sel fl ! unat v) = sel"
    using gate_address_gate[of 0 fl sel a "idt ! unat v"] by (simp_all add: setIdtGate_def)
  show "w \<noteq> v \<Longrightarrow> setIdtGate idt v a sel fl ! unat w = idt ! unat w"
    by (simp add: setIdtGate_def word_unat_eq_iff)
  show "length (setIdtGate idt v a sel fl) = 256" using assms by (simp add: setIdtGate_def)
qed

lemma fold_setIdtGate:
  assumes "length idt = 256"
  shows "length (fold (\<lambda>v t. setIdtGate t v (h v) sel fl) vs idt) = 256"
    "if w \<in> set vs then gate_address (fold (\<lambda>v t. setIdtGate t v (h v) sel fl) vs idt ! unat w) = h w \<and>
        gate_flags (fold (\<lambda>v t. setIdtGate t v (h v) sel fl) vs idt ! unat w) = fl \<and>
        selector (fold (\<lambda>v t. setIdtGate t v (h v) sel fl) vs idt ! unat w) = sel
      else fold (\<lambda>v t. setIdtGate t v (h v) sel fl) vs idt ! unat w = idt ! unat w"
  using assms
proof (induction vs arbitrary: idt)
  case (Cons v vs)
  {
    case 1
    show ?case using Cons.IH(1)[OF setIdtGate_nth(5)[OF 1]] by simp
  next
    case 2
    show ?case using Cons.IH(2)[OF setIdtGate_nth(5)[OF 2, where v = v and a = "h v" and sel = sel and fl = fl]] setIdtGate_nth[OF 2, where v = v and a = "h v" and sel = sel and fl = fl]
      by (auto split: if_splits)
  }
qed auto

text \<open>The routine of each vector, and the sequence of calls as a fold over them.\<close>

definition idt_gates :: "(u8 \<times> routine) list" where
  "idt_gates = [(0, divideException), (1, debugException), (3, breakpointException), (4, overflowException),
    (5, boundRangeExceededException), (6, invalidOpcodeException), (7, deviceNotAvaliableException), (8, doubleFaultException),
    (9, coprocessorSegmentOverrunException), (10, invalidTSSException), (11, segmentNotPresentException),
    (12, stackSegmentFaultException), (13, generalProtectionFaultException), (14, pageFaultException), (16, floatingPointException),
    (17, alignmentCheckException), (18, machineCheckException), (19, simdFloatingPointException), (20, virtualisationException),
    (32, apic_timer_handler), (33, keyboardhandler)]"

abbreviation idt_routine :: "u8 \<rightharpoonup> routine" where
  "idt_routine \<equiv> map_of idt_gates"

lemma InitIdt_fold:
  "fst (InitIdt entry a) = fold (\<lambda>v t. setIdtGate t v (entry (the (idt_routine v))) 8 0x8E) (map fst idt_gates) (replicate 256 zero_descriptor)"
  by (simp add: idt_gates_def InitIdt_def Let_def del: replicate.simps)

lemma InitIdt_nth:
  "length (fst (InitIdt entry a)) = 256"
  "(gate_present (fst (InitIdt entry a) ! unat v), gate_address (fst (InitIdt entry a) ! unat v), selector (fst (InitIdt entry a) ! unat v)) =
     (case idt_routine v of Some r \<Rightarrow> (True, entry r, 8) | None \<Rightarrow> (False, 0, 0))"
proof -
  let ?z = "replicate 256 zero_descriptor"
  have "unat v < 256" using unsigned_less[of v] by simp
  then have z: "length ?z = 256" "?z ! unat v = zero_descriptor" by (simp_all only: length_replicate nth_replicate)
  note f = fold_setIdtGate[OF z(1), where h = "\<lambda>v. entry (the (idt_routine v))" and sel = 8 and fl = "0x8E" and vs = "map fst idt_gates"]
  show "length (fst (InitIdt entry a)) = 256" unfolding InitIdt_fold by (rule f)
  have b: "bit (0x8E :: u8) 7" "\<not> bit (0 :: u8) 7" by simp_all
  have zero: "gate_address zero_descriptor = 0" by (simp add: zero_descriptor_def gate_address_def)
  have "v \<in> set (map fst idt_gates) \<longleftrightarrow> idt_routine v \<noteq> None" by (simp add: map_of_eq_None_iff)
  note w = f(2)[where w = v, unfolded this, folded InitIdt_fold[of entry a]]
  show "(gate_present (fst (InitIdt entry a) ! unat v), gate_address (fst (InitIdt entry a) ! unat v), selector (fst (InitIdt entry a) ! unat v)) =
     (case idt_routine v of Some r \<Rightarrow> (True, entry r, 8) | None \<Rightarrow> (False, 0, 0))"
  proof (cases "idt_routine v")
    case None
    with w z(2) have "fst (InitIdt entry a) ! unat v = zero_descriptor" by (simp only: simp_thms if_False)
    with None zero b show ?thesis by (simp add: gate_present_def) (simp add: zero_descriptor_def)
  next
    case (Some r)
    with w b show ?thesis by (simp add: gate_present_def)
  qed
qed

lemma idt_routine_stub:
  assumes "idt_routine v = Some r"
  shows "v = 32 \<and> r = apic_timer_handler \<or> v = 33 \<and> r = keyboardhandler \<or>
    v < 32 \<and> stub r st = Some (ucast v # (if pushes_code v then st else 0 # st))"
  using assms unfolding idt_gates_def by (auto simp: pushes_code_def split: if_splits)

lemma idt_routine_dom: "idt_routine v \<noteq> None \<longleftrightarrow> v \<noteq> 2 \<and> v \<noteq> 15 \<and> v \<le> 20 \<or> v = 32 \<or> v = 33"
proof
  assume "idt_routine v \<noteq> None"
  then have "v \<in> fst ` set idt_gates" by (simp add: map_of_eq_None_iff)
  then show "v \<noteq> 2 \<and> v \<noteq> 15 \<and> v \<le> 20 \<or> v = 32 \<or> v = 33"
    unfolding idt_gates_def list.set image_insert image_empty fst_conv by (elim insertE emptyE) simp_all
next
  assume v: "v \<noteq> 2 \<and> v \<noteq> 15 \<and> v \<le> 20 \<or> v = 32 \<or> v = 33"
  have n: "n \<le> 20 \<Longrightarrow> n \<in> {0, 1, 2, 3, 4, 5, 6, 7, 8, 9, 10, 11, 12, 13, 14, 15, 16, 17, 18, 19, 20}" for n :: nat
    by (simp, arith)
  have "v \<in> {0, 1, 2, 3, 4, 5, 6, 7, 8, 9, 10, 11, 12, 13, 14, 15, 16, 17, 18, 19, 20, 32, 33}"
    using n[of "unat v"] v by (simp add: word_le_nat_alt word_unat_eq_iff, blast)
  with v show "idt_routine v \<noteq> None" by (elim insertE emptyE) (simp_all add: idt_gates_def)
qed

text \<open>
  C24. After \<open>InitIdt\<close> the table that \<open>idtr\<close> describes has present gates, all of the kernel code segment, for the
  vectors 0 to 20 but 2 and 15, for 32 and for 33. The gate of an exception leads to the stub that pushes the number of that
  very vector, above an error code: the one that the processor pushed, for the vectors for which it pushes one,
  and a zero of the stub's own for the others. The gates 32 and 33 lead to the handlers of the timer and of the keyboard.
\<close>

theorem InitIdt_gates:
  "length (fst (InitIdt entry a)) = 256 \<and> unat (ip_limit (snd (InitIdt entry a))) + 1 = 16 * 256 \<and>
   (if v \<noteq> 2 \<and> v \<noteq> 15 \<and> v \<le> 20 \<or> v = 32 \<or> v = 33
    then gate_present (fst (InitIdt entry a) ! unat v) \<and> selector (fst (InitIdt entry a) ! unat v) = 8 \<and>
      (\<exists>r. gate_address (fst (InitIdt entry a) ! unat v) = entry r \<and>
        (if v = 32 then r = apic_timer_handler else if v = 33 then r = keyboardhandler
         else stub r st = Some (ucast v # (if pushes_code v then st else 0 # st))))
    else \<not> gate_present (fst (InitIdt entry a) ! unat v))"
proof -
  have l: "unat (ip_limit (snd (InitIdt entry a))) + 1 = 16 * 256" by (simp add: InitIdt_def Let_def)
  show ?thesis
  proof (cases "idt_routine v")
    case None
    with InitIdt_nth(1)[of entry a] InitIdt_nth(2)[of entry a v] idt_routine_dom[of v] l show ?thesis by auto
  next
    case (Some r)
    from idt_routine_stub[OF this, of st] have "if v = 32 then r = apic_timer_handler else if v = 33 then r = keyboardhandler
        else stub r st = Some (ucast v # (if pushes_code v then st else 0 # st))" by auto
    moreover from Some InitIdt_nth(2)[of entry a v] have "gate_present (fst (InitIdt entry a) ! unat v)"
      "gate_address (fst (InitIdt entry a) ! unat v) = entry r" "selector (fst (InitIdt entry a) ! unat v) = 8" by simp_all
    ultimately show ?thesis using Some InitIdt_nth(1)[of entry a] idt_routine_dom[of v] l by auto
  qed
qed

text \<open>A format of \<open>%x\<close> conversions with text in front of each.\<close>

lemma kprintf_loop_text:
  assumes "cs \<noteq> []" and "\<forall>c \<in> set cs. c \<noteq> CHR ''%'' \<and> c \<noteq> ESC" and "rest = [] \<or> hd rest = CHR ''%''"
    and "0 \<le> written p" and "written p + int (length cs) \<le> INT_MAX"
  shows "kprintf_loop (cs @ rest) args p = kprintf_loop rest args (p\<lparr>out := out p @ cs, written := written p + int (length cs)\<rparr>)"
proof -
  obtain c cs' where cs: "cs = c # cs'" using assms(1) by (cases cs) auto
  have c: "c \<noteq> CHR ''%''" "c \<noteq> ESC" "\<forall>x \<in> set cs'. x \<noteq> CHR ''%''" using assms(2) by (simp_all add: cs)
  have e: "\<not> is_escape (c # xs)" "is_text (c # xs)" for xs
    using c by (simp_all add: is_escape_def is_text_def split: list.split)
  have t: "takeWhile (\<lambda>c. c \<noteq> CHR ''%'') (cs' @ rest) = cs'"
    using c(3) assms(3) by (cases rest) (simp_all add: takeWhile_append2)
  have n: "1 + length cs' = length cs" "\<not> INT_MAX - written p < int (length cs)" using assms(5) by (simp_all add: cs)
  show ?thesis
    by (subst kprintf_loop.simps)
      (simp only: Let_def cs append_Cons list.simps list.sel c if_False if_True e t n n(1)[unfolded cs] n(2)[unfolded cs],
       use assms(5) in \<open>simp add: console_write_def cs\<close>)
qed

lemma kprintf_loop_hexes:
  assumes "length ts = length ns" and "\<forall>cs \<in> set (z # ts). cs \<noteq> [] \<and> (\<forall>c \<in> set cs. c \<noteq> CHR ''%'' \<and> c \<noteq> ESC)"
    and "length (buf p) = 32" and "0 \<le> written p"
    and "written p + int (length (concat (z # ts))) + 10 * int (length ts) \<le> INT_MAX"
  shows "\<exists>p' r. kprintf_loop (concat (map (\<lambda>cs. cs @ ''%x'') ts) @ z) (map Va_int ns) p = Some (p', r) \<and>
    out p' = out p @ concat (map2 (\<lambda>cs n. cs @ show_x n) ts ns) @ z"
  using assms
proof (induction ts ns arbitrary: p rule: list_induct2)
  case Nil
  then show ?case using kprintf_loop_text[of z "[]" p "[]"] by (simp add: kprintf_loop.simps)
next
  case (Cons cs ts n ns)
  let ?rest = "concat (map (\<lambda>cs. cs @ ''%x'') ts) @ z"
  let ?p = "p\<lparr>out := out p @ cs, written := written p + int (length cs)\<rparr>"
  have room: "written p + int (length cs) + 10 + int (length (concat (z # ts))) + 10 * int (length ts) \<le> INT_MAX"
    using Cons.prems(4) by simp
  have cs: "cs \<noteq> []" "\<forall>c \<in> set cs. c \<noteq> CHR ''%'' \<and> c \<noteq> ESC" using Cons.prems(1) by simp_all
  have "kprintf_loop (cs @ ''%x'' @ ?rest) (Va_int n # map Va_int ns) p = kprintf_loop (''%x'' @ ?rest) (Va_int n # map Va_int ns) ?p"
    using cs Cons.prems(3) room by (intro kprintf_loop_text) simp_all
  moreover have w: "written ?p + int (length (show_x n)) \<le> INT_MAX"
    using room length_show_x[of n] by simp
  obtain b' where b: "length b' = 32" "convert (CHR ''x'') (Va_int n # map Va_int ns) ?p =
      Some (map Va_int ns, ?p\<lparr>buf := b', out := out ?p @ show_x n, written := written ?p + int (length (show_x n))\<rparr>)"
    using convert_x[OF _ w, of "map Va_int ns"] Cons.prems(2) by (auto simp del: convert.simps)
  let ?q = "?p\<lparr>buf := b', out := out ?p @ show_x n, written := written ?p + int (length (show_x n))\<rparr>"
  have "kprintf_loop (''%x'' @ ?rest) (Va_int n # map Va_int ns) ?p = kprintf_loop ?rest (map Va_int ns) ?q"
    by (subst kprintf_loop.simps) (simp add: is_escape_def is_text_def b(2) del: convert.simps)
  moreover have "\<exists>p' r. kprintf_loop ?rest (map Va_int ns) ?q = Some (p', r) \<and>
      out p' = out ?q @ concat (map2 (\<lambda>cs n. cs @ show_x n) ts ns) @ z"
    using Cons.prems(1,3) room length_show_x[of n] b(1) by (intro Cons.IH) simp_all
  ultimately show ?case by simp
qed

lemma dump_Registers_eq:
  assumes "length b = 32"
  shows "\<exists>rest. dump_Registers b f t = Some (t @ ''Registers:'' @ [CHR 0x0A] @ ''RAX: '' @ show_x (ucast (reg_rax f)) @ rest)"
proof -
  let ?nl = "[CHR 0x0A]"
  let ?ts = "[''Registers:'' @ ?nl @ ''RAX: '', '' RBX: '', '' RCX: '', '' RDX: '', ?nl @ ''RSI: '', '' RDI: '', '' RBP: '', '' RSP: '',
    ?nl @ ''R8:  '', '' R9:  '', '' R10: '', '' R11: '', ?nl @ ''R12: '', '' R13: '', '' R14: '', '' R15: '', ?nl @ ''RIP: '', '' CS: '']"
  let ?ns = "map (\<lambda>r. ucast (r f)) [reg_rax, reg_rbx, reg_rcx, reg_rdx, reg_rsi, reg_rdi, reg_rbp, reg_rsp, reg_r8, reg_r9, reg_r10, reg_r11, reg_r12, reg_r13, reg_r14, reg_r15, reg_rip, reg_cs] :: u32 list"
  have "\<exists>p' r. kprintf_loop (concat (map (\<lambda>cs. cs @ ''%x'') ?ts) @ ?nl) (map Va_int ?ns) \<lparr>buf = b, out = t, written = 0\<rparr> = Some (p', r) \<and>
      out p' = out \<lparr>buf = b, out = t, written = 0\<rparr> @ concat (map2 (\<lambda>cs n. cs @ show_x n) ?ts ?ns) @ ?nl"
    by (rule kprintf_loop_hexes) (simp_all add: assms)
  then show ?thesis unfolding dump_Registers_def kprintf_def by auto
qed

lemma exception_handler_eq:
  assumes "length tmp = 20" and "length secbuf = 20" and "length msbuf = 8" and "length b = 32" and "unat ticks * 10 < 2 ^ 64"
  shows "\<exists>rest. exception_handler tmp secbuf msbuf b ticks f t = Some (t @ ''Registers:'' @ [CHR 0x0A] @ ''RAX: '' @ show_x (ucast (reg_rax f)) @ rest @
    klog_line (unat ticks * 10) KLOG_ERROR ''TRAP'' @ exception_label (reg_type f) @ [CHR 0x0A])"
proof -
  obtain rest where d: "dump_Registers b f t = Some (t @ ''Registers:'' @ [CHR 0x0A] @ ''RAX: '' @ show_x (ucast (reg_rax f)) @ rest)"
    using dump_Registers_eq[OF assms(4)] by blast
  have k: "klog tmp secbuf msbuf b ticks KLOG_ERROR ''TRAP'' t' = Some (t' @ klog_line (unat ticks * 10) KLOG_ERROR ''TRAP'')" for t'
    by (rule klog_eq[OF assms(1-3,5)]) simp
  have "kprintf b (''%s'' @ [CHR 0x0A]) [Va_str cs] t' = Some (t' @ cs @ [CHR 0x0A], int (length cs + 1))" if "length cs \<le> 100" for cs t'
    using that by (simp add: kprintf_def kprintf_loop.simps is_escape_def is_text_def console_write_def Let_def)
  moreover have "length (exception_label c) \<le> 100" for c by (simp add: exception_label_def)
  ultimately show ?thesis by (simp add: exception_handler_def d k Let_def)
qed

text \<open>
  C25. But \<open>exception_handler\<close> reads the frame one word too far: its structure starts with \<open>cr2\<close>, which \<open>baseHandler\<close> does
  not push. So for every exception with a gate, what it takes for \<open>rax\<close> is the number of the vector and what it takes for the number of the
  vector is the error code: an exception without an error code is always reported as a division by zero,
  and one with an error code under the name that the code has when it is read as a vector.
\<close>

theorem exception_misreported:
  assumes "length tmp = 20" and "length secbuf = 20" and "length msbuf = 8" and "length b = 32" and "unat ticks * 10 < 2 ^ 64"
    and "gate_present (fst (InitIdt entry a) ! unat v)" and "v < 32" and "length ret = 5"
  shows "\<exists>r rest. gate_address (fst (InitIdt entry a) ! unat v) = entry r \<and>
    exception_entry tmp secbuf msbuf b ticks r c (processor_pushes v code ret st) t =
      Some (t @ ''Registers:'' @ [CHR 0x0A] @ ''RAX: '' @ show_x (ucast v) @ rest @ klog_line (unat ticks * 10) KLOG_ERROR ''TRAP'' @
        (if pushes_code v then exception_label code else ''Divide by Zero Exception'') @ [CHR 0x0A])"
proof -
  obtain r where r: "idt_routine v = Some r" "gate_address (fst (InitIdt entry a) ! unat v) = entry r"
    using assms(6) InitIdt_nth(2)[of entry a v] by (auto split: option.splits)
  let ?w = "if pushes_code v then code else 0"
  have "stub r (processor_pushes v code ret st) = Some (ucast v # ?w # ret @ st)"
    using idt_routine_stub[OF r(1), of "processor_pushes v code ret st"] assms(7) by (auto simp: processor_pushes_def)
  moreover have "reg_rax (frame_at (baseHandler c (ucast v # ?w # ret @ st))) = ucast v"
    "reg_type (frame_at (baseHandler c (ucast v # ?w # ret @ st))) = ?w"
    by (simp_all add: frame_at_def baseHandler_def)
  moreover have "exception_label 0 = ''Divide by Zero Exception''" by (simp add: exception_label_def)
  moreover have "ucast (ucast v :: u64) = (ucast v :: u32)" 
    by (rule bit_word_eqI) (auto simp: bit_simps dest: bit_imp_le_length)
  ultimately show ?thesis
    using exception_handler_eq[OF assms(1-5), of "frame_at (baseHandler c (ucast v # ?w # ret @ st))" t] r(2)
    by (auto simp: exception_entry_def)
qed

theorem exception_misreported_witness:
  "\<exists>r rest. gate_address (fst (InitIdt (\<lambda>r. if r = invalidOpcodeException then 0x100000 else 0x200000) 0x300000) ! 6) =
      (if r = invalidOpcodeException then 0x100000 else 0x200000) \<and>
    exception_entry (replicate 20 (CHR ''x'')) (replicate 20 (CHR ''x'')) (replicate 8 (CHR ''x'')) (replicate 32 (CHR ''x'')) 7 r
      \<lparr>cpu_rax = 1, cpu_rbx = 2, cpu_rcx = 3, cpu_rdx = 4, cpu_rsi = 5, cpu_rdi = 6, cpu_rbp = 7, cpu_r8 = 8, cpu_r9 = 9,
       cpu_r10 = 10, cpu_r11 = 11, cpu_r12 = 12, cpu_r13 = 13, cpu_r14 = 14, cpu_r15 = 15\<rparr>
      [0x1000, 8, 2, 0x2000, 16, 99] [] =
    Some (''Registers:'' @ [CHR 0x0A] @ ''RAX: '' @ show_x 6 @ rest @ klog_line 70 KLOG_ERROR ''TRAP'' @ ''Divide by Zero Exception'' @ [CHR 0x0A])"
proof -
  let ?e = "\<lambda>r. if r = invalidOpcodeException then 0x100000 else 0x200000 :: u64"
  have p: "gate_present (fst (InitIdt ?e 0x300000) ! unat (6 :: u8))"
    using InitIdt_nth(2)[of ?e "0x300000" 6] by (simp add: idt_gates_def)
  have "processor_pushes 6 0 [0x1000, 8, 2, 0x2000, 16] [99] = [0x1000, 8, 2, 0x2000, 16, 99]" "\<not> pushes_code 6"
    by (simp_all add: processor_pushes_def pushes_code_def)
  then show ?thesis
    using exception_misreported[OF _ _ _ _ _ p, of "replicate 20 (CHR ''x'')" "replicate 20 (CHR ''x'')" "replicate 8 (CHR ''x'')" "replicate 32 (CHR ''x'')" 7
        "[0x1000, 8, 2, 0x2000, 16]" "\<lparr>cpu_rax = 1, cpu_rbx = 2, cpu_rcx = 3, cpu_rdx = 4, cpu_rsi = 5, cpu_rdi = 6, cpu_rbp = 7, cpu_r8 = 8,
          cpu_r9 = 9, cpu_r10 = 10, cpu_r11 = 11, cpu_r12 = 12, cpu_r13 = 13, cpu_r14 = 14, cpu_r15 = 15\<rparr>" 0 "[99]" "[]"]
    by (simp del: replicate.simps)
qed

lemma gate_base_set:
  "gate_base (e\<lparr>g_limit_low := l, g_base_low := ucast (a AND 0xFFFF), g_base_middle := ucast (drop_bit 16 a AND 0xFF),
     g_base_high := ucast (drop_bit 24 a AND 0xFF), g_flags := f, g_access := c\<rparr>) = ucast (a :: u64)"
proof -
  have m: "(0xFFFF :: u64) = mask 16" "(0xFF :: u64) = mask 8" by (simp_all add: mask_eq_exp_minus_1)
  show ?thesis
  proof (rule bit_word_eqI)
    fix n :: nat
    consider "n < 16" | "16 \<le> n" "n < 24" | "24 \<le> n" by linarith
    then show "bit (gate_base (e\<lparr>g_limit_low := l, g_base_low := ucast (a AND 0xFFFF), g_base_middle := ucast (drop_bit 16 a AND 0xFF),
        g_base_high := ucast (drop_bit 24 a AND 0xFF), g_flags := f, g_access := c\<rparr>)) n = bit (ucast a :: u32) n" if "n < LENGTH(32)"
      using that by cases (auto simp: gate_base_def m bit_simps)
  qed
qed

lemma system_base_tss:
  fixes a :: u64
  assumes "e = \<lparr>g_limit_low = l, g_base_low = ucast (a AND 0xFFFF), g_base_middle = ucast (drop_bit 16 a AND 0xFF), g_access = c,
      g_limit_high = lh, g_flags = f, g_base_high = ucast (drop_bit 24 a AND 0xFF), g_base_upper32 = ucast (drop_bit 32 a), g_reserved = r\<rparr>"
  shows "system_base (gdt_entry_struct.truncate e) (upper_half e) = a"
proof -
  have m: "(0xFFFF :: u64) = mask 16" "(0xFF :: u64) = mask 8" by (simp_all add: mask_eq_exp_minus_1)
  show ?thesis
  proof (rule bit_word_eqI)
    fix n :: nat
    consider "n < 16" | "16 \<le> n" "n < 24" | "24 \<le> n" "n < 32" | "32 \<le> n" "n < 48" | "48 \<le> n" by linarith
    then show "bit (system_base (gdt_entry_struct.truncate e) (upper_half e)) n = bit a n" if "n < LENGTH(64)"
      using that by cases (auto simp: system_base_def gate_base_def upper_half_def assms m gdt_entry_struct.truncate_def bit_simps)
  qed
qed

text \<open>
  The table that \<open>initGdt\<close> leaves: the task segment has the address of the kernel's structure and its last byte as
  limit; but the four code and data segments have the limit \<open>0xFFFF\<close> instead of the \<open>0xFFFFF\<close> that \<open>initGdt\<close>
  passes, because \<open>setGdtGate\<close> never writes the upper bits of the limit.
\<close>

theorem initGdt_segments:
  assumes "gdt_entries s = replicate 7 zero_gate" and "1 \<le> i" and "i \<le> 4"
  shows "system_base (gdt_entries (initGdt at_tss at_gdt s) ! 5) (gdt_entries (initGdt at_tss at_gdt s) ! 6) = at_tss \<and>
    gate_limit (gdt_entries (initGdt at_tss at_gdt s) ! 5) = 9 \<and>
    gate_limit (gdt_entries (initGdt at_tss at_gdt s) ! i) = 0xFFFF \<and> gate_base (gdt_entries (initGdt at_tss at_gdt s) ! i) = 0 \<and>
    unat (gp_limit (gdtr (initGdt at_tss at_gdt s))) + 1 = 8 * length (gdt_entries (initGdt at_tss at_gdt s))"
proof -
  let ?s = "initGdt at_tss at_gdt s"
  let ?e = "\<lparr>g_limit_low = 9, g_base_low = ucast (at_tss AND 0xFFFF), g_base_middle = ucast (drop_bit 16 at_tss AND 0xFF), g_access = 0x89,
      g_limit_high = 0, g_flags = 0, g_base_high = ucast (drop_bit 24 at_tss AND 0xFF), g_base_upper32 = ucast (drop_bit 32 at_tss), g_reserved = 0\<rparr>"
  have tss: "gdt_entries ?s ! 5 = gdt_entry_struct.truncate ?e" "gdt_entries ?s ! 6 = upper_half ?e" "length (gdt_entries ?s) = 7"
    "gp_limit (gdtr ?s) = 55"
    by (simp_all add: initGdt_def setGdtGate_def write_tss_def Let_def assms(1))
  have "i = 1 \<or> i = 2 \<or> i = 3 \<or> i = 4" using assms(2,3) by auto
  then have "g_limit_low (gdt_entries ?s ! i) = 0xFFFF \<and> g_limit_high (gdt_entries ?s ! i) = 0 \<and> g_base_low (gdt_entries ?s ! i) = 0 \<and>
      g_base_middle (gdt_entries ?s ! i) = 0 \<and> g_base_high (gdt_entries ?s ! i) = 0"
    by (elim disjE) (simp_all add: initGdt_def setGdtGate_def write_tss_def Let_def assms(1) zero_gate_def)
  moreover have "system_base (gdt_entries ?s ! 5) (gdt_entries ?s ! 6) = at_tss" unfolding tss by (rule system_base_tss) (rule refl)
  moreover have "gate_limit (gdt_entries ?s ! 5) = 9" unfolding tss by (simp add: gate_limit_def gdt_entry_struct.truncate_def)
  ultimately show ?thesis using tss(3,4) by (simp add: gate_limit_def gate_base_def)
qed

definition ex_gdt :: gdt where
  "ex_gdt = \<lparr>gdt_entries = replicate 7 zero_gate, gdt_tss_entry = gdt_entry_struct.extend zero_gate \<lparr>g_base_upper32 = 0, g_reserved = 0\<rparr>,
     gdtr = \<lparr>gp_limit = 0, gp_base = 0\<rparr>, tss = \<lparr>rsp0 = 0, iopb_offset = 0\<rparr>\<rparr>"

theorem initGdt_segments_witness:
  "gate_limit (gdt_entries (initGdt 0xFFFFFFFF80012340 0xFFFFFFFF80045678 ex_gdt) ! 2) = 0xFFFF"
  using initGdt_segments[of ex_gdt 2 "0xFFFFFFFF80012340" "0xFFFFFFFF80045678"] by (simp add: ex_gdt_def)

end
