(* ===== verification/Apic.thy ===== *)
theory Apic
  imports Paging Bytes
begin

text \<open>
  The interrupt controllers of \<^verbatim>\<open>cpu/apic.c\<close>: the walk over the ACPI tables that finds the local APIC, the I/O
  APIC and the interrupt source overrides, and the access to the registers of both. Tables are read from
  memory; register accesses are device accesses of the machine. \<open>halt\<close> does not return and is \<open>None\<close>.
\<close>

section \<open>ACPI structures\<close>

text \<open>The offsets that the packed structures of \<^verbatim>\<open>include/acpi.h\<close> and \<^verbatim>\<open>include/apic.h\<close> give their fields.\<close>

abbreviation (input) sizeof_ISDTHeader :: u64 where "sizeof_ISDTHeader \<equiv> 36"
abbreviation (input) sizeof_MADT :: u64 where "sizeof_MADT \<equiv> 44"

definition RSDP_rsdt_address :: "mem \<Rightarrow> u64 \<Rightarrow> u32" where
  "RSDP_rsdt_address m p = ld32 m (p + 16)"

definition ISDTHeader_signature :: "mem \<Rightarrow> u64 \<Rightarrow> u8 list" where
  "ISDTHeader_signature m p = map (\<lambda>i. m (p + of_nat i)) [0..<4]"

definition ISDTHeader_length :: "mem \<Rightarrow> u64 \<Rightarrow> u32" where
  "ISDTHeader_length m p = ld32 m (p + 4)"

definition RSDT_entry :: "mem \<Rightarrow> u64 \<Rightarrow> u64 \<Rightarrow> u32" where
  "RSDT_entry m p i = ld32 m (p + sizeof_ISDTHeader + 4 * i)"

definition MADT_local_apic_addr :: "mem \<Rightarrow> u64 \<Rightarrow> u32" where
  "MADT_local_apic_addr m p = ld32 m (p + 36)"

record MADTEntryHeader =
  entry_type :: u8
  record_length :: u8

record IOApic = MADTEntryHeader +
  ioapic_id :: u8
  ioapic_rsvd :: u8
  io_addr :: u32
  global_system_interrupt_base :: u32

record IOApicInterruptSourceOverride = MADTEntryHeader +
  bus_source :: u8
  irq_source :: u8
  global_system_interrupt :: u32
  iso_flags :: u16

definition read_MADTEntryHeader :: "mem \<Rightarrow> u64 \<Rightarrow> MADTEntryHeader" where
  "read_MADTEntryHeader m p = \<lparr>entry_type = m p, record_length = m (p + 1)\<rparr>"

definition read_IOApic :: "mem \<Rightarrow> u64 \<Rightarrow> IOApic" where
  "read_IOApic m p =
     \<lparr>entry_type = m p, record_length = m (p + 1), ioapic_id = m (p + 2), ioapic_rsvd = m (p + 3),
      io_addr = ld32 m (p + 4), global_system_interrupt_base = ld32 m (p + 8)\<rparr>"

definition read_IOApicInterruptSourceOverride :: "mem \<Rightarrow> u64 \<Rightarrow> IOApicInterruptSourceOverride" where
  "read_IOApicInterruptSourceOverride m p =
     \<lparr>entry_type = m p, record_length = m (p + 1), bus_source = m (p + 2), irq_source = m (p + 3),
      global_system_interrupt = ld32 m (p + 4), iso_flags = ld16 m (p + 8)\<rparr>"

text \<open>The fields of \<open>kernel\<close> that belong to the interrupt controllers and the timer.\<close>

record apic =
  rsdp_table :: u64
  rsdt :: u64
  lapic_base :: u64
  ioapic_addr :: u64
  ioapic_device :: IOApic
  iso :: u64
  irq_overrides :: "u32 list"
  apic_ticks :: u64
  lapic_ticks_per_10ms :: u32

section \<open>Registers\<close>

definition verify_apic :: "device \<Rightarrow> 'a machine_scheme \<Rightarrow> bool \<times> 'a machine_scheme" where
  "verify_apic dev s = (let (edx, s) = io_in dev (Instr ''cpuid'') s in (edx AND push_bit 9 1 \<noteq> 0, s))"

definition read_ioapic :: "device \<Rightarrow> u64 \<Rightarrow> u32 \<Rightarrow> 'a machine_scheme \<Rightarrow> u32 \<times> 'a machine_scheme" where
  "read_ioapic dev addr reg s =
     (let virt = addr + hhdm s;
          s = io_out (Wr32 virt reg) s;
          (v, s) = io_in dev (Rd32 (virt + 0x10)) s
      in (ucast v, s))"

definition write_ioapic :: "u64 \<Rightarrow> u32 \<Rightarrow> u32 \<Rightarrow> 'a machine_scheme \<Rightarrow> 'a machine_scheme" where
  "write_ioapic addr reg val s =
     (let virt = addr + hhdm s in io_out (Wr32 (virt + 0x10) val) (io_out (Wr32 virt reg) s))"

definition read_lapic :: "device \<Rightarrow> u64 \<Rightarrow> u32 \<Rightarrow> 'a machine_scheme \<Rightarrow> u32 \<times> 'a machine_scheme" where
  "read_lapic dev lapic reg s = (let (v, s) = io_in dev (Rd32 (lapic + ucast reg)) s in (ucast v, s))"

definition write_lapic :: "u64 \<Rightarrow> u64 \<Rightarrow> u32 \<Rightarrow> 'a machine_scheme \<Rightarrow> 'a machine_scheme" where
  "write_lapic lapic reg_offset val s = io_out (Wr32 (lapic + reg_offset) val) s"

definition set_ioapic_entry :: "u8 \<Rightarrow> u8 \<Rightarrow> u64 \<Rightarrow> u64 \<Rightarrow> apic \<Rightarrow> 'a machine_scheme \<Rightarrow> 'a machine_scheme" where
  "set_ioapic_entry vector irq flags lapic k s =
     (let ioapic_info = push_bit 56 lapic OR (ucast vector AND 0xFF);
          ioapic_info = ioapic_info AND NOT (push_bit 16 1);
          ioapic_info = ioapic_info AND NOT (push_bit 15 1);
          ioapic_info = ioapic_info AND NOT (push_bit 13 1);
          irq_register = (ucast irq - global_system_interrupt_base (ioapic_device k)) * 2 + 0x10;
          s = write_ioapic (ioapic_addr k) irq_register (ucast ioapic_info) s
      in write_ioapic (ioapic_addr k) (irq_register + 1) (ucast (drop_bit 32 ioapic_info)) s)"

definition unmask_ioapic :: "device \<Rightarrow> u32 \<Rightarrow> apic \<Rightarrow> 'a machine_scheme \<Rightarrow> 'a machine_scheme" where
  "unmask_ioapic dev gsi k s =
     (let addr = ucast (io_addr (ioapic_device k));
          reg_low = 0x10 + gsi * 2;
          (low, s) = read_ioapic dev addr reg_low s
      in write_ioapic addr reg_low (low AND NOT (push_bit 16 1)) s)"

definition mask_ioapic :: "device \<Rightarrow> u32 \<Rightarrow> apic \<Rightarrow> 'a machine_scheme \<Rightarrow> 'a machine_scheme" where
  "mask_ioapic dev gsi k s =
     (let addr = ucast (io_addr (ioapic_device k));
          reg_low = 0x10 + gsi * 2;
          (low, s) = read_ioapic dev addr reg_low s
      in write_ioapic addr reg_low (low OR push_bit 16 1) s)"

definition end_of_interrupt :: "apic \<Rightarrow> 'a machine_scheme \<Rightarrow> 'a machine_scheme" where
  "end_of_interrupt k s = write_lapic (lapic_base k) 0x0B0 0 s"

definition init_local_apic :: "u64 \<Rightarrow> 'a machine_scheme \<Rightarrow> 'a machine_scheme" where
  "init_local_apic lapic_addr s =
     (let s = write_lapic lapic_addr 0x0F0 0x1FF s;
          s = write_lapic lapic_addr 0x080 0x00 s
      in write_lapic lapic_addr 0x0E0 0xFFFFFFFF s)"

section \<open>Finding the controllers\<close>

function find_MADT_loop :: "'a machine_scheme \<Rightarrow> u64 \<Rightarrow> u64 \<Rightarrow> u64 \<Rightarrow> u64" where
  "find_MADT_loop s root_rsdt num_entries i =
     (if i < num_entries
      then let this_header = ucast (RSDT_entry (ram s) root_rsdt i) + hhdm s
           in if ISDTHeader_signature (ram s) this_header = [0x41, 0x50, 0x49, 0x43] then this_header
              else find_MADT_loop s root_rsdt num_entries (i + 1)
      else 0)"
  by auto
termination
  by (relation "measure (\<lambda>(_, _, n, i). unat n - unat i)") (simp_all add: word_loop_measure)
declare find_MADT_loop.simps [simp del]

definition find_MADT :: "'a machine_scheme \<Rightarrow> u64 \<Rightarrow> u64" where
  "find_MADT s root_rsdt =
     find_MADT_loop s root_rsdt ((ucast (ISDTHeader_length (ram s) root_rsdt) - sizeof_ISDTHeader) div 4) 0"

definition madt_entry :: "u64 \<Rightarrow> 'a vmm_scheme \<times> apic \<Rightarrow> 'a vmm_scheme \<times> apic" where
  "madt_entry entry sk =
     (case sk of (s, k) \<Rightarrow>
        if entry_type (read_MADTEntryHeader (ram s) entry) = 1
        then let ioapic = read_IOApic (ram s) entry;
                 ioapic_phys = ucast (io_addr ioapic);
                 ioapic_virt = ioapic_phys + hhdm s
             in (map_page s ioapic_virt ioapic_phys 3 1,
                 k\<lparr>ioapic_device := ioapic, ioapic_addr := ucast (io_addr ioapic)\<rparr>)
        else if entry_type (read_MADTEntryHeader (ram s) entry) = 2
        then let o' = read_IOApicInterruptSourceOverride (ram s) entry;
                 k = (if irq_source o' < 16
                      then k\<lparr>irq_overrides := (irq_overrides k)[unat (irq_source o') := global_system_interrupt o']\<rparr> else k)
             in (s, k\<lparr>iso := entry\<rparr>)
        else (s, k))"

function madt_loop :: "u64 \<Rightarrow> u64 \<Rightarrow> u64 \<Rightarrow> nat \<Rightarrow> 'a vmm_scheme \<times> apic \<Rightarrow> ('a vmm_scheme \<times> apic) option" where
  "madt_loop madt madt_end offset entry_index sk =
     (if offset < madt_end
      then let entry = madt + offset;
               len = ucast (record_length (read_MADTEntryHeader (ram (fst sk)) entry))
           in if len < 2 \<or> offset + len > madt_end then None
              else let sk = madt_entry entry sk;
                       len = ucast (record_length (read_MADTEntryHeader (ram (fst sk)) entry))
                   in if entry_index + 1 > 256 then None
                      else madt_loop madt madt_end (offset + len) (entry_index + 1) sk
      else Some sk)"
  by auto
termination by (relation "measure (\<lambda>(_, _, _, i, _). 257 - i)") auto
declare madt_loop.simps [simp del]

definition init_apic :: "device \<Rightarrow> 'a vmm_scheme \<times> apic \<Rightarrow> ('a vmm_scheme \<times> apic) option" where
  "init_apic dev sk =
     (case sk of (s, k) \<Rightarrow>
        if rsdp_table k = 0 then None
        else let k = k\<lparr>rsdt := ucast (RSDP_rsdt_address (ram s) (rsdp_table k)) + hhdm s\<rparr>
             in if rsdt k = 0 then None
                else let (has_apic, s) = verify_apic dev s
                     in if \<not> has_apic then None
                        else let madt = find_MADT s (rsdt k)
                             in if madt = 0 then None
                                else let lapic_phys = ucast (MADT_local_apic_addr (ram s) madt);
                                         k = k\<lparr>lapic_base := lapic_phys + hhdm s\<rparr>;
                                         s = map_page s (lapic_base k) lapic_phys 3 1;
                                         s = init_local_apic (lapic_base k) s;
                                         k = k\<lparr>irq_overrides := map of_nat [0..<16]\<rparr>
                                     in madt_loop madt (ucast (ISDTHeader_length (ram s) madt)) sizeof_MADT 0 (s, k))"

section \<open>What the walk over the MADT finds\<close>

text \<open>The records of the table and their bytes; a record of another type is its type and its payload.\<close>

datatype madt_rec = Rec_io u8 u8 u32 u32 | Rec_iso u8 u8 u32 u16 | Rec_other u8 "u8 list"

fun enc :: "madt_rec \<Rightarrow> u8 list" where
  "enc (Rec_io i r a g) = [1, 12, i, r] @ le 4 a @ le 4 g"
| "enc (Rec_iso b src g fl) = [2, 10, b, src] @ le 4 g @ le 2 fl"
| "enc (Rec_other ty payload) = [ty, of_nat (2 + length payload)] @ payload"

fun rec_ok :: "madt_rec \<Rightarrow> bool" where
  "rec_ok (Rec_io i r a g) = True"
| "rec_ok (Rec_iso b src g fl) = True"
| "rec_ok (Rec_other ty payload) = (ty \<noteq> 1 \<and> ty \<noteq> 2 \<and> length payload \<le> 253)"

fun is_io :: "madt_rec \<Rightarrow> bool" where
  "is_io (Rec_io i r a g) = True"
| "is_io _ = False"

text \<open>What the kernel should learn from a record.\<close>

fun learn :: "madt_rec \<Rightarrow> (u32 list \<times> (u32 \<times> u32) option) \<Rightarrow> (u32 list \<times> (u32 \<times> u32) option)" where
  "learn (Rec_io i r a g) (ov, io) = (ov, Some (a, g))"
| "learn (Rec_iso b src g fl) (ov, io) = (if src < 16 then ov[unat src := g] else ov, io)"
| "learn (Rec_other ty payload) (ov, io) = (ov, io)"

text \<open>What the kernel knows.\<close>

definition knows :: "apic \<Rightarrow> (u32 list \<times> (u32 \<times> u32) option) \<Rightarrow> bool" where
  "knows k x \<longleftrightarrow> irq_overrides k = fst x \<and>
     (case snd x of None \<Rightarrow> True | Some (a, g) \<Rightarrow>
        io_addr (ioapic_device k) = a \<and> global_system_interrupt_base (ioapic_device k) = g \<and> ioapic_addr k = ucast a)"

text \<open>Bytes of a table that lie in memory which the page tables do not use.\<close>

definition table_image :: "'a vmm_scheme \<Rightarrow> u64 \<Rightarrow> u8 list \<Rightarrow> bool" where
  "table_image s a bs \<longleftrightarrow> bytes_at (ram s) a bs \<and> (\<forall>i < length bs. client_byte s (a + of_nat i))"

lemma table_image_tail: "table_image s a (xs @ ys) \<Longrightarrow> table_image s (a + of_nat (length xs)) ys"
  using bytes_at_append[of "ram s" a xs ys] by (auto simp: table_image_def add.assoc simp flip: of_nat_add)

lemma map_io_page:
  assumes "vm_ok s" and "3 \<le> free_count s" and "s' = map_page s virt (ucast (a :: u32)) 3 1"
  shows "vm_ok s'" "free_count s \<le> free_count s' + 3" "table_image s p bs \<Longrightarrow> table_image s' p bs"
proof -
  have "unat (ucast a :: u64) = unat a" by (rule unat_ucast_up) simp
  moreover have "unat a < 2 ^ LENGTH(32)" by (rule unsigned_less)
  ultimately have fit: "unat (ucast a :: u64) + unat (1 :: u64) * 4096 \<le> 2 ^ 40" by simp
  have b: "bit (3 :: u64) 0" by simp
  note f = map_page_facts[OF assms(1) b _ fit assms(3)]
  show "vm_ok s'" "free_count s \<le> free_count s' + 3" using f(1,2) assms(2) by simp_all
  show "table_image s p bs \<Longrightarrow> table_image s' p bs" using f(5) assms(2) by (auto simp: table_image_def bytes_at_def)
qed

lemma madt_entry_step:
  assumes img: "table_image s entry (enc e)" and ok: "rec_ok e" and vm: "vm_ok s" "is_io e \<longrightarrow> 3 \<le> free_count s"
    and kn: "knows k x" "length (irq_overrides k) = 16" and r: "madt_entry entry (s, k) = (s', k')"
  shows "vm_ok s'" "free_count s \<le> free_count s' + (if is_io e then 3 else 0)" "table_image s p bs \<Longrightarrow> table_image s' p bs"
    "knows k' (learn e x)" "length (irq_overrides k') = 16"
proof -
  have byt: "bytes_at (ram s) entry (enc e)" using img by (simp add: table_image_def)
  have "(vm_ok s' \<and> free_count s \<le> free_count s' + (if is_io e then 3 else 0) \<and> (table_image s p bs \<longrightarrow> table_image s' p bs)) \<and>
    knows k' (learn e x) \<and> length (irq_overrides k') = 16"
  proof (cases e)
    case (Rec_io i rs a g)
    then have m: "ram s entry = 1" "io_addr (read_IOApic (ram s) entry) = a" "global_system_interrupt_base (read_IOApic (ram s) entry) = g"
      using byt by (simp_all add: bytes_at_append read_IOApic_def add.assoc)
    then have "s' = map_page s (ucast a + hhdm s) (ucast a) 3 1" "k' = k\<lparr>ioapic_device := read_IOApic (ram s) entry, ioapic_addr := ucast a\<rparr>"
      using r by (auto simp: madt_entry_def read_MADTEntryHeader_def Let_def)
    then show ?thesis using map_io_page[OF vm(1) _ \<open>s' = _\<close>] vm(2) kn m by (cases x) (simp add: Rec_io knows_def)
  next
    case (Rec_iso b src g fl)
    then have m: "ram s entry = 2" "irq_source (read_IOApicInterruptSourceOverride (ram s) entry) = src"
        "global_system_interrupt (read_IOApicInterruptSourceOverride (ram s) entry) = g"
      using byt by (simp_all add: bytes_at_append read_IOApicInterruptSourceOverride_def add.assoc)
    then show ?thesis using r vm kn
      by (cases x) (auto simp: Rec_iso madt_entry_def read_MADTEntryHeader_def Let_def knows_def split: option.splits)
  next
    case (Rec_other ty payload)
    then have "ram s entry = ty" using byt by simp
    then show ?thesis using r vm kn ok by (cases x) (auto simp: Rec_other madt_entry_def read_MADTEntryHeader_def)
  qed
  then show "vm_ok s'" "free_count s \<le> free_count s' + (if is_io e then 3 else 0)" "table_image s p bs \<Longrightarrow> table_image s' p bs"
    "knows k' (learn e x)" "length (irq_overrides k') = 16" by blast+
qed

lemma record_length_enc:
  assumes "bytes_at m entry (enc e)" and "rec_ok e"
  shows "unat (ucast (record_length (read_MADTEntryHeader m entry)) :: u64) = length (enc e)" "2 \<le> length (enc e)"
proof -
  have u: "unat (2 + of_nat n :: u8) = 2 + n" if "n \<le> 253" for n
    using unat_of_nat_small[of "2 + n", where 'a = 8] that by simp
  have "unat (record_length (read_MADTEntryHeader m entry)) = length (enc e)"
    using assms by (cases e) (auto simp: read_MADTEntryHeader_def u)
  moreover have "unat (ucast (x :: u8) :: u64) = unat x" for x by (rule unat_ucast_up) simp
  ultimately show "unat (ucast (record_length (read_MADTEntryHeader m entry)) :: u64) = length (enc e)" by simp
  show "2 \<le> length (enc e)" by (cases e) auto
qed

text \<open>
  C26. The walk of \<open>init_apic\<close> over a well-formed MADT: with the records \<open>es\<close> behind the header, at most 256 of
  them, and enough page frames to map the I/O APICs, the loop ends without stopping the machine; the overrides and
  the I/O APIC that the kernel then knows are those of the records in order, an override for a source above
  15 being ignored; the page tables stay well-formed.
\<close>

theorem madt_loop_learns:
  assumes "table_image s (madt + offset) (concat (map enc es))" and "list_all rec_ok es"
    and "unat offset + length (concat (map enc es)) = unat madt_end" and "entry_index + length es \<le> 256"
    and "vm_ok s" and "3 * length (filter is_io es) \<le> free_count s" and "knows k x" and "length (irq_overrides k) = 16"
  shows "\<exists>s' k'. madt_loop madt madt_end offset entry_index (s, k) = Some (s', k') \<and> vm_ok s' \<and> knows k' (fold learn es x)"
  using assms
proof (induction es arbitrary: s k x offset entry_index)
  case Nil
  then have "offset = madt_end" by (simp add: word_unat_eq_iff)
  then show ?case using Nil by (subst madt_loop.simps) simp
next
  case (Cons e es)
  let ?entry = "madt + offset" and ?rest = "concat (map enc es)"
  let ?len = "ucast (record_length (read_MADTEntryHeader (ram s) ?entry)) :: u64"
  have img: "table_image s ?entry (enc e @ ?rest)" using Cons.prems(1) by simp
  then have img_e: "table_image s ?entry (enc e)" by (auto simp: table_image_def bytes_at_append)
  have re: "rec_ok e" using Cons.prems(2) by simp
  have len: "unat ?len = length (enc e)" "2 \<le> length (enc e)"
    using record_length_enc[OF _ re, of "ram s" ?entry] img_e by (auto simp: table_image_def)
  have tot: "unat offset + length (enc e) + length ?rest = unat madt_end" using Cons.prems(3) by simp
  have off: "unat (offset + ?len) = unat offset + length (enc e)"
    using tot len(1) unat_lt64[of madt_end] by (simp add: unat_add_nowrap)
  obtain s1 k1 where st: "madt_entry ?entry (s, k) = (s1, k1)" by fastforce
  have io: "is_io e \<longrightarrow> 3 \<le> free_count s" using Cons.prems(6) by auto
  note step = madt_entry_step[OF img_e re Cons.prems(5) io Cons.prems(7,8) st]
  have "unat (ucast (record_length (read_MADTEntryHeader (ram s1) ?entry)) :: u64) = length (enc e)"
    using record_length_enc[OF _ re, of "ram s1" ?entry] step(3)[OF img_e] by (auto simp: table_image_def)
  then have "ucast (record_length (read_MADTEntryHeader (ram s1) ?entry)) = ?len"
    using len(1) by (simp only: word_unat_eq_iff)
  moreover have "offset < madt_end" "\<not> ?len < 2" "\<not> offset + ?len > madt_end"
    using tot len off by (auto simp: word_less_nat_alt)
  ultimately have "madt_loop madt madt_end offset entry_index (s, k) = madt_loop madt madt_end (offset + ?len) (entry_index + 1) (s1, k1)"
    using Cons.prems(4) st by (subst madt_loop.simps) (simp add: Let_def)
  moreover have "table_image s1 (madt + (offset + ?len)) ?rest"
  proof -
    have "of_nat (unat ?len) = ?len" by simp
    then have "?len = of_nat (length (enc e))" by (simp only: len(1))
    then show ?thesis using step(3)[OF table_image_tail[OF img]] by (simp add: add.assoc)
  qed
  moreover have "3 * length (filter is_io es) \<le> free_count s1" using Cons.prems(6) step(2) by (auto split: if_splits)
  ultimately show ?case using Cons.IH[of s1 "offset + ?len" "entry_index + 1" k1 "learn e x"] Cons.prems(2,4) step tot off by auto
qed

text \<open>The machine of the paging examples with a table in memory that the allocator does not manage.\<close>

definition ex_records :: "madt_rec list" where
  "ex_records = [Rec_other 0 [0, 0, 1, 0, 0, 0], Rec_io 0 0 0xFEC00000 0, Rec_iso 0 0 2 0, Rec_iso 0 20 7 0, Rec_iso 0 9 9 13]"

definition ex_table_ram :: mem where
  "ex_table_ram x = (let i = unat (x - 0x80100000); bs = concat (map enc ex_records)
     in if i < length bs then bs ! i else ram ex_vmm x)"

definition ex_apic :: apic where
  "ex_apic = \<lparr>rsdp_table = 0, rsdt = 0, lapic_base = 0, ioapic_addr = 0xFEC00000,
     ioapic_device = \<lparr>entry_type = 1, record_length = 12, ioapic_id = 0, ioapic_rsvd = 0, io_addr = 0xFEC00000,
       global_system_interrupt_base = 0\<rparr>,
     iso = 0, irq_overrides = map of_nat [0..<16], apic_ticks = 0, lapic_ticks_per_10ms = 0\<rparr>"

definition ex_boot :: vmm where
  "ex_boot = (let (p, s1) = pmm_alloc_page (ex_vmm\<lparr>ram := ex_table_ram\<rparr>) 1
     in s1\<lparr>PML4 := phys_to_virt s1 p, ram := memset (ram s1) (phys_to_virt s1 p) 0 4096\<rparr>)"

lemma ex_boot_ok: "vm_ok ex_boot" "3 \<le> free_count ex_boot"
  "table_image ex_boot 0x80100000 (concat (map enc ex_records))"
proof -
  let ?s = "ex_vmm\<lparr>ram := ex_table_ram\<rparr>" and ?bs = "concat (map enc ex_records)"
  obtain p s1 where a: "pmm_alloc_page ?s 1 = (p, s1)" by fastforce
  have eq: "ex_boot = s1\<lparr>PML4 := phys_to_virt s1 p, ram := memset (ram s1) (phys_to_virt s1 p) 0 4096\<rparr>"
    by (simp add: ex_boot_def a)
  have len: "length ?bs = 50" by (simp add: ex_records_def)
  have "ex_table_ram x = ram ex_vmm x" if "frame_of ex_vmm x < bitmap_pages ex_vmm" for x
  proof -
    have "\<not> unat (x - 0x80100000) < 50"
    proof
      assume lt: "unat (x - 0x80100000) < 50"
      have d: "x - bitmap ex_vmm = (x - 0x80100000) + 0xFF000" by (simp add: ex_vmm_def)
      have "unat (x - bitmap ex_vmm) = unat (x - 0x80100000) + 0xFF000"
        unfolding d using lt by (subst unat_add_nowrap) simp_all
      then show False using that by (simp add: frame_of_def bitmap_pages_def ex_vmm_def)
    qed
    then show ?thesis by (simp add: ex_table_ram_def Let_def len)
  qed
  then have used: "page_used ?s n = page_used ex_vmm n" if "n < page_count ex_vmm" for n
    using page_used_cong[OF ex_vmm_wf that, of ex_table_ram "ram ex_vmm"] by simp
  have wf: "pmm_wf ?s" using ex_vmm_wf bitmap_pages_le[of ex_vmm] used by (simp add: pmm_wf_def)
  have "free_count ?s = free_count ex_vmm" unfolding free_count_def by (rule arg_cong[where f = card]) (auto simp: used)
  then have fc: "28 \<le> free_count ?s" using ex_vmm_free by simp
  have geo: "unat (physical_base ?s) mod 4096 = 0" "unat (physical_base ?s) + page_count ?s * 4096 \<le> 2 ^ 40"
    using ex_vmm_geometry by simp_all
  have pos: "0 < free_count ?s" using fc by simp
  note f = fresh_tables[OF wf geo pos a eq]
  show "vm_ok ex_boot" "3 \<le> free_count ex_boot" using f(1,2) fc by simp_all
  have "client_byte ex_boot (0x80100000 + of_nat i) \<and> ram ex_boot (0x80100000 + of_nat i) = ?bs ! i" if i: "i < 50" for i
  proof -
    have u: "unat (of_nat i :: u64) = i" using i by (simp add: unat_of_nat_small)
    have "unat (0x80100000 + of_nat i - bitmap ex_vmm) = 0xFF000 + i"
      using i u by (simp add: ex_vmm_def unat_add_nowrap)
    then have "page_count ?s \<le> frame_of ?s (0x80100000 + of_nat i)" by (simp add: frame_of_def) (simp add: ex_vmm_def)
    from f(5)[OF this] show ?thesis using i u by (simp add: ex_table_ram_def Let_def len)
  qed
  then show "table_image ex_boot 0x80100000 ?bs" by (simp add: table_image_def bytes_at_def len)
qed

theorem madt_loop_learns_witness:
  "\<exists>s' k'. madt_loop 0x800FFFD4 94 44 0 (ex_boot, ex_apic) = Some (s', k') \<and> vm_ok s' \<and>
     irq_overrides k' = [2, 1, 2, 3, 4, 5, 6, 7, 8, 9, 10, 11, 12, 13, 14, 15] \<and> ioapic_addr k' = 0xFEC00000"
proof -
  have "\<exists>s' k'. madt_loop 0x800FFFD4 94 44 0 (ex_boot, ex_apic) = Some (s', k') \<and> vm_ok s' \<and>
     knows k' (fold learn ex_records (map of_nat [0..<16], None))"
    using ex_boot_ok by (intro madt_loop_learns) (simp_all add: knows_def ex_apic_def, simp_all add: ex_records_def)
  moreover have "fold learn ex_records (map of_nat [0..<16], None) =
      ([2, 1, 2, 3, 4, 5, 6, 7, 8, 9, 10, 11, 12, 13, 14, 15], Some (0xFEC00000, 0))"
    by (simp add: ex_records_def upt_rec)
  ultimately show ?thesis by (auto simp: knows_def)
qed

section \<open>Routing an interrupt\<close>

text \<open>
  The I/O APIC as a device: it keeps the index written to its first register and a register file behind the
  window at offset \<open>0x10\<close>.
\<close>

fun ioapic_step :: "u64 \<Rightarrow> io \<Rightarrow> u32 \<times> (u32 \<Rightarrow> u32) \<Rightarrow> u32 \<times> (u32 \<Rightarrow> u32)" where
  "ioapic_step virt (Wr32 a v) (sel, regs) =
     (if a = virt then (v, regs) else if a = virt + 0x10 then (sel, regs(sel := v)) else (sel, regs))"
| "ioapic_step virt _ st = st"

definition ioapic_after :: "u64 \<Rightarrow> (u32 \<Rightarrow> u32) \<Rightarrow> io list \<Rightarrow> u32 \<times> (u32 \<Rightarrow> u32)" where
  "ioapic_after virt regs tr = fold (ioapic_step virt) tr (0, regs)"

text \<open>A device that answers reads of the window with the selected register.\<close>

definition answers :: "device \<Rightarrow> u64 \<Rightarrow> (u32 \<Rightarrow> u32) \<Rightarrow> bool" where
  "answers dev virt regs \<longleftrightarrow>
     (\<forall>tr. ucast (dev tr (Rd32 (virt + 0x10))) = (case ioapic_after virt regs tr of (sel, r) \<Rightarrow> r sel))"

definition ioapic_regs :: "u64 \<Rightarrow> (u32 \<Rightarrow> u32) \<Rightarrow> 'a machine_scheme \<Rightarrow> u32 \<Rightarrow> u32" where
  "ioapic_regs virt regs s = snd (ioapic_after virt regs (trace s))"

lemma ioapic_after_append: "ioapic_after virt regs (tr @ es) = fold (ioapic_step virt) es (ioapic_after virt regs tr)"
  by (simp add: ioapic_after_def)

lemma write_ioapic_regs:
  assumes "virt = addr + hhdm s"
  shows "ioapic_regs virt regs (write_ioapic addr r v s) = (ioapic_regs virt regs s)(r := v)"
    "hhdm (write_ioapic addr r v s) = hhdm s"
  using assms by (cases "ioapic_after virt regs (trace s)";
    simp add: write_ioapic_def Let_def ioapic_regs_def ioapic_after_append)+

lemma read_ioapic_regs:
  assumes "virt = addr + hhdm s" and "answers dev virt regs"
  shows "fst (read_ioapic dev addr r s) = ioapic_regs virt regs s r"
    "ioapic_regs virt regs (snd (read_ioapic dev addr r s)) = ioapic_regs virt regs s"
    "hhdm (snd (read_ioapic dev addr r s)) = hhdm s"
proof -
  obtain sel rs where a: "ioapic_after virt regs (trace s) = (sel, rs)" by fastforce
  have "ucast (dev (trace s @ [Wr32 virt r]) (Rd32 (virt + 0x10))) = rs r"
    using assms(2) by (simp add: answers_def ioapic_after_append a)
  then show "fst (read_ioapic dev addr r s) = ioapic_regs virt regs s r"
    by (simp add: read_ioapic_def Let_def io_in_def assms(1)[symmetric] ioapic_regs_def a)
  show "ioapic_regs virt regs (snd (read_ioapic dev addr r s)) = ioapic_regs virt regs s"
    by (simp add: read_ioapic_def Let_def io_in_def assms(1)[symmetric] ioapic_regs_def ioapic_after_append a)
  show "hhdm (snd (read_ioapic dev addr r s)) = hhdm s" by (simp add: read_ioapic_def Let_def io_in_def)
qed

lemma mask_ioapic_regs:
  assumes "virt = ucast (io_addr (ioapic_device k)) + hhdm s" and "answers dev virt regs"
  shows "ioapic_regs virt regs (mask_ioapic dev gsi k s) = (ioapic_regs virt regs s)(0x10 + gsi * 2 := ioapic_regs virt regs s (0x10 + gsi * 2) OR push_bit 16 1)"
    "ioapic_regs virt regs (unmask_ioapic dev gsi k s) = (ioapic_regs virt regs s)(0x10 + gsi * 2 := ioapic_regs virt regs s (0x10 + gsi * 2) AND NOT (push_bit 16 1))"
proof -
  let ?a = "ucast (io_addr (ioapic_device k)) :: u64" and ?r = "0x10 + gsi * 2"
  obtain low s1 where r: "read_ioapic dev ?a ?r s = (low, s1)" by fastforce
  note f = read_ioapic_regs[OF assms, of ?r, unfolded r fst_conv snd_conv]
  have v: "virt = ?a + hhdm s1" using assms(1) f(3) by simp
  show "ioapic_regs virt regs (mask_ioapic dev gsi k s) = (ioapic_regs virt regs s)(?r := ioapic_regs virt regs s ?r OR push_bit 16 1)"
    "ioapic_regs virt regs (unmask_ioapic dev gsi k s) = (ioapic_regs virt regs s)(?r := ioapic_regs virt regs s ?r AND NOT (push_bit 16 1))"
    using f write_ioapic_regs(1)[OF v, of regs] by (simp_all add: mask_ioapic_def unmask_ioapic_def Let_def r)
qed

lemma entry_bits:
  fixes vector :: u8 and lapic :: u64
  assumes "8 \<le> p" and "8 \<le> q" and "8 \<le> r" and "p < 32" and "q < 32" and "r < 32"
    and "info = (((push_bit 56 lapic OR (ucast vector AND mask 8)) AND NOT (push_bit p 1)) AND NOT (push_bit q 1)) AND NOT (push_bit r 1)"
  shows "ucast info = (ucast vector :: u32)" "(ucast (drop_bit 32 info) :: u32) = ucast (drop_bit 32 (push_bit 56 lapic))"
  unfolding assms(7)
  by (rule bit_word_eqI; use assms in \<open>auto simp: bit_simps dest: bit_imp_le_length\<close>)+

lemma vector_unmasked:
  assumes "8 \<le> p"
  shows "(ucast (vector :: u8) :: u32) AND NOT (push_bit p 1) = ucast vector"
  by (rule bit_word_eqI) (use assms in \<open>auto simp: bit_simps dest: bit_imp_le_length\<close>)

text \<open>
  C27. Programming the I/O APIC for an interrupt line and unmasking it, as the kernel does for the keyboard, the
  timer and every dynamic interrupt. Whatever the first line \<open>base\<close> of the I/O APIC is, \<open>set_ioapic_entry\<close> writes the vector, unmasked,
  and the destination to the entry \<open>irq - base\<close>, and the flags that the caller asks for have no effect; but
  \<open>unmask_ioapic\<close> and \<open>mask_ioapic\<close> clear and set the mask bit of the entry \<open>irq\<close>, without subtracting \<open>base\<close>. No other register changes.
  When \<open>base\<close> is 0, the two are the same entry: it holds exactly the vector, unmasked, and masking sets its mask bit
  alone. The kernel must have found one I/O APIC, which it addresses in both ways.
\<close>

theorem ioapic_routes:
  assumes "virt = ioapic_addr k + hhdm s" and "ioapic_addr k = ucast (io_addr (ioapic_device k))" and "answers dev virt regs"
    and "s1 = unmask_ioapic dev (ucast irq) k (set_ioapic_entry vector irq flags lapic k s)"
    and "e = ucast irq - global_system_interrupt_base (ioapic_device k)"
    and "programmed = (ioapic_regs virt regs s)(0x10 + e * 2 := ucast vector, 0x11 + e * 2 := ucast (drop_bit 32 (push_bit 56 lapic)))"
  shows "ioapic_regs virt regs s1 =
      programmed(0x10 + ucast irq * 2 := programmed (0x10 + ucast irq * 2) AND NOT (push_bit 16 1)) \<and>
    ioapic_regs virt regs (mask_ioapic dev (ucast irq) k s1) =
      programmed(0x10 + ucast irq * 2 := programmed (0x10 + ucast irq * 2) OR push_bit 16 1) \<and>
    (global_system_interrupt_base (ioapic_device k) = 0 \<longrightarrow>
      ioapic_regs virt regs s1 = programmed \<and>
      ioapic_regs virt regs (mask_ioapic dev (ucast irq) k s1) = programmed(0x10 + ucast irq * 2 := ucast vector OR push_bit 16 1))"
proof -
  let ?r = "0x10 + e * 2 :: u32" and ?h = "0x11 + e * 2 :: u32" and ?g = "0x10 + ucast irq * 2 :: u32"
  have ff: "(0xFF :: u64) = mask 8" by (simp add: mask_eq_exp_minus_1)
  note info = entry_bits[OF _ _ _ _ _ _ refl, where p = 16 and q = 15 and r = 13 and lapic = lapic and vector = vector, folded ff]
  let ?s0 = "set_ioapic_entry vector irq flags lapic k s"
  have s0: "?s0 = write_ioapic (ioapic_addr k) ?h (ucast (drop_bit 32 (push_bit 56 lapic))) (write_ioapic (ioapic_addr k) ?r (ucast vector) s)"
    by (simp only: set_ioapic_entry_def Let_def info(1,2) assms(5)[symmetric]) (simp add: add.commute)
  have hh: "hhdm ?s0 = hhdm s" unfolding s0 by (simp add: write_ioapic_def Let_def)
  have regs0: "ioapic_regs virt regs ?s0 = programmed" unfolding s0 assms(6) using assms(1) by (simp add: write_ioapic_regs)
  have v: "virt = ucast (io_addr (ioapic_device k)) + hhdm ?s0" using assms(1,2) hh by simp
  have one: "ioapic_regs virt regs s1 = programmed(?g := programmed ?g AND NOT (push_bit 16 1))"
    unfolding assms(4) using mask_ioapic_regs(2)[OF v assms(3), of "ucast irq"] by (simp add: regs0)
  have "hhdm s1 = hhdm s"
    unfolding assms(4) using hh by (simp add: unmask_ioapic_def read_ioapic_def write_ioapic_def Let_def io_in_def)
  then have v1: "virt = ucast (io_addr (ioapic_device k)) + hhdm s1" using assms(1,2) by simp
  have "(x AND NOT (push_bit 16 1)) OR push_bit 16 1 = x OR push_bit 16 1" for x :: u32
    by (rule bit_word_eqI) (auto simp: bit_simps)
  then have two: "ioapic_regs virt regs (mask_ioapic dev (ucast irq) k s1) = programmed(?g := programmed ?g OR push_bit 16 1)"
    using mask_ioapic_regs(1)[OF v1 assms(3), of "ucast irq"] by (simp add: one)
  have "programmed ?g = ucast vector" if "global_system_interrupt_base (ioapic_device k) = 0"
    using that by (simp add: assms(5,6))
  with one two vector_unmasked[of 16 vector] show ?thesis by (auto simp: fun_upd_idem)
qed

definition ex_ioapic :: device where
  "ex_ioapic tr e = (case ioapic_after 0x17EC00000 (\<lambda>_. 0x10000) tr of (sel, r) \<Rightarrow> ucast (r sel))"

theorem ioapic_routes_witness:
  "ioapic_regs 0x17EC00000 (\<lambda>_. 0x10000) (unmask_ioapic ex_ioapic 1 ex_apic (set_ioapic_entry 0x21 1 0 3 ex_apic ex_vmm)) 0x12 = 0x21 \<and>
   ioapic_regs 0x17EC00000 (\<lambda>_. 0x10000) (unmask_ioapic ex_ioapic 1 ex_apic (set_ioapic_entry 0x21 1 0 3 ex_apic ex_vmm)) 0x13 = 0x3000000 \<and>
   ioapic_regs 0x17EC00000 (\<lambda>_. 0x10000) (unmask_ioapic ex_ioapic 1 ex_apic (set_ioapic_entry 0x21 1 0 3 ex_apic ex_vmm)) 0x10 = 0x10000"
proof -
  have "ucast (ucast (x :: u32) :: u64) = x" for x
    by (rule bit_word_eqI) (simp add: bit_simps)
  then have "answers ex_ioapic 0x17EC00000 (\<lambda>_. 0x10000)"
    by (auto simp: answers_def ex_ioapic_def split: prod.splits)
  moreover have "ioapic_regs 0x17EC00000 (\<lambda>_. 0x10000) ex_vmm = (\<lambda>_. 0x10000)"
    by (simp add: ioapic_regs_def ioapic_after_def ex_vmm_def)
  ultimately show ?thesis
    using ioapic_routes[where virt = "0x17EC00000" and k = ex_apic and s = ex_vmm and dev = ex_ioapic and regs = "\<lambda>_. 0x10000"
      and irq = 1 and vector = "0x21" and flags = 0 and lapic = 3, OF _ _ _ refl refl refl]
    by (simp add: ex_apic_def ex_vmm_def)
qed

end
