(* ===== verification/Timer.thy ===== *)
theory Timer
  imports Apic
begin

text \<open>
  Waiting for hardware: the loops that poll a device, the programmable interval timer (\<^verbatim>\<open>cpu/pit.c\<close>), the local APIC
  timer with its tick counter (\<^verbatim>\<open>cpu/apic_timer.c\<close>) and the legacy interrupt controller (\<^verbatim>\<open>cpu/util.c\<close>). The answers of
  the devices are a parameter, so a loop may run forever: it is then \<^const>\<open>None\<close>.
\<close>

section \<open>Polling\<close>

text \<open>\<open>poll step s\<close> repeats a step until the step says that it is done.\<close>

partial_function (option) poll :: "('s \<Rightarrow> bool \<times> 's) \<Rightarrow> 's \<Rightarrow> 's option" where
  "poll step s = (case step s of (stop, s') \<Rightarrow> if stop then Some s' else poll step s')"

text \<open>The state before the round \<open>n\<close> when no earlier round stops.\<close>

primrec rounds :: "('s \<Rightarrow> bool \<times> 's) \<Rightarrow> nat \<Rightarrow> 's \<Rightarrow> 's" where
  "rounds step 0 s = s"
| "rounds step (Suc n) s = rounds step n (snd (step s))"

lemma rounds_Suc: "rounds step (Suc n) s = snd (step (rounds step n s))"
  by (induction n arbitrary: s) simp_all

text \<open>A loop whose step is done in some round returns, and the state is that after the first such round.\<close>

lemma poll_returns:
  assumes "fst (step (rounds step n s))" and "\<And>i. i < n \<Longrightarrow> \<not> fst (step (rounds step i s))"
  shows "poll step s = Some (rounds step (Suc n) s)"
  using assms
proof (induction n arbitrary: s)
  case 0
  then show ?case by (subst poll.simps) (auto simp: case_prod_beta)
next
  case (Suc n)
  have "\<not> fst (step s)" using Suc.prems(2)[of 0] by simp
  then have "poll step s = poll step (snd (step s))" by (subst poll.simps) (simp add: case_prod_beta)
  also have "\<dots> = Some (rounds step (Suc n) (snd (step s)))"
    using Suc.prems(1) Suc.prems(2)[of "Suc _"] by (intro Suc.IH) auto
  finally show ?case by simp
qed

lemma poll_some_round:
  assumes "fst (step (rounds step n s))"
  shows "\<exists>m \<le> n. poll step s = Some (rounds step (Suc m) s) \<and> fst (step (rounds step m s))"
proof -
  obtain m where m: "fst (step (rounds step m s))" "\<And>i. i < m \<Longrightarrow> \<not> fst (step (rounds step i s))" "m \<le> n"
    using ex_least_nat_le[of "\<lambda>n. fst (step (rounds step n s))", OF assms] by blast
  then show ?thesis using poll_returns[where step = step, OF m(1,2)] by (intro exI[of _ m]) simp
qed

text \<open>A loop that returns has been done in some round.\<close>

lemma poll_done:
  assumes "poll step s = Some t"
  shows "\<exists>n. t = rounds step (Suc n) s \<and> fst (step (rounds step n s))"
proof (rule poll.raw_induct[where P = "\<lambda>step s t. \<exists>n. t = rounds step (Suc n) s \<and> fst (step (rounds step n s))", OF _ assms])
  fix poll and step :: "'a \<Rightarrow> bool \<times> 'a" and s t
  assume IH: "\<And>step s t. poll step s = Some t \<Longrightarrow> \<exists>n. t = rounds step (Suc n) s \<and> fst (step (rounds step n s))"
    and r: "(case step s of (stop, s') \<Rightarrow> if stop then Some s' else poll step s') = Some t"
  obtain stop s' where st: "step s = (stop, s')" by fastforce
  show "\<exists>n. t = rounds step (Suc n) s \<and> fst (step (rounds step n s))"
  proof (cases stop)
    case True
    with r st show ?thesis by (intro exI[of _ 0]) simp
  next
    case False
    with r st have "poll step s' = Some t" by simp
    from IH[OF this] obtain n where "t = rounds step (Suc n) s'" "fst (step (rounds step n s'))" by blast
    with st show ?thesis by (intro exI[of _ "Suc n"]) simp
  qed
qed

section \<open>The programmable interval timer\<close>

definition disableLegacyPIC :: "'a machine_scheme \<Rightarrow> 'a machine_scheme" where
  "disableLegacyPIC s = io_out (Out8 0xA1 0xff) (io_out (Out8 0x21 0xff) s)"

definition read_pit_count :: "device \<Rightarrow> 'a machine_scheme \<Rightarrow> u32 \<times> 'a machine_scheme" where
  "read_pit_count dev s =
     (let s = io_out (Out8 0x43 0x00) s;
          (low, s) = io_in dev (In8 0x40) s;
          (high, s) = io_in dev (In8 0x40) s
      in (ucast (ucast low :: u8) OR push_bit 8 (ucast (ucast high :: u8)), s))"

definition set_pit_count :: "u32 \<Rightarrow> 'a machine_scheme \<Rightarrow> 'a machine_scheme" where
  "set_pit_count count s =
     (let s = io_out (Out8 0x43 0x30) s;
          s = io_out (Out8 0x40 (ucast (count AND 0xFF))) s
      in io_out (Out8 0x40 (ucast (drop_bit 8 (count AND 0xFF00)))) s)"

text \<open>One round of the loop of \<open>wait_for_pit\<close>, on the last value seen and the machine.\<close>

definition pit_round :: "device \<Rightarrow> u16 \<times> 'a machine_scheme \<Rightarrow> bool \<times> u16 \<times> 'a machine_scheme" where
  "pit_round dev ls =
     (case ls of (lst, s) \<Rightarrow>
        let (count, s) = read_pit_count dev s;
            val = ucast count :: u16;
            lst = (if val \<noteq> lst \<and> val < lst then val else lst)
        in (val = 0, lst, s))"

definition wait_for_pit :: "device \<Rightarrow> 'a machine_scheme \<Rightarrow> 'a machine_scheme option" where
  "wait_for_pit dev s =
     (let s = io_out (Instr ''cli'') s;
          s = set_pit_count 11931 s
      in map_option snd (poll (pit_round dev) (0xFFFF, s)))"

section \<open>The timer of the local APIC\<close>

abbreviation "APIC_REGISTER_TIMER_DIV \<equiv> 0x3E0"
abbreviation "APIC_REGISTER_TIMER_INITCNT \<equiv> 0x380"
abbreviation "APIC_REGISTER_TIMER_CURRCNT \<equiv> 0x390"
abbreviation "APIC_REGISTER_LVT_TIMER \<equiv> 0x320"
abbreviation APIC_LVT_INT_MASKED :: u32 where "APIC_LVT_INT_MASKED \<equiv> push_bit 16 1"
abbreviation APIC_LVT_TIMER_MODE_PERIODIC :: u32 where "APIC_LVT_TIMER_MODE_PERIODIC \<equiv> push_bit 17 1"

definition apic_timer_handler :: "'a machine_scheme \<times> apic \<Rightarrow> 'a machine_scheme \<times> apic" where
  "apic_timer_handler sk =
     (case sk of (s, k) \<Rightarrow> let k = k\<lparr>apic_ticks := apic_ticks k + 1\<rparr> in (end_of_interrupt k s, k))"

definition init_apic_timer :: "device \<Rightarrow> 'a machine_scheme \<times> apic \<Rightarrow> ('a machine_scheme \<times> apic) option" where
  "init_apic_timer dev sk =
     (case sk of (s, k) \<Rightarrow>
        let k = k\<lparr>apic_ticks := 0\<rparr>;
            s = write_lapic (lapic_base k) APIC_REGISTER_TIMER_DIV 0x3 s;
            s = write_lapic (lapic_base k) APIC_REGISTER_TIMER_INITCNT 0xFFFFFFFF s;
            s = io_out (Instr ''cli'') s
        in case wait_for_pit dev s of None \<Rightarrow> None
           | Some s \<Rightarrow>
             let s = write_lapic (lapic_base k) APIC_REGISTER_LVT_TIMER APIC_LVT_INT_MASKED s;
                 (cur, s) = read_lapic dev (lapic_base k) APIC_REGISTER_TIMER_CURRCNT s;
                 k = k\<lparr>lapic_ticks_per_10ms := 0xFFFFFFFF - cur\<rparr>;
                 s = write_lapic (lapic_base k) APIC_REGISTER_LVT_TIMER (32 OR APIC_LVT_TIMER_MODE_PERIODIC) s;
                 s = write_lapic (lapic_base k) APIC_REGISTER_TIMER_DIV 0x3 s;
                 s = write_lapic (lapic_base k) APIC_REGISTER_TIMER_INITCNT (lapic_ticks_per_10ms k) s;
                 gsi = irq_overrides k ! 0;
                 s = set_ioapic_entry 0x21 0 0 0 k s
             in Some (unmask_ioapic dev gsi k s, k))"

text \<open>
  While the processor is halted interrupts arrive: \<open>ticks n\<close> says how many of those that end the halt number \<open>n\<close>
  are timer interrupts. A round of \<open>sleep\<close> is one halt.
\<close>

definition sleep_round :: "(nat \<Rightarrow> nat) \<Rightarrow> u64 \<Rightarrow> u64 \<Rightarrow> nat \<times> 'a machine_scheme \<times> apic \<Rightarrow> bool \<times> nat \<times> 'a machine_scheme \<times> apic" where
  "sleep_round ticks start target_ticks nsk =
     (case nsk of (n, s, k) \<Rightarrow>
        if apic_ticks k - start < target_ticks
        then (False, Suc n, (apic_timer_handler ^^ ticks n) (io_out (Instr ''hlt'') s, k))
        else (True, n, s, k))"

definition sleep :: "(nat \<Rightarrow> nat) \<Rightarrow> u64 \<Rightarrow> 'a machine_scheme \<times> apic \<Rightarrow> ('a machine_scheme \<times> apic) option" where
  "sleep ticks target_ticks sk = map_option snd (poll (sleep_round ticks (apic_ticks (snd sk)) target_ticks) (0, sk))"

definition busy_round :: "device \<Rightarrow> u64 \<Rightarrow> 'a machine_scheme \<Rightarrow> bool \<times> 'a machine_scheme" where
  "busy_round dev lapic s =
     (let (cur, s) = read_lapic dev lapic APIC_REGISTER_TIMER_CURRCNT s
      in if cur \<noteq> 0 then (False, io_out (Instr ''nop'') s) else (True, s))"

definition lapic_busy_wait_ticks :: "device \<Rightarrow> u32 \<Rightarrow> 'a machine_scheme \<times> apic \<Rightarrow> ('a machine_scheme \<times> apic) option" where
  "lapic_busy_wait_ticks dev count sk =
     (case sk of (s, k) \<Rightarrow>
        let count = (if count = 0 then 1 else count);
            (saved_lvt, s) = read_lapic dev (lapic_base k) APIC_REGISTER_LVT_TIMER s;
            s = write_lapic (lapic_base k) APIC_REGISTER_LVT_TIMER APIC_LVT_INT_MASKED s;
            s = write_lapic (lapic_base k) APIC_REGISTER_TIMER_INITCNT count s
        in case poll (busy_round dev (lapic_base k)) s of None \<Rightarrow> None
           | Some s \<Rightarrow>
             let s = write_lapic (lapic_base k) APIC_REGISTER_LVT_TIMER saved_lvt s
             in Some (write_lapic (lapic_base k) APIC_REGISTER_TIMER_INITCNT (lapic_ticks_per_10ms k) s, k))"

section \<open>Sleeping\<close>

lemma apic_timer_handler_ticks:
  "apic_ticks (snd ((apic_timer_handler ^^ n) (s, k))) = apic_ticks k + of_nat n"
  by (induction n) (simp_all add: apic_timer_handler_def case_prod_beta Let_def)

text \<open>How many timer interrupts the first \<open>n\<close> halts see.\<close>

definition seen :: "(nat \<Rightarrow> nat) \<Rightarrow> nat \<Rightarrow> nat" where
  "seen ticks n = (\<Sum>i < n. ticks i)"

lemma sleep_rounds:
  assumes "\<forall>i < n. seen ticks i < unat target" and "seen ticks n < 2 ^ 64"
  shows "fst (rounds (sleep_round ticks (apic_ticks k) target) n (0, s, k)) = n \<and>
    apic_ticks (snd (snd (rounds (sleep_round ticks (apic_ticks k) target) n (0, s, k)))) = apic_ticks k + of_nat (seen ticks n)"
  using assms
proof (induction n)
  case 0
  then show ?case by (simp add: seen_def)
next
  case (Suc n)
  let ?r = "rounds (sleep_round ticks (apic_ticks k) target)"
  have le: "seen ticks n \<le> seen ticks (Suc n)" by (simp add: seen_def)
  obtain m s' k' where r: "?r n (0, s, k) = (m, s', k')" by (cases "?r n (0, s, k)") auto
  with Suc le have m: "m = n" "apic_ticks k' = apic_ticks k + of_nat (seen ticks n)" by simp_all
  have "unat (of_nat (seen ticks n) :: u64) = seen ticks n" using Suc.prems(2) le by (intro unat_of_nat_small) simp
  then have "apic_ticks k' - apic_ticks k < target" using Suc.prems(1) by (simp add: m word_less_nat_alt)
  then show ?case
    unfolding rounds_Suc r by (simp add: sleep_round_def m apic_timer_handler_ticks seen_def)
qed

text \<open>
  C28. \<open>sleep\<close> returns as soon as the timer interrupts that have arrived reach the number asked for, and not before, also
  when the counter wraps around: if the halts \<open>0, \<dots>, n - 1\<close> bring the first \<open>target\<close> interrupts and
  no shorter sequence does, the counter has advanced by just those of the first \<open>n\<close> halts.
\<close>

theorem sleep_returns:
  assumes "unat target \<le> seen ticks n" and "\<forall>i < n. seen ticks i < unat target" and "seen ticks n < 2 ^ 64"
  shows "\<exists>s' k'. sleep ticks target (s, k) = Some (s', k') \<and> apic_ticks k' = apic_ticks k + of_nat (seen ticks n)"
proof -
  let ?step = "sleep_round ticks (apic_ticks k) target :: nat \<times> 'a machine_scheme \<times> apic \<Rightarrow> _"
  have le: "seen ticks i \<le> seen ticks n" if "i \<le> n" for i unfolding seen_def using that by (intro sum_mono2) auto
  have at: "fst (rounds ?step i (0, s, k)) = i \<and>
      apic_ticks (snd (snd (rounds ?step i (0, s, k)))) = apic_ticks k + of_nat (seen ticks i)"
    if "i \<le> n" for i
    using assms(2,3) le[OF that] that by (intro sleep_rounds) auto
  have stop: "fst (?step (rounds ?step i (0, s, k))) \<longleftrightarrow> unat target \<le> seen ticks i" if "i \<le> n" for i
  proof -
    obtain m s' k' where r: "rounds ?step i (0, s, k) = (m, s', k')" by (cases "rounds ?step i (0, s, k)") auto
    have "unat (of_nat (seen ticks i) :: u64) = seen ticks i" using le[OF that] assms(3) by (intro unat_of_nat_small) simp
    then show ?thesis using at[OF that] by (simp add: r sleep_round_def word_less_nat_alt not_less)
  qed
  have "poll ?step (0, s, k) = Some (rounds ?step (Suc n) (0, s, k))"
    using stop[of n] assms(1,2) stop by (intro poll_returns) auto
  moreover obtain m s' k' where r: "rounds ?step n (0, s, k) = (m, s', k')" by (cases "rounds ?step n (0, s, k)") auto
  moreover have "?step (m, s', k') = (True, m, s', k')" using stop[of n] assms(1) r by (auto simp: sleep_round_def split: if_splits)
  ultimately have "sleep ticks target (s, k) = Some (s', k')" by (simp add: sleep_def rounds_Suc del: rounds.simps)
  then show ?thesis using at[of n] r by auto
qed

theorem sleep_returns_witness:
  "\<exists>s' k'. sleep (\<lambda>n. n) 3 (ex_vmm, ex_apic\<lparr>apic_ticks := 0xFFFFFFFFFFFFFFFE\<rparr>) = Some (s', k') \<and> apic_ticks k' = 1"
proof -
  let ?t = "\<lambda>n :: nat. n"
  have s: "seen ?t 0 = 0" "seen ?t 1 = 0" "seen ?t 2 = 1" "seen ?t 3 = 3" by (simp_all add: seen_def eval_nat_numeral)
  have "\<forall>i < 3. seen ?t i < unat (3 :: u64)"
  proof (intro allI impI)
    fix i :: nat assume "i < 3"
    then consider "i = 0" | "i = 1" | "i = 2" by linarith
    then show "seen ?t i < unat (3 :: u64)" by cases (simp_all only: s, simp_all)
  qed
  moreover have w: "(18446744073709551617 :: u64) = 1" by simp
  ultimately show ?thesis
    using sleep_returns[where n = 3 and target = 3 and ticks = ?t and s = ex_vmm and k = "ex_apic\<lparr>apic_ticks := 0xFFFFFFFFFFFFFFFE\<rparr>"]
    by (simp add: s w)
qed

end
