(* ===== verification/Irq.thy ===== *)
theory Irq
  imports Apic Descriptors
begin

text \<open>
  Dynamic interrupts (\<^verbatim>\<open>cpu/irq.c\<close>): a table of eight handlers behind eight trampolines at the vectors 48 to 55. A
  function is its address; what a call of it does is a parameter, as are the addresses of the trampolines.
\<close>

section \<open>The table\<close>

record irq_t =
  irq_func :: u64
  irq_arg :: u64
  irq_used :: u8

abbreviation MAX_DYNAMIC_IRQS :: nat where "MAX_DYNAMIC_IRQS \<equiv> 8"
abbreviation DYNAMIC_IRQ_BASE :: nat where "DYNAMIC_IRQ_BASE \<equiv> 48"
abbreviation IRQ_TYPE_LEGACY :: u8 where "IRQ_TYPE_LEGACY \<equiv> 1"

text \<open>The table and the interrupt descriptors that go with it.\<close>

record irqs =
  irq_table :: "irq_t list"
  IDT :: "InterruptDescriptor64 list"

definition init_irq_subsystem :: "irqs \<Rightarrow> irqs" where
  "init_irq_subsystem q = q\<lparr>irq_table := replicate MAX_DYNAMIC_IRQS \<lparr>irq_func = 0, irq_arg = 0, irq_used = 0\<rparr>\<rparr>"

definition irq_trampoline :: "(u64 \<Rightarrow> u64 \<Rightarrow> 'a machine_scheme \<Rightarrow> 'a machine_scheme) \<Rightarrow> irqs \<Rightarrow> apic \<Rightarrow> nat \<Rightarrow> 'a machine_scheme \<Rightarrow> 'a machine_scheme" where
  "irq_trampoline call q k n s =
     (let s = (if irq_used (irq_table q ! n) \<noteq> 0 \<and> irq_func (irq_table q ! n) \<noteq> 0
               then call (irq_func (irq_table q ! n)) (irq_arg (irq_table q ! n)) s else s)
      in end_of_interrupt k s)"

fun free_slot :: "irq_t list \<Rightarrow> nat \<Rightarrow> nat option" where
  "free_slot [] i = None"
| "free_slot (e # es) i = (if irq_used e = 0 then Some i else free_slot es (Suc i))"

definition irq_create ::
  "device \<Rightarrow> (nat \<Rightarrow> u64) \<Rightarrow> apic \<Rightarrow> u16 \<Rightarrow> u8 \<Rightarrow> u64 \<Rightarrow> u64 \<Rightarrow> u64 \<Rightarrow> irqs \<times> 'a machine_scheme \<Rightarrow> u8 \<times> irqs \<times> 'a machine_scheme" where
  "irq_create dev irq_trampolines k irq ty func arg flags qs =
     (case qs of (q, s) \<Rightarrow>
        case free_slot (irq_table q) 0 of
          None \<Rightarrow> (0, q, s)
        | Some slot \<Rightarrow>
          let q = q\<lparr>irq_table := (irq_table q)[slot := \<lparr>irq_func = func, irq_arg = arg, irq_used = 1\<rparr>]\<rparr>;
              vector = of_nat (DYNAMIC_IRQ_BASE + slot) :: u8;
              q = q\<lparr>IDT := setIdtGate (IDT q) vector (irq_trampolines slot) 0x08 0x8E\<rparr>;
              s = (if ty = IRQ_TYPE_LEGACY
                   then let gsi = (if irq < 16 then irq_overrides k ! unat irq else ucast irq);
                            s = set_ioapic_entry vector (ucast gsi) (ucast (ucast flags :: u8)) 0 k s
                        in unmask_ioapic dev gsi k s
                   else s)
          in (vector, q, s))"

definition irq_destroy :: "u8 \<Rightarrow> irqs \<Rightarrow> irqs" where
  "irq_destroy vector q =
     (let slot = int (unat vector) - int DYNAMIC_IRQ_BASE
      in if slot < 0 \<or> slot \<ge> int MAX_DYNAMIC_IRQS then q
         else q\<lparr>irq_table := (irq_table q)[nat slot := \<lparr>irq_func = 0, irq_arg = 0, irq_used = 0\<rparr>]\<rparr>)"

section \<open>The handlers as a map\<close>

text \<open>What the clients of the table see: which vector has which handler and argument.\<close>

definition handlers :: "irqs \<Rightarrow> u8 \<rightharpoonup> u64 \<times> u64" where
  "handlers q v =
     (let i = unat v - DYNAMIC_IRQ_BASE
      in if DYNAMIC_IRQ_BASE \<le> unat v \<and> i < MAX_DYNAMIC_IRQS \<and> irq_used (irq_table q ! i) \<noteq> 0
         then Some (irq_func (irq_table q ! i), irq_arg (irq_table q ! i)) else None)"

text \<open>Every slot in use is reached through its own gate.\<close>

definition irqs_ok :: "(nat \<Rightarrow> u64) \<Rightarrow> irqs \<Rightarrow> bool" where
  "irqs_ok tr q \<longleftrightarrow> length (irq_table q) = MAX_DYNAMIC_IRQS \<and> length (IDT q) = 256 \<and>
     (\<forall>i < MAX_DYNAMIC_IRQS. irq_used (irq_table q ! i) \<noteq> 0 \<longrightarrow>
        gate_present (IDT q ! (DYNAMIC_IRQ_BASE + i)) \<and> gate_address (IDT q ! (DYNAMIC_IRQ_BASE + i)) = tr i)"

lemma free_slot_Some:
  "free_slot es i = Some j \<Longrightarrow> i \<le> j \<and> j < i + length es \<and> irq_used (es ! (j - i)) = 0"
  by (induction es i rule: free_slot.induct) (auto split: if_splits simp: nth_Cons' Suc_diff_Suc)

lemma free_slot_None: "free_slot es i = None \<longleftrightarrow> (\<forall>e \<in> set es. irq_used e \<noteq> 0)"
  by (induction es i rule: free_slot.induct) auto

lemma dyn_vector: "i < MAX_DYNAMIC_IRQS \<Longrightarrow> unat (of_nat (DYNAMIC_IRQ_BASE + i) :: u8) = DYNAMIC_IRQ_BASE + i"
  by (rule unat_of_nat_small) simp

lemma vector_slot: "DYNAMIC_IRQ_BASE \<le> unat v \<Longrightarrow> (v :: u8) = of_nat (DYNAMIC_IRQ_BASE + (unat v - DYNAMIC_IRQ_BASE))"
  by simp

lemma handlers_range: "handlers q v = Some h \<Longrightarrow> v \<in> {48..55}"
  by (auto simp: handlers_def Let_def word_le_nat_alt split: if_splits)

lemma init_irqs_ok: "length (IDT q) = 256 \<Longrightarrow> irqs_ok tr (init_irq_subsystem q)" "handlers (init_irq_subsystem q) = Map.empty"
  by (auto simp: irqs_ok_def init_irq_subsystem_def handlers_def Let_def fun_eq_iff)

lemma irq_create_None:
  assumes "irqs_ok tr q" and "free_slot (irq_table q) 0 = None"
  shows "irq_create dev tr k irq ty f a fl (q, s) = (0, q, s)" "v \<in> {48..55} \<Longrightarrow> handlers q v \<noteq> None"
proof -
  show "irq_create dev tr k irq ty f a fl (q, s) = (0, q, s)" using assms(2) by (simp add: irq_create_def)
  assume "v \<in> {48..55}"
  then have "unat v - 48 < length (irq_table q)" "48 \<le> unat v" using assms(1) by (auto simp: irqs_ok_def word_le_nat_alt)
  then show "handlers q v \<noteq> None"
    using assms by (auto simp: handlers_def Let_def free_slot_None irqs_ok_def)
qed

lemma irq_create_Some:
  assumes ok: "irqs_ok tr q" and slot: "free_slot (irq_table q) 0 = Some i" and r: "irq_create dev tr k irq ty f a fl (q, s) = (v, q', s')"
  shows "v = of_nat (48 + i)" "i < 8" "irqs_ok tr q'" "handlers q v = None" "handlers q' = (handlers q)(v \<mapsto> (f, a))"
    "gate_present (IDT q' ! unat v)" "gate_address (IDT q' ! unat v) = tr i"
    "\<And>w :: u8. w \<noteq> v \<Longrightarrow> IDT q' ! unat w = IDT q ! unat w"
proof -
  from free_slot_Some[OF slot] ok show i: "i < 8" by (simp add: irqs_ok_def)
  have u: "irq_used (irq_table q ! i) = 0" using free_slot_Some[OF slot] by simp
  show v: "v = of_nat (48 + i)" using r slot by (simp add: irq_create_def Let_def)
  have uv: "unat v = 48 + i" unfolding v by (rule dyn_vector[OF i])
  have len: "length (IDT q) = 256" "length (irq_table q) = 8" using ok by (simp_all add: irqs_ok_def)
  have q': "q' = q\<lparr>irq_table := (irq_table q)[i := \<lparr>irq_func = f, irq_arg = a, irq_used = 1\<rparr>],
      IDT := setIdtGate (IDT q) v (tr i) 0x08 0x8E\<rparr>"
    using r slot by (simp add: irq_create_def Let_def v)
  note g = setIdtGate_nth[OF len(1), where v = v and a = "tr i" and sel = 8 and fl = "0x8E"]
  show pr: "gate_present (IDT q' ! unat v)" "gate_address (IDT q' ! unat v) = tr i"
    using g(1,2) by (simp_all add: q' gate_present_def)
  show keep: "IDT q' ! unat w = IDT q ! unat w" if "w \<noteq> v" for w using g(4)[OF that] by (simp add: q')
  show "irqs_ok tr q'"
    unfolding irqs_ok_def
  proof (intro conjI allI impI)
    fix j assume j: "j < 8" "irq_used (irq_table q' ! j) \<noteq> 0"
    have "gate_present (IDT q' ! (48 + j)) \<and> gate_address (IDT q' ! (48 + j)) = tr j"
    proof (cases "j = i")
      case True
      show ?thesis using pr unfolding uv True by simp
    next
      case False
      have w: "unat (of_nat (48 + j) :: u8) = 48 + j" by (rule dyn_vector[OF j(1)])
      then have "of_nat (48 + j) \<noteq> v" using False uv by (metis add_left_cancel)
      from keep[OF this] have "IDT q' ! (48 + j) = IDT q ! (48 + j)" unfolding w .
      then show ?thesis using ok j False by (auto simp: irqs_ok_def q')
    qed
    then show "gate_present (IDT q' ! (48 + j))" "gate_address (IDT q' ! (48 + j)) = tr j" by blast+
  qed (use g(5) len in \<open>simp_all add: q'\<close>)
  show "handlers q v = None" using u by (simp add: handlers_def uv)
  show "handlers q' = (handlers q)(v \<mapsto> (f, a))"
  proof
    fix w
    show "handlers q' w = ((handlers q)(v \<mapsto> (f, a))) w"
      using uv i len(2) by (auto simp: handlers_def Let_def q' nth_list_update word_unat_eq_iff)
  qed
qed

lemma irq_destroy_eq:
  "irq_destroy v q = (if 48 \<le> unat v \<and> unat v - 48 < 8
     then q\<lparr>irq_table := (irq_table q)[unat v - 48 := \<lparr>irq_func = 0, irq_arg = 0, irq_used = 0\<rparr>]\<rparr> else q)"
proof -
  have "nat (int n - int 48) = n - 48" for n by simp
  then show ?thesis unfolding irq_destroy_def Let_def by (auto simp del: of_nat_unat int_nat_eq)
qed

lemma irq_destroy_handlers:
  assumes ok: "irqs_ok tr q"
  shows "irqs_ok tr (irq_destroy v q)" "handlers (irq_destroy v q) = (handlers q)(v := None)" "IDT (irq_destroy v q) = IDT q"
proof -
  have len: "length (irq_table q) = 8" using ok by (simp add: irqs_ok_def)
  show "irqs_ok tr (irq_destroy v q)"
    using ok by (auto simp: irqs_ok_def irq_destroy_eq nth_list_update split: if_splits)
  show "IDT (irq_destroy v q) = IDT q" by (simp add: irq_destroy_eq)
  show "handlers (irq_destroy v q) = (handlers q)(v := None)"
  proof
    fix w
    show "handlers (irq_destroy v q) w = ((handlers q)(v := None)) w"
      using len by (auto simp: handlers_def irq_destroy_eq Let_def nth_list_update word_unat_eq_iff)
  qed
qed

text \<open>An interrupt of a dynamic vector calls the handler of that vector, if there is one, and ends the interrupt.\<close>

lemma trampoline_dispatch:
  assumes "i < 8"
  shows "irq_trampoline call q k i s =
    end_of_interrupt k (case handlers q (of_nat (48 + i)) of None \<Rightarrow> s | Some (f, a) \<Rightarrow> if f = 0 then s else call f a s)"
  using assms dyn_vector[OF assms] by (simp add: irq_trampoline_def handlers_def Let_def)

section \<open>Histories\<close>

datatype irq_op = Create u16 u8 u64 u64 u64 | Destroy u8

fun irq_do :: "device \<Rightarrow> (nat \<Rightarrow> u64) \<Rightarrow> apic \<Rightarrow> irq_op \<Rightarrow> irqs \<times> 'a machine_scheme \<Rightarrow> u8 \<times> irqs \<times> 'a machine_scheme" where
  "irq_do dev tr k (Create irq ty f a fl) qs = irq_create dev tr k irq ty f a fl qs"
| "irq_do dev tr k (Destroy v) (q, s) = (0, irq_destroy v q, s)"

text \<open>The specification: a partial map from the vectors 48 to 55; a creation takes any free vector.\<close>

inductive irq_spec :: "irq_op \<Rightarrow> (u8 \<rightharpoonup> u64 \<times> u64) \<Rightarrow> u8 \<Rightarrow> (u8 \<rightharpoonup> u64 \<times> u64) \<Rightarrow> bool" where
  spec_create: "v \<in> {48..55} \<Longrightarrow> h v = None \<Longrightarrow> irq_spec (Create irq ty f a fl) h v (h(v \<mapsto> (f, a)))"
| spec_full: "\<forall>v \<in> {48..55}. h v \<noteq> None \<Longrightarrow> irq_spec (Create irq ty f a fl) h 0 h"
| spec_destroy: "irq_spec (Destroy v) h 0 (h(v := None))"

lemma irq_do_spec:
  assumes ok: "irqs_ok tr q" and r: "irq_do dev tr k op (q, s) = (v, q', s')"
  shows "irqs_ok tr q' \<and> irq_spec op (handlers q) v (handlers q') \<and> (\<forall>w :: u8. w \<notin> {48..55} \<longrightarrow> IDT q' ! unat w = IDT q ! unat w)"
proof (cases op)
  case (Create irq ty f a fl)
  then have c: "irq_create dev tr k irq ty f a fl (q, s) = (v, q', s')" using r by simp
  show ?thesis
  proof (cases "free_slot (irq_table q) 0")
    case None
    have "q' = q" "v = 0" using c by (simp_all add: irq_create_None(1)[OF ok None])
    then show ?thesis using ok irq_create_None(2)[OF ok None] by (auto simp: Create intro!: spec_full)
  next
    case (Some i)
    note f = irq_create_Some[OF ok Some c]
    have v: "v \<in> {48..55}" using f(1,2) dyn_vector[OF f(2)] by (auto simp: word_le_nat_alt)
    have "irq_spec op (handlers q) v (handlers q')" unfolding Create f(5) by (rule spec_create[where h = "handlers q", OF v f(4)])
    moreover have "IDT q' ! unat w = IDT q ! unat w" if "w \<notin> {48..55}" for w :: u8 using f(8)[of w] v that by blast
    ultimately show ?thesis using f(3) by blast
  qed
next
  case (Destroy w)
  then show ?thesis using r irq_destroy_handlers[OF ok, of w] by (auto intro: spec_destroy)
qed

fun irq_run :: "device \<Rightarrow> (nat \<Rightarrow> u64) \<Rightarrow> apic \<Rightarrow> irq_op list \<Rightarrow> irqs \<times> 'a machine_scheme \<Rightarrow> u8 list \<times> irqs \<times> 'a machine_scheme" where
  "irq_run dev tr k [] qs = ([], qs)"
| "irq_run dev tr k (op # ops) qs =
     (let (v, qs) = irq_do dev tr k op qs; (vs, qs) = irq_run dev tr k ops qs in (v # vs, qs))"

inductive irq_specs :: "irq_op list \<Rightarrow> (u8 \<rightharpoonup> u64 \<times> u64) \<Rightarrow> u8 list \<Rightarrow> (u8 \<rightharpoonup> u64 \<times> u64) \<Rightarrow> bool" where
  specs_nil: "irq_specs [] h [] h"
| specs_cons: "irq_spec op h v h' \<Longrightarrow> irq_specs ops h' vs h'' \<Longrightarrow> irq_specs (op # ops) h (v # vs) h''"

inductive_cases specs_consE: "irq_specs (op # ops) h vs h'"

lemma irq_run_spec:
  assumes "irqs_ok tr q" and "irq_run dev tr k ops (q, s) = (vs, q', s')"
  shows "irqs_ok tr q' \<and> irq_specs ops (handlers q) vs (handlers q') \<and> (\<forall>w :: u8. w \<notin> {48..55} \<longrightarrow> IDT q' ! unat w = IDT q ! unat w)"
  using assms
proof (induction ops arbitrary: q s vs)
  case Nil
  then show ?case by (auto intro: specs_nil)
next
  case (Cons op ops)
  obtain v q1 s1 where d: "irq_do dev tr k op (q, s) = (v, q1, s1)" by (cases "irq_do dev tr k op (q, s)") auto
  obtain vs1 where r: "irq_run dev tr k ops (q1, s1) = (vs1, q', s')" "vs = v # vs1"
    using Cons.prems(2) d by (auto simp: Let_def split: prod.splits)
  have one: "irqs_ok tr q1" "irq_spec op (handlers q) v (handlers q1)" "\<forall>w :: u8. w \<notin> {48..55} \<longrightarrow> IDT q1 ! unat w = IDT q ! unat w"
    using irq_do_spec[OF Cons.prems(1) d] by blast+
  from Cons.IH[OF one(1) r(1)] one(2,3) show ?case unfolding r(2) by (auto intro: specs_cons)
qed

text \<open>
  C29. Dynamic interrupts refine a partial map from the vectors 48 to 55 to handlers: after \<open>InitIdt\<close> and
  \<open>init_irq_subsystem\<close>, the vectors that any history of creations and destructions returns are those of the map (a free
  vector, or 0 when all eight are taken); the gate of a vector with a handler is present and leads to its own trampoline,
  which calls just that handler with its argument before it ends the interrupt, while the trampoline of a vector without one only ends the
  interrupt; and the gates of the exceptions, the timer and the keyboard stay as \<open>InitIdt\<close> made them.
\<close>

theorem irq_refines:
  assumes "q0 = init_irq_subsystem \<lparr>irq_table = t, IDT = fst (InitIdt handler base_addr)\<rparr>"
    and "irq_run dev tr k ops (q0, s) = (vs, q, s')" and "i < 8"
  shows "irq_specs ops Map.empty vs (handlers q) \<and>
    irq_trampoline call q k i st =
      end_of_interrupt k (case handlers q (of_nat (48 + i)) of None \<Rightarrow> st | Some (f, a) \<Rightarrow> if f = 0 then st else call f a st) \<and>
    (handlers q (of_nat (48 + i)) \<noteq> None \<longrightarrow> gate_present (IDT q ! (48 + i)) \<and> gate_address (IDT q ! (48 + i)) = tr i) \<and>
    (\<forall>w :: u8. w \<notin> {48..55} \<longrightarrow> IDT q ! unat w = fst (InitIdt handler base_addr) ! unat w)"
proof -
  have "length (fst (InitIdt handler base_addr)) = 256"
    by (rule InitIdt_nth)
  then have ok: "irqs_ok tr q0" unfolding assms(1) by (intro init_irqs_ok) simp
  have h0: "handlers q0 = Map.empty" unfolding assms(1) by (rule init_irqs_ok)
  have i0: "IDT q0 = fst (InitIdt handler base_addr)" by (simp add: assms(1) init_irq_subsystem_def)
  from irq_run_spec[OF ok assms(2)] have f: "irqs_ok tr q" "irq_specs ops Map.empty vs (handlers q)"
    "\<forall>w :: u8. w \<notin> {48..55} \<longrightarrow> IDT q ! unat w = fst (InitIdt handler base_addr) ! unat w"
    unfolding h0 i0 by blast+
  have "gate_present (IDT q ! (48 + i)) \<and> gate_address (IDT q ! (48 + i)) = tr i" if "handlers q (of_nat (48 + i)) \<noteq> None"
  proof -
    have "irq_used (irq_table q ! i) \<noteq> 0"
      using that unfolding handlers_def dyn_vector[OF assms(3)] by (auto simp: Let_def split: if_splits)
    then show ?thesis using f(1) assms(3) by (simp add: irqs_ok_def)
  qed
  with f trampoline_dispatch[OF assms(3)] show ?thesis by blast
qed

text \<open>Three creations and a destruction on fresh tables.\<close>

definition ex_irqs :: irqs where
  "ex_irqs = init_irq_subsystem \<lparr>irq_table = [], IDT = fst (InitIdt (\<lambda>r. if r = keyboardhandler then 0x100200 else 0x100000) 0x200000)\<rparr>"

definition ex_ops :: "irq_op list" where
  "ex_ops = [Create 5 0 0x3000 7 0, Create 5 0 0x4000 8 0, Destroy 48, Create 5 0 0x5000 9 0]"

abbreviation "ex_run \<equiv> irq_run ex_ioapic (\<lambda>n. 0x6000 + of_nat n * 16) ex_apic ex_ops (ex_irqs, ex_vmm)"
abbreviation "ex_call f a s \<equiv> io_out (Wr64 f a) s"

lemma replicate_slots: "replicate MAX_DYNAMIC_IRQS x = [x, x, x, x, x, x, x, x]"
  by (simp add: numeral_eq_Suc)

lemma ex_run_vectors: "fst ex_run = [48, 49, 0, 48]" "handlers (fst (snd ex_run)) 48 = Some (0x5000, 9)"
  by (simp_all add: ex_ops_def ex_irqs_def init_irq_subsystem_def irq_create_def irq_destroy_eq handlers_def Let_def replicate_slots)

theorem irq_refines_witness:
  "\<exists>q. irq_specs ex_ops Map.empty [48, 49, 0, 48] (handlers q) \<and> gate_address (IDT q ! 48) = 0x6000 \<and>
     irq_trampoline ex_call q ex_apic 0 ex_vmm = end_of_interrupt ex_apic (io_out (Wr64 0x5000 9) ex_vmm)"
proof -
  obtain vs q s' where r: "ex_run = (vs, q, s')" by (cases ex_run) auto
  have v: "vs = [48, 49, 0, 48]" "handlers q 48 = Some (0x5000, 9)" using ex_run_vectors r by simp_all
  note f = irq_refines[OF ex_irqs_def r, where i = 0 and call = ex_call and st = ex_vmm]
  then have "irq_specs ex_ops Map.empty vs (handlers q)" by simp
  moreover from f have "irq_trampoline ex_call q ex_apic 0 ex_vmm = end_of_interrupt ex_apic (io_out (Wr64 0x5000 9) ex_vmm)"
    "gate_address (IDT q ! 48) = 0x6000" by (simp_all add: v(2))
  ultimately show ?thesis unfolding v(1) by blast
qed

end
