(* ===== verification/PowerControl.thy ===== *)
theory PowerControl
  imports Timer
begin

text \<open>
  Power off and restart (\<^verbatim>\<open>cpu/power.c\<close>) and the start of ACPI (\<^verbatim>\<open>cpu/acpi.c\<close>). The routines of uACPI are parameters: each
  changes the machine and says whether it succeeded. Messages on the console are left out.
\<close>

type_synonym 's acpi_call = "'s \<Rightarrow> bool \<times> 's"

definition running_on_qemu :: "device \<Rightarrow> 'a machine_scheme \<Rightarrow> bool \<times> 'a machine_scheme" where
  "running_on_qemu dev s =
     (let s = io_out (Out32 0xCF8 0x80000000) s;
          (v, s) = io_in dev (In32 0xCFC) s;
          i = ucast v :: u32
      in (i = 0x12378086 \<or> i = 0x29C08086, s))"

definition qemu_poweroff :: "'a machine_scheme \<Rightarrow> 'a machine_scheme" where
  "qemu_poweroff s = io_out (Out16 0xB004 0x2000) (io_out (Out16 0x604 0x2000) s)"

definition shutdown ::
  "device \<Rightarrow> 'a machine_scheme acpi_call \<Rightarrow> 'a machine_scheme acpi_call \<Rightarrow> 'a machine_scheme \<Rightarrow> 'a machine_scheme" where
  "shutdown dev uacpi_prepare_for_sleep_state uacpi_enter_sleep_state s =
     (let (qemu, s) = running_on_qemu dev s;
          s = (if qemu then qemu_poweroff s else s);
          (ok, s) = uacpi_prepare_for_sleep_state s
      in if \<not> ok then s
         else let (ok, s) = uacpi_enter_sleep_state s in s)"

text \<open>\<open>reboot\<close> does not return; this is the state in which it halts if the machine is still running.\<close>

definition reboot :: "'a machine_scheme acpi_call \<Rightarrow> 'a machine_scheme \<Rightarrow> 'a machine_scheme" where
  "reboot uacpi_reboot s =
     (let (ok, s) = uacpi_reboot s
      in if ok then s
         else let s = io_out (Out8 0x64 0xFE) s
              in io_out (Instr ''int 3'') (io_out (Instr ''lidt 0'') s))"

text \<open>The steps of the start of ACPI: the first that fails ends it.\<close>

definition acpi_init ::
  "'s acpi_call \<Rightarrow> 's acpi_call \<Rightarrow> 's acpi_call \<Rightarrow> 's acpi_call \<Rightarrow> 's \<Rightarrow> bool \<times> 's" where
  "acpi_init uacpi_initialize uacpi_namespace_load uacpi_namespace_initialize uacpi_finalize_gpe_initialization s =
     (let (ok, s) = uacpi_initialize s
      in if \<not> ok then (False, s)
         else let (ok, s) = uacpi_namespace_load s
              in if \<not> ok then (False, s)
                 else let (ok, s) = uacpi_namespace_initialize s
                      in if \<not> ok then (False, s)
                         else let (ok, s) = uacpi_finalize_gpe_initialization s
                              in (ok, s))"

text \<open>
  What the machine is told: a shutdown writes to the power ports of QEMU just when the host bridge is one of
  QEMU's, and a restart always ends with the reset line, the keyboard controller or an exception without handlers.
\<close>

lemma shutdown_writes:
  assumes "\<And>s. trace (snd (prepare s)) = trace s" and "\<And>s. trace (snd (enter s)) = trace s"
  shows "trace (shutdown dev prepare enter s) =
    trace s @ [Out32 0xCF8 0x80000000, In32 0xCFC] @
      (if ucast (dev (trace s @ [Out32 0xCF8 0x80000000]) (In32 0xCFC)) \<in> {0x12378086, 0x29C08086 :: u32}
       then [Out16 0x604 0x2000, Out16 0xB004 0x2000] else [])"
  using assms by (simp add: shutdown_def running_on_qemu_def qemu_poweroff_def Let_def io_in_def case_prod_beta)

lemma reboot_resets:
  assumes "trace (snd (u s)) = trace s @ es"
  shows "trace (reboot u s) = trace s @ es @ (if fst (u s) then [] else [Out8 0x64 0xFE, Instr ''lidt 0'', Instr ''int 3''])"
  using assms by (simp add: reboot_def case_prod_beta Let_def)

end
