(* ===== verification/Keyboard.thy ===== *)
theory Keyboard
  imports PowerControl Vfs
begin

text \<open>
  The keyboard and the shell (\<^verbatim>\<open>drivers/keyboard.c\<close>): the buffer of scancodes between the interrupt handler and the
  main loop, the decoder, the line editor and the commands. \<open>term\<close> is the terminal, \<open>b\<close> the uninitialised buffer of \<open>kprintf\<close>. What
  never returns or has no defined result is \<^const>\<open>None\<close>.
\<close>

section \<open>Keys\<close>

datatype keysym =
    K_UNKNOWN | K_ESC | K_CTRL | K_LSHFT | K_RSHFT | K_ALT | K_F1 | K_F2 | K_F3
  | K_F4 | K_F5 | K_F6 | K_F7 | K_F8 | K_F9 | K_F10 | K_F11 | K_F12
  | K_SCRLCK | K_HOME | K_UP | K_LEFT | K_RIGHT | K_DOWN | K_PGUP | K_PGDOWN | K_END
  | K_INS | K_DEL | K_CAPS | K_NONE | K_ALTGR | K_NUMLCK

primrec sym :: "keysym \<Rightarrow> u32" where
  "sym K_UNKNOWN = 0x100"
| "sym K_ESC = 0x101"
| "sym K_CTRL = 0x102"
| "sym K_LSHFT = 0x103"
| "sym K_RSHFT = 0x104"
| "sym K_ALT = 0x105"
| "sym K_F1 = 0x106"
| "sym K_F2 = 0x107"
| "sym K_F3 = 0x108"
| "sym K_F4 = 0x109"
| "sym K_F5 = 0x10A"
| "sym K_F6 = 0x10B"
| "sym K_F7 = 0x10C"
| "sym K_F8 = 0x10D"
| "sym K_F9 = 0x10E"
| "sym K_F10 = 0x10F"
| "sym K_F11 = 0x110"
| "sym K_F12 = 0x111"
| "sym K_SCRLCK = 0x112"
| "sym K_HOME = 0x113"
| "sym K_UP = 0x114"
| "sym K_LEFT = 0x115"
| "sym K_RIGHT = 0x116"
| "sym K_DOWN = 0x117"
| "sym K_PGUP = 0x118"
| "sym K_PGDOWN = 0x119"
| "sym K_END = 0x11A"
| "sym K_INS = 0x11B"
| "sym K_DEL = 0x11C"
| "sym K_CAPS = 0x11D"
| "sym K_NONE = 0x11E"
| "sym K_ALTGR = 0x11F"
| "sym K_NUMLCK = 0x120"

abbreviation (input) ch :: "char \<Rightarrow> u32" where "ch \<equiv> of_char"

definition lowercase :: "u32 list" where
  "lowercase = [
    sym K_UNKNOWN, sym K_ESC, ch CHR ''1'', ch CHR ''2'', ch CHR ''3'', ch CHR ''4'', ch CHR ''5'', ch CHR ''6'',
    ch CHR ''7'', ch CHR ''8'', ch CHR ''9'', ch CHR ''0'', ch CHR ''-'', ch CHR ''='', ch CHR 0x08, ch CHR 0x09,
    ch CHR ''q'', ch CHR ''w'', ch CHR ''e'', ch CHR ''r'', ch CHR ''t'', ch CHR ''y'', ch CHR ''u'', ch CHR ''i'',
    ch CHR ''o'', ch CHR ''p'', ch CHR ''['', ch CHR '']'', ch CHR 0x0A, sym K_CTRL, ch CHR ''a'', ch CHR ''s'',
    ch CHR ''d'', ch CHR ''f'', ch CHR ''g'', ch CHR ''h'', ch CHR ''j'', ch CHR ''k'', ch CHR ''l'', ch CHR '';'',
    ch CHR 0x27, ch CHR 0x60, sym K_LSHFT, ch CHR 0x5C, ch CHR ''z'', ch CHR ''x'', ch CHR ''c'', ch CHR ''v'',
    ch CHR ''b'', ch CHR ''n'', ch CHR ''m'', ch CHR '','', ch CHR ''.'', ch CHR ''/'', sym K_RSHFT, ch CHR ''*'',
    sym K_ALT, ch CHR 0x20, sym K_CAPS, sym K_F1, sym K_F2, sym K_F3, sym K_F4, sym K_F5,
    sym K_F6, sym K_F7, sym K_F8, sym K_F9, sym K_F10, sym K_NUMLCK, sym K_SCRLCK, sym K_HOME,
    sym K_UP, sym K_PGUP, ch CHR ''-'', sym K_LEFT, sym K_UNKNOWN, sym K_RIGHT, ch CHR ''+'', sym K_END,
    sym K_DOWN, sym K_PGDOWN, sym K_INS, sym K_DEL, sym K_UNKNOWN, sym K_UNKNOWN, sym K_UNKNOWN, sym K_F11,
    sym K_F12, sym K_UNKNOWN, sym K_UNKNOWN, sym K_UNKNOWN, sym K_UNKNOWN, sym K_UNKNOWN, sym K_UNKNOWN, sym K_UNKNOWN,
    sym K_UNKNOWN, sym K_UNKNOWN, sym K_UNKNOWN, sym K_UNKNOWN, sym K_UNKNOWN, sym K_UNKNOWN, sym K_UNKNOWN, sym K_UNKNOWN,
    sym K_UNKNOWN, sym K_UNKNOWN, sym K_UNKNOWN, sym K_UNKNOWN, sym K_UNKNOWN, sym K_UNKNOWN, sym K_UNKNOWN, sym K_UNKNOWN,
    sym K_UNKNOWN, sym K_UNKNOWN, sym K_UNKNOWN, sym K_UNKNOWN, sym K_UNKNOWN, sym K_UNKNOWN, sym K_UNKNOWN, sym K_UNKNOWN,
    sym K_UNKNOWN, sym K_UNKNOWN, sym K_UNKNOWN, sym K_UNKNOWN, sym K_UNKNOWN, sym K_UNKNOWN, sym K_UNKNOWN, sym K_UNKNOWN]"

definition uppercase :: "u32 list" where
  "uppercase = [
    sym K_UNKNOWN, sym K_ESC, ch CHR ''!'', ch CHR ''@'', ch CHR ''#'', ch CHR ''$'', ch CHR ''%'', ch CHR ''^'',
    ch CHR ''&'', ch CHR ''*'', ch CHR ''('', ch CHR '')'', ch CHR ''_'', ch CHR ''+'', ch CHR 0x08, ch CHR 0x09,
    ch CHR ''Q'', ch CHR ''W'', ch CHR ''E'', ch CHR ''R'', ch CHR ''T'', ch CHR ''Y'', ch CHR ''U'', ch CHR ''I'',
    ch CHR ''O'', ch CHR ''P'', ch CHR ''{'', ch CHR ''}'', ch CHR 0x0A, sym K_CTRL, ch CHR ''A'', ch CHR ''S'',
    ch CHR ''D'', ch CHR ''F'', ch CHR ''G'', ch CHR ''H'', ch CHR ''J'', ch CHR ''K'', ch CHR ''L'', ch CHR '':'',
    ch CHR 0x22, ch CHR ''~'', sym K_LSHFT, ch CHR ''|'', ch CHR ''Z'', ch CHR ''X'', ch CHR ''C'', ch CHR ''V'',
    ch CHR ''B'', ch CHR ''N'', ch CHR ''M'', ch CHR ''<'', ch CHR ''>'', ch CHR ''?'', sym K_RSHFT, ch CHR ''*'',
    sym K_ALT, ch CHR 0x20, sym K_CAPS, sym K_F1, sym K_F2, sym K_F3, sym K_F4, sym K_F5,
    sym K_F6, sym K_F7, sym K_F8, sym K_F9, sym K_F10, sym K_NUMLCK, sym K_SCRLCK, sym K_HOME,
    sym K_UP, sym K_PGUP, ch CHR ''-'', sym K_LEFT, sym K_UNKNOWN, sym K_RIGHT, ch CHR ''+'', sym K_END,
    sym K_DOWN, sym K_PGDOWN, sym K_INS, sym K_DEL, sym K_UNKNOWN, sym K_UNKNOWN, sym K_UNKNOWN, sym K_F11,
    sym K_F12, sym K_UNKNOWN, sym K_UNKNOWN, sym K_UNKNOWN, sym K_UNKNOWN, sym K_UNKNOWN, sym K_UNKNOWN, sym K_UNKNOWN,
    sym K_UNKNOWN, sym K_UNKNOWN, sym K_UNKNOWN, sym K_UNKNOWN, sym K_UNKNOWN, sym K_UNKNOWN, sym K_UNKNOWN, sym K_UNKNOWN,
    sym K_UNKNOWN, sym K_UNKNOWN, sym K_UNKNOWN, sym K_UNKNOWN, sym K_UNKNOWN, sym K_UNKNOWN, sym K_UNKNOWN, sym K_UNKNOWN,
    sym K_UNKNOWN, sym K_UNKNOWN, sym K_UNKNOWN, sym K_UNKNOWN, sym K_UNKNOWN, sym K_UNKNOWN, sym K_UNKNOWN, sym K_UNKNOWN,
    sym K_UNKNOWN, sym K_UNKNOWN, sym K_UNKNOWN, sym K_UNKNOWN, sym K_UNKNOWN, sym K_UNKNOWN, sym K_UNKNOWN, sym K_UNKNOWN]"

section \<open>State\<close>

abbreviation KBD_BUF :: nat where "KBD_BUF \<equiv> 128"

record kbd =
  kbd_buf :: "u8 list"
  kbd_head :: u32
  kbd_tail :: u32
  shift_down :: bool
  caps_lock :: bool
  line :: string
  line_len :: nat
  extended :: bool

definition slice :: "u64 \<Rightarrow> u64 \<Rightarrow> u64 \<Rightarrow> 'a kmem_scheme \<Rightarrow> (u64 \<times> 'a kmem_scheme) option" where
  "slice str start stop s = do {
     let len = stop - start;
     (result, s) \<leftarrow> kmalloc (len + 1) s;
     if result = 0 then Some (0, s)
     else let m = memcpy (ram s) result (str + start) len
          in Some (result, s\<lparr>ram := m(result + len := 0)\<rparr>)
   }"

section \<open>Commands\<close>

datatype command = Cmd_clear | Cmd_reboot | Cmd_shutdown | Cmd_ls | Cmd_help

definition commands :: "(string \<times> string \<times> command) list" where
  "commands =
     [(''clear'', ''clear the screen'', Cmd_clear),
      (''reboot'', ''restart the machine'', Cmd_reboot),
      (''shutdown'', ''power off'', Cmd_shutdown),
      (''ls'', ''list files'', Cmd_ls),
      (''help'', ''list commands'', Cmd_help)]"

definition cmd_help :: "string \<Rightarrow> string \<Rightarrow> string option" where
  "cmd_help b term =
     fold (\<lambda>(name, help, _) t. Option.bind t (\<lambda>t. map_option fst (kprintf b (''  %s - %s'' @ [CHR 0x0A]) [Va_str name, Va_str help] t)))
       commands (Some term)"

text \<open>The surroundings of the shell: hardware and uACPI.\<close>

record 's shell_env =
  hardware :: device
  power_prepare :: "'s acpi_call"
  power_enter :: "'s acpi_call"
  power_reboot :: "'s acpi_call"

definition run_command ::
  "string \<Rightarrow> 'a vfs_state_scheme shell_env \<Rightarrow> command \<Rightarrow> 'a vfs_state_scheme \<times> string \<Rightarrow> ('a vfs_state_scheme \<times> string) option" where
  "run_command b env c st =
     (case st of (s, term) \<Rightarrow>
        (case c of
           Cmd_clear \<Rightarrow> Some (s, clear term)
         | Cmd_reboot \<Rightarrow> None
         | Cmd_shutdown \<Rightarrow> Some (shutdown (hardware env) (power_prepare env) (power_enter env) s, term)
         | Cmd_ls \<Rightarrow> map_option (Pair s) (display_all_files b s term)
         | Cmd_help \<Rightarrow> map_option (Pair s) (cmd_help b term)))"

text \<open>The three loops of \<open>run_line\<close> over the characters of the line, with the index for the pointer \<open>s\<close>.\<close>

function skip_spaces :: "string \<Rightarrow> nat \<Rightarrow> (string \<times> nat) option" where
  "skip_spaces l i =
     (if i \<ge> length l then None
      else if l ! i = CHR '' '' then skip_spaces (l[i := NUL]) (Suc i)
      else Some (l, i))"
  by auto
termination by (relation "measure (\<lambda>(l, i). length l - i)") auto

function skip_word :: "string \<Rightarrow> nat \<Rightarrow> nat option" where
  "skip_word l i =
     (if i \<ge> length l then None
      else if l ! i \<noteq> NUL \<and> l ! i \<noteq> CHR '' '' then skip_word l (Suc i)
      else Some i)"
  by auto
termination by (relation "measure (\<lambda>(l, i). length l - i)") auto

function split_line :: "string \<Rightarrow> nat \<Rightarrow> nat list \<Rightarrow> (string \<times> nat list) option" where
  "split_line l i argv =
     (if i \<ge> length l then None
      else if l ! i \<noteq> NUL \<and> length argv < 16
      then case skip_spaces l i of
             None \<Rightarrow> None
           | Some (l, i) \<Rightarrow>
               if l ! i = NUL then Some (l, argv)
               else (case skip_word l i of None \<Rightarrow> None | Some j \<Rightarrow> split_line l j (argv @ [i]))
      else Some (l, argv))"
  by auto
termination by (relation "measure (\<lambda>(l, i, argv). 16 - length argv)") auto

declare skip_spaces.simps [simp del] skip_word.simps [simp del] split_line.simps [simp del]

definition run_line ::
  "string \<Rightarrow> 'a vfs_state_scheme shell_env \<Rightarrow> string \<Rightarrow> 'a vfs_state_scheme \<times> string \<Rightarrow> (string \<times> 'a vfs_state_scheme \<times> string) option" where
  "run_line b env l st =
     (case split_line l 0 [] of
        None \<Rightarrow> None
      | Some (l, argv) \<Rightarrow>
          if argv = [] then Some (l, st)
          else let arg0 = c_string (drop (hd argv) l)
               in case List.find (\<lambda>(name, _). arg0 = name) commands of
                    Some (_, _, fn) \<Rightarrow> map_option (Pair l) (run_command b env fn st)
                  | None \<Rightarrow>
                      (case st of (s, term) \<Rightarrow>
                         map_option (\<lambda>(term, _). (l, s, term)) (kprintf b (''Unknown command: %s'' @ [CHR 0x0A]) [Va_str arg0] term)))"

section \<open>Line editor and decoder\<close>

definition line_input ::
  "string \<Rightarrow> 'a vfs_state_scheme shell_env \<Rightarrow> char \<Rightarrow> kbd \<times> 'a vfs_state_scheme \<times> string \<Rightarrow> (kbd \<times> 'a vfs_state_scheme \<times> string) option" where
  "line_input b env c kst =
     (case kst of (k, s, term) \<Rightarrow>
        if c = CHR 0x0A
        then if line_len k \<ge> length (line k) then None
             else do {
               (term, _) \<leftarrow> kprintf b [CHR 0x0A] [] term;
               let k = k\<lparr>line := (line k)[line_len k := NUL]\<rparr>;
               (l, s, term) \<leftarrow> run_line b env (line k) (s, term);
               let k = k\<lparr>line := l, line_len := 0\<rparr>;
               (term, _) \<leftarrow> kprintf b ''tusos-->'' [] term;
               Some (k, s, term)
             }
        else if c = CHR 0x08
        then if line_len k \<noteq> 0
             then do {
               (term, _) \<leftarrow> kprintf b [CHR 0x08, CHR '' '', CHR 0x08] [] term;
               Some (k\<lparr>line_len := line_len k - 1\<rparr>, s, term)
             }
             else Some (k, s, term)
        else if line_len k < 100 - 1
        then if line_len k \<ge> length (line k) then None
             else do {
               (term, _) \<leftarrow> kprintf b ''%c'' [Va_int (of_char c)] term;
               Some (k\<lparr>line := (line k)[line_len k := c], line_len := line_len k + 1\<rparr>, s, term)
             }
        else Some (k, s, term))"

text \<open>The decoder up to the call of \<open>line_input\<close>: the character that the scancode types, if it types one.\<close>

definition decode_scancode :: "u8 \<Rightarrow> kbd \<Rightarrow> kbd \<times> char option" where
  "decode_scancode raw k =
     (if raw = 0xE0 then (k\<lparr>extended := True\<rparr>, None)
      else let ext = extended k;
               k = k\<lparr>extended := False\<rparr>
           in if ext then (k, None)
              else let released = (raw AND 0x80 \<noteq> 0);
                       code = raw AND 0x7F;
                       key = ucast (lowercase ! unat code) :: u16
                   in if key = ucast (sym K_LSHFT) \<or> key = ucast (sym K_RSHFT) then (k\<lparr>shift_down := \<not> released\<rparr>, None)
                      else if key = ucast (sym K_CAPS)
                      then (if \<not> released then k\<lparr>caps_lock := \<not> caps_lock k\<rparr> else k, None)
                      else if released \<or> key > 0x7F then (k, None)
                      else let letter = (key \<ge> of_char CHR ''a'' \<and> key \<le> of_char CHR ''z'');
                               upper = (shift_down k \<noteq> (caps_lock k \<and> letter))
                           in (k, Some (char_of (unat (if upper then uppercase ! unat code else ucast key)))))"

definition handle_scancode ::
  "string \<Rightarrow> 'a vfs_state_scheme shell_env \<Rightarrow> u8 \<Rightarrow> kbd \<times> 'a vfs_state_scheme \<times> string \<Rightarrow> (kbd \<times> 'a vfs_state_scheme \<times> string) option" where
  "handle_scancode b env raw kst =
     (case kst of (k, st) \<Rightarrow>
        (case decode_scancode raw k of
           (k, None) \<Rightarrow> Some (k, st)
         | (k, Some c) \<Rightarrow> line_input b env c (k, st)))"

section \<open>The buffer\<close>

text \<open>The part of the interrupt handler that stores the scancode, and the whole handler.\<close>

definition store_scancode :: "u8 \<Rightarrow> kbd \<Rightarrow> kbd" where
  "store_scancode sc k =
     (let nxt = (kbd_head k + 1) mod 128
      in if nxt \<noteq> kbd_tail k then k\<lparr>kbd_buf := (kbd_buf k)[unat (kbd_head k) := sc], kbd_head := nxt\<rparr> else k)"

definition keyboardhandler :: "device \<Rightarrow> apic \<Rightarrow> kbd \<times> 'a machine_scheme \<Rightarrow> kbd \<times> 'a machine_scheme" where
  "keyboardhandler dev a ks =
     (case ks of (k, s) \<Rightarrow>
        let (v, s) = io_in dev (In8 0x60) s;
            k = store_scancode (ucast v) k
        in (k, end_of_interrupt a s))"

partial_function (option) keyboard_poll ::
  "string \<Rightarrow> 'a vfs_state_scheme shell_env \<Rightarrow> kbd \<times> 'a vfs_state_scheme \<times> string \<Rightarrow> (kbd \<times> 'a vfs_state_scheme \<times> string) option" where
  "keyboard_poll b env kst =
     (case kst of (k, st) \<Rightarrow>
        if kbd_tail k \<noteq> kbd_head k
        then let sc = kbd_buf k ! unat (kbd_tail k);
                 k = k\<lparr>kbd_tail := (kbd_tail k + 1) mod 128\<rparr>
             in Option.bind (handle_scancode b env sc (k, st)) (keyboard_poll b env)
        else Some (k, st))"

text \<open>\<open>ticks\<close> are the timer interrupts that end the halts of \<open>sleep\<close>.\<close>

definition keyboard_idle ::
  "string \<Rightarrow> 'a vfs_state_scheme shell_env \<Rightarrow> (nat \<Rightarrow> nat) \<Rightarrow> apic \<times> kbd \<times> 'a vfs_state_scheme \<times> string \<Rightarrow>
     (apic \<times> kbd \<times> 'a vfs_state_scheme \<times> string) option" where
  "keyboard_idle b env ticks akst = do {
     let (a, kst) = akst;
     (k, s, term) \<leftarrow> keyboard_poll b env kst;
     if kbd_tail k = kbd_head k
     then do {
       (s, a) \<leftarrow> sleep ticks 1 (s, a);
       Some (a, k, s, term)
     }
     else Some (a, k, s, term)
   }"

text \<open>The shell and the first \<open>n\<close> rounds of its endless loop.\<close>

primrec idle_rounds ::
  "string \<Rightarrow> 'a vfs_state_scheme shell_env \<Rightarrow> (nat \<Rightarrow> nat \<Rightarrow> nat) \<Rightarrow> nat \<Rightarrow> apic \<times> kbd \<times> 'a vfs_state_scheme \<times> string \<Rightarrow>
     (apic \<times> kbd \<times> 'a vfs_state_scheme \<times> string) option" where
  "idle_rounds b env ticks 0 akst = Some akst"
| "idle_rounds b env ticks (Suc n) akst = Option.bind (idle_rounds b env ticks n akst) (keyboard_idle b env (ticks n))"

definition shell_run ::
  "string \<Rightarrow> 'a vfs_state_scheme shell_env \<Rightarrow> (nat \<Rightarrow> nat \<Rightarrow> nat) \<Rightarrow> nat \<Rightarrow> apic \<times> kbd \<times> 'a vfs_state_scheme \<times> string \<Rightarrow>
     (apic \<times> kbd \<times> 'a vfs_state_scheme \<times> string) option" where
  "shell_run b env ticks n akst = do {
     let (a, k, s, term) = akst;
     (term, _) \<leftarrow> kprintf b (''[shell_run entered]'' @ [CHR 0x0A]) [] term;
     (term, _) \<leftarrow> kprintf b ''tusos-->'' [] term;
     idle_rounds b env ticks n (a, k, s, term)
   }"

definition initKeyboard :: "device \<Rightarrow> apic \<Rightarrow> 'a machine_scheme \<Rightarrow> 'a machine_scheme" where
  "initKeyboard dev a s =
     (let gsi = irq_overrides a ! 1;
          s = set_ioapic_entry 0x21 1 0 0 a s
      in unmask_ioapic dev gsi a s)"

section \<open>The buffer as a queue\<close>

text \<open>The scancodes that wait in the buffer, oldest first.\<close>

definition waiting :: "kbd \<Rightarrow> nat" where
  "waiting k = (unat (kbd_head k) + KBD_BUF - unat (kbd_tail k)) mod KBD_BUF"

definition pending :: "kbd \<Rightarrow> u8 list" where
  "pending k = map (\<lambda>i. kbd_buf k ! ((unat (kbd_tail k) + i) mod KBD_BUF)) [0..<waiting k]"

definition ring_ok :: "kbd \<Rightarrow> bool" where
  "ring_ok k \<longleftrightarrow> length (kbd_buf k) = KBD_BUF \<and> unat (kbd_head k) < KBD_BUF \<and> unat (kbd_tail k) < KBD_BUF"

lemma length_pending [simp]: "length (pending k) = waiting k"
  by (simp add: pending_def)

lemma waiting_less: "waiting k < KBD_BUF"
  by (simp add: waiting_def)

lemma mod_ring: "x < 256 \<Longrightarrow> x mod 128 = (if x < 128 then x else x - (128 :: nat))"
  by (simp add: mod_if)

lemma waiting_eq:
  assumes "unat (kbd_head k) < 128" and "unat (kbd_tail k) < 128"
  shows "waiting k = (if unat (kbd_tail k) \<le> unat (kbd_head k) then unat (kbd_head k) - unat (kbd_tail k)
    else unat (kbd_head k) + 128 - unat (kbd_tail k))"
  using assms unfolding waiting_def by (subst mod_ring) auto

lemma unat_next:
  assumes "unat (x :: u32) < 128"
  shows "unat ((x + 1) mod 128) = (unat x + 1) mod 128"
proof -
  have "unat (x + 1) = unat x + 1" using assms by (subst unat_add_nowrap) simp_all
  then show ?thesis by (simp add: unat_mod)
qed

lemma pending_Nil:
  assumes "ring_ok k"
  shows "pending k = [] \<longleftrightarrow> kbd_tail k = kbd_head k"
proof -
  have "pending k = [] \<longleftrightarrow> waiting k = 0" by (simp add: pending_def)
  also have "\<dots> \<longleftrightarrow> unat (kbd_tail k) = unat (kbd_head k)"
    using assms by (subst waiting_eq) (auto simp: ring_ok_def)
  finally show ?thesis by (simp add: word_unat_eq_iff)
qed

lemma store_scancode_pending:
  assumes ok: "ring_ok k"
  shows "ring_ok (store_scancode sc k)"
    "pending (store_scancode sc k) = (if waiting k < 127 then pending k @ [sc] else pending k)"
proof -
  let ?h = "unat (kbd_head k)" and ?t = "unat (kbd_tail k)" and ?nxt = "(kbd_head k + 1) mod 128 :: u32"
  have b: "length (kbd_buf k) = 128" "?h < 128" "?t < 128" using ok by (simp_all add: ring_ok_def)
  have n: "unat ?nxt = (?h + 1) mod 128" by (rule unat_next[OF b(2)])
  show "ring_ok (store_scancode sc k)"
    using b n by (auto simp: ring_ok_def store_scancode_def Let_def)
  have full: "?nxt \<noteq> kbd_tail k \<longleftrightarrow> waiting k < 127"
    unfolding word_unat_eq_iff n waiting_eq[OF b(2,3)] using b(2,3) by (subst mod_ring) (auto split: if_splits)
  show "pending (store_scancode sc k) = (if waiting k < 127 then pending k @ [sc] else pending k)"
  proof (cases "waiting k < 127")
    case True
    let ?k = "k\<lparr>kbd_buf := (kbd_buf k)[?h := sc], kbd_head := ?nxt\<rparr>"
    have k: "store_scancode sc k = ?k" using True full by (simp add: store_scancode_def Let_def)
    have w: "waiting ?k = Suc (waiting k)"
    proof -
      have "waiting ?k = (if ?t \<le> (?h + 1) mod 128 then (?h + 1) mod 128 - ?t else (?h + 1) mod 128 + 128 - ?t)"
        using waiting_eq[of ?k] b by (simp add: n)
      with True b show ?thesis unfolding waiting_eq[OF b(2,3)] by (auto simp: mod_ring split: if_splits)
    qed
    have other: "?h \<noteq> (?t + i) mod 128" if "i < waiting k" for i
      using that b(2,3) unfolding waiting_eq[OF b(2,3)] by (auto simp: mod_ring split: if_splits)
    have new: "(?t + waiting k) mod 128 = ?h"
      using b(2,3) unfolding waiting_eq[OF b(2,3)] by (auto simp: mod_ring split: if_splits)
    have "map (\<lambda>i. (kbd_buf k)[?h := sc] ! ((?t + i) mod 128)) [0..<waiting k] = pending k"
      using other by (auto simp: pending_def)
    then show ?thesis using True b new by (simp add: k pending_def w)
  next
    case False
    then show ?thesis using full by (simp add: store_scancode_def Let_def)
  qed
qed

lemma take_scancode_pending:
  assumes ok: "ring_ok k" and ne: "kbd_tail k \<noteq> kbd_head k"
  shows "ring_ok (k\<lparr>kbd_tail := (kbd_tail k + 1) mod 128\<rparr>)"
    "pending k = kbd_buf k ! unat (kbd_tail k) # pending (k\<lparr>kbd_tail := (kbd_tail k + 1) mod 128\<rparr>)"
proof -
  let ?h = "unat (kbd_head k)" and ?t = "unat (kbd_tail k)" and ?k = "k\<lparr>kbd_tail := (kbd_tail k + 1) mod 128\<rparr>"
  have b: "length (kbd_buf k) = 128" "?h < 128" "?t < 128" using ok by (simp_all add: ring_ok_def)
  have n: "unat ((kbd_tail k + 1) mod 128) = (?t + 1) mod 128" by (rule unat_next[OF b(3)])
  show "ring_ok ?k" using b n by (simp add: ring_ok_def)
  have "?t \<noteq> ?h" using ne by (simp add: word_unat_eq_iff)
  moreover have "waiting ?k = (if (?t + 1) mod 128 \<le> ?h then ?h - (?t + 1) mod 128 else ?h + 128 - (?t + 1) mod 128)"
    using waiting_eq[of ?k] b by (simp add: n)
  ultimately have w: "waiting k = Suc (waiting ?k)"
    using b unfolding waiting_eq[OF b(2,3)] by (auto simp: mod_ring split: if_splits)
  have "((?t + 1) mod 128 + i) mod 128 = (?t + Suc i) mod 128" for i by (simp add: mod_simps)
  then show "pending k = kbd_buf k ! ?t # pending ?k"
    unfolding pending_def w using b by (simp add: n upt_conv_Cons map_Suc_upt[symmetric] del: upt_Suc)
qed

section \<open>Interrupts while the main loop runs\<close>

text \<open>The buffer of one keyboard state in another.\<close>

definition with_ring :: "kbd \<Rightarrow> kbd \<Rightarrow> kbd" where
  "with_ring r k = k\<lparr>kbd_buf := kbd_buf r, kbd_head := kbd_head r, kbd_tail := kbd_tail r\<rparr>"

primrec handle_all ::
  "string \<Rightarrow> 'a vfs_state_scheme shell_env \<Rightarrow> u8 list \<Rightarrow> kbd \<times> 'a vfs_state_scheme \<times> string \<Rightarrow> (kbd \<times> 'a vfs_state_scheme \<times> string) option" where
  "handle_all b env [] kst = Some kst"
| "handle_all b env (sc # scs) kst = Option.bind (handle_scancode b env sc kst) (handle_all b env scs)"

lemma handle_all_append: "handle_all b env (xs @ ys) kst = Option.bind (handle_all b env xs kst) (handle_all b env ys)"
proof (induction xs arbitrary: kst)
  case (Cons sc xs)
  show ?case by (cases "handle_scancode b env sc kst") (simp_all add: Cons.IH)
qed simp

abbreviation "on_ring r \<equiv> map_option (\<lambda>(k, st). (with_ring r k, st))"

text \<open>Decoder, editor and commands do not touch the buffer.\<close>

lemma decode_with_ring: "decode_scancode raw (with_ring r k) = (case decode_scancode raw k of (k', c) \<Rightarrow> (with_ring r k', c))"
  by (simp add: decode_scancode_def with_ring_def Let_def)

lemma line_input_with_ring: "line_input b env c (with_ring r k, st) = on_ring r (line_input b env c (k, st))"
  by (auto simp: line_input_def with_ring_def Let_def split: prod.splits Option.bind_splits)

lemma handle_with_ring: "handle_scancode b env sc (with_ring r k, st) = on_ring r (handle_scancode b env sc (k, st))"
  by (auto simp: handle_scancode_def decode_with_ring line_input_with_ring split: prod.splits option.splits)

lemma handle_all_with_ring: "handle_all b env scs (with_ring r k, st) = on_ring r (handle_all b env scs (k, st))"
proof (induction scs arbitrary: k st)
  case (Cons sc scs)
  show ?case by (cases "handle_scancode b env sc (k, st)") (auto simp: handle_with_ring Cons.IH)
qed simp

lemma with_ring_self: "with_ring k k = k" "with_ring r (with_ring r' k) = with_ring r k"
  by (simp_all add: with_ring_def)

lemma ring_fields [simp]:
  "kbd_buf (with_ring r k) = kbd_buf r" "kbd_head (with_ring r k) = kbd_head r" "kbd_tail (with_ring r k) = kbd_tail r"
  by (simp_all add: with_ring_def)

lemma handle_ring:
  assumes "handle_scancode b env sc (k, st) = Some (k', st')"
  shows "with_ring k k' = k'"
  using handle_with_ring[of b env sc k k st] assms by (simp add: with_ring_self)

text \<open>The main loop handles what waits in the buffer, in order.\<close>

lemma keyboard_poll_pending:
  assumes "ring_ok k"
  shows "keyboard_poll b env (k, st) = on_ring (k\<lparr>kbd_tail := kbd_head k\<rparr>) (handle_all b env (pending k) (k, st))"
  using assms
proof (induction "pending k" arbitrary: k st)
  case Nil
  then have "kbd_tail k = kbd_head k" by (simp add: pending_Nil[symmetric])
  moreover from this have "with_ring (k\<lparr>kbd_tail := kbd_head k\<rparr>) k = k" by (simp add: with_ring_def)
  ultimately show ?case unfolding Nil.hyps[symmetric] by (subst keyboard_poll.simps) simp
next
  case (Cons sc scs)
  let ?k = "k\<lparr>kbd_tail := (kbd_tail k + 1) mod 128\<rparr>"
  have ne: "kbd_tail k \<noteq> kbd_head k" using Cons.hyps(2) pending_Nil[OF Cons.prems] by auto
  note t = take_scancode_pending[OF Cons.prems ne]
  have sc: "sc = kbd_buf k ! unat (kbd_tail k)" "scs = pending ?k" using Cons.hyps(2) t(2) by simp_all
  have r: "with_ring ?k k = ?k" by (simp add: with_ring_def)
  have "keyboard_poll b env (k, st) = Option.bind (handle_scancode b env sc (?k, st)) (keyboard_poll b env)"
    using ne sc(1) by (subst keyboard_poll.simps) (simp add: Let_def)
  also have "\<dots> = on_ring (k\<lparr>kbd_tail := kbd_head k\<rparr>) (handle_all b env (sc # scs) (k, st))"
  proof (cases "handle_scancode b env sc (k, st)")
    case None
    then show ?thesis using handle_with_ring[of b env sc ?k k st] by (simp add: r)
  next
    case (Some kst)
    obtain k1 st1 where kst: "kst = (k1, st1)" by (cases kst)
    have h: "handle_scancode b env sc (?k, st) = Some (with_ring ?k k1, st1)"
      using Some handle_with_ring[of b env sc ?k k st] by (simp add: r kst)
    have eq: "pending (with_ring ?k k1) = pending ?k" "ring_ok (with_ring ?k k1)"
      using t(1) by (simp_all add: pending_def waiting_def ring_ok_def)
    have "keyboard_poll b env (with_ring ?k k1, st1) =
        on_ring (with_ring ?k k1\<lparr>kbd_tail := kbd_head (with_ring ?k k1)\<rparr>) (handle_all b env scs (with_ring ?k k1, st1))"
      using Cons.hyps(1)[of "with_ring ?k k1" st1] eq sc(2) by simp
    also have "\<dots> = on_ring (k\<lparr>kbd_tail := kbd_head k\<rparr>) (handle_all b env scs (k1, st1))"
      unfolding handle_all_with_ring by (cases "handle_all b env scs (k1, st1)") (auto simp: with_ring_def)
    finally show ?thesis by (simp add: h Some kst)
  qed
  finally show ?case unfolding Cons.hyps(2) .
qed

text \<open>
  Where the main loop stands when an interrupt comes: before the test, before the read of the slot, before the update of
  the tail, before the call of the decoder. A step is an interrupt or a step of the main loop; the decoder's own steps count
  as one since they do not touch the buffer.
\<close>

datatype pc = At_test | At_read | At_advance u8 | At_handle u8

datatype kbd_event = Interrupt u8 | Main_step

type_synonym 'a config = "pc \<times> kbd \<times> 'a vfs_state_scheme \<times> string"

fun main_step :: "string \<Rightarrow> 'a vfs_state_scheme shell_env \<Rightarrow> 'a config \<Rightarrow> 'a config option" where
  "main_step b env (At_test, k, st) = Some (if kbd_tail k \<noteq> kbd_head k then At_read else At_test, k, st)"
| "main_step b env (At_read, k, st) = Some (At_advance (kbd_buf k ! unat (kbd_tail k)), k, st)"
| "main_step b env (At_advance sc, k, st) = Some (At_handle sc, k\<lparr>kbd_tail := (kbd_tail k + 1) mod 128\<rparr>, st)"
| "main_step b env (At_handle sc, k, st) = map_option (Pair At_test) (handle_scancode b env sc (k, st))"

fun do_event :: "string \<Rightarrow> 'a vfs_state_scheme shell_env \<Rightarrow> kbd_event \<Rightarrow> 'a config \<Rightarrow> 'a config option" where
  "do_event b env (Interrupt sc) (p, k, st) = Some (p, store_scancode sc k, st)"
| "do_event b env Main_step c = main_step b env c"

text \<open>A run, with the scancodes that the handler has accepted.\<close>

fun kbd_run :: "string \<Rightarrow> 'a vfs_state_scheme shell_env \<Rightarrow> kbd_event list \<Rightarrow> 'a config \<Rightarrow> ('a config \<times> u8 list) option" where
  "kbd_run b env [] c = Some (c, [])"
| "kbd_run b env (ev # evs) c =
     (case do_event b env ev c of None \<Rightarrow> None
      | Some c' \<Rightarrow>
        (case kbd_run b env evs c' of None \<Rightarrow> None
         | Some (c'', acc) \<Rightarrow>
           Some (c'', (case ev of Interrupt sc \<Rightarrow> if waiting (fst (snd c)) < 127 then sc # acc else acc | Main_step \<Rightarrow> acc))))"

text \<open>The scancodes that have been taken from the buffer or wait in it, and what holds of the main loop's position.\<close>

fun on_the_way :: "pc \<Rightarrow> kbd \<Rightarrow> u8 list" where
  "on_the_way (At_handle sc) k = sc # pending k"
| "on_the_way p k = pending k"

fun pc_ok :: "pc \<Rightarrow> kbd \<Rightarrow> bool" where
  "pc_ok At_read k = (pending k \<noteq> [])"
| "pc_ok (At_advance sc) k = (\<exists>scs. pending k = sc # scs)"
| "pc_ok _ k = True"

lemma pending_eqI:
  assumes "kbd_buf k = kbd_buf k'" and "kbd_head k = kbd_head k'" and "kbd_tail k = kbd_tail k'"
  shows "pending k = pending k'" "ring_ok k = ring_ok k'"
  using assms by (simp_all add: pending_def waiting_def ring_ok_def)

text \<open>One step, with the scancodes \<open>hs\<close> that the decoder has seen and those still on the way.\<close>

lemma do_event_step:
  assumes ok: "ring_ok k" "pc_ok p k" and e: "do_event b env ev (p, k, st) = Some (p', k', st')"
  shows "ring_ok k' \<and> pc_ok p' k' \<and>
    (\<exists>hs. hs @ on_the_way p' k' = on_the_way p k @ (case ev of Interrupt sc \<Rightarrow> if waiting k < 127 then [sc] else [] | Main_step \<Rightarrow> []) \<and>
       handle_all b env hs (with_ring k' k, st) = Some (k', st'))"
proof (cases ev)
  case (Interrupt sc)
  then have eq: "p' = p" "k' = store_scancode sc k" "st' = st" using e by simp_all
  have same: "with_ring k' k = k'" by (simp add: eq with_ring_def store_scancode_def Let_def)
  show ?thesis
    using store_scancode_pending[OF ok(1), of sc] ok(2) Interrupt
    by (intro conjI exI[of _ "[]"]; cases p) (auto simp: eq(1,3) same eq(2)[symmetric] split: if_splits)
next
  case Main_step
  show ?thesis
  proof (cases p)
    case At_test
    then show ?thesis using e ok pending_Nil[OF ok(1)] Main_step
      by (intro conjI exI[of _ "[]"]) (auto simp: with_ring_self split: if_splits)
  next
    case At_read
    then have ne: "kbd_tail k \<noteq> kbd_head k" using ok pending_Nil[OF ok(1)] by auto
    show ?thesis using At_read e ok take_scancode_pending(2)[OF ok(1) ne] Main_step
      by (intro conjI exI[of _ "[]"]) (auto simp: with_ring_self)
  next
    case (At_advance sc)
    then have ne: "kbd_tail k \<noteq> kbd_head k" using ok pending_Nil[OF ok(1)] by auto
    note t = take_scancode_pending[OF ok(1) ne]
    have k': "k' = k\<lparr>kbd_tail := (kbd_tail k + 1) mod 128\<rparr>" "p' = At_handle sc" "st' = st"
      using At_advance e Main_step by simp_all
    have "pending k = sc # pending k'" using t(2) At_advance ok(2) by (auto simp: k')
    moreover have "with_ring k' k = k'" by (simp add: k' with_ring_def)
    ultimately show ?thesis using t(1) At_advance Main_step by (intro conjI exI[of _ "[]"]) (simp_all add: k')
  next
    case (At_handle sc)
    then have h: "handle_scancode b env sc (k, st) = Some (k', st')" "p' = At_test" using e Main_step by auto
    have r: "with_ring k k' = k'" by (rule handle_ring[OF h(1)])
    then have f: "kbd_buf k' = kbd_buf k" "kbd_head k' = kbd_head k" "kbd_tail k' = kbd_tail k" by (metis ring_fields)+
    have "with_ring k' k = k" using f by (simp add: with_ring_def)
    then show ?thesis using At_handle h pending_eqI[OF f] ok(1) Main_step
      by (intro conjI exI[of _ "[sc]"]) simp_all
  qed
qed

lemma kbd_run_steps:
  assumes "ring_ok k" "pc_ok p k" and "kbd_run b env evs (p, k, st) = Some ((p', k', st'), acc)"
  shows "ring_ok k' \<and> pc_ok p' k' \<and>
    (\<exists>hs. hs @ on_the_way p' k' = on_the_way p k @ acc \<and> handle_all b env hs (with_ring k' k, st) = Some (k', st'))"
  using assms
proof (induction evs arbitrary: p k st acc)
  case Nil
  then show ?case by (auto simp: with_ring_self intro!: exI[of _ "[]"])
next
  case (Cons ev evs)
  obtain p1 k1 st1 where e: "do_event b env ev (p, k, st) = Some (p1, k1, st1)"
    using Cons.prems(3) by (auto split: option.splits)
  obtain acc1 where r: "kbd_run b env evs (p1, k1, st1) = Some ((p', k', st'), acc1)"
    and acc: "acc = (case ev of Interrupt sc \<Rightarrow> if waiting k < 127 then [sc] else [] | Main_step \<Rightarrow> []) @ acc1"
    using Cons.prems(3) e by (auto split: option.splits kbd_event.splits if_splits)
  obtain hs where s1: "ring_ok k1" "pc_ok p1 k1"
    "hs @ on_the_way p1 k1 = on_the_way p k @ (case ev of Interrupt sc \<Rightarrow> if waiting k < 127 then [sc] else [] | Main_step \<Rightarrow> [])"
    "handle_all b env hs (with_ring k1 k, st) = Some (k1, st1)"
    using do_event_step[OF Cons.prems(1,2) e] by blast
  obtain hs' where s2: "ring_ok k'" "pc_ok p' k'" "hs' @ on_the_way p' k' = on_the_way p1 k1 @ acc1"
    "handle_all b env hs' (with_ring k' k1, st1) = Some (k', st')"
    using Cons.IH[OF s1(1,2) r] by blast
  have "(hs @ hs') @ on_the_way p' k' = on_the_way p k @ acc"
    unfolding acc append.assoc s2(3) by (simp only: append.assoc[symmetric] s1(3))
  moreover have "handle_all b env hs (with_ring k' k, st) = Some (with_ring k' k1, st1)"
  proof -
    have "with_ring k' (with_ring k1 k) = with_ring k' k" by (rule with_ring_self)
    then show ?thesis using handle_all_with_ring[of b env hs k' "with_ring k1 k" st] s1(4) by simp
  qed
  ultimately show ?case using s2 by (intro conjI exI[of _ "hs @ hs'"]) (simp_all add: handle_all_append)
qed

text \<open>
  C30. No scancode is lost, doubled or reordered between the interrupt handler and the decoder, however the interrupts fall into the main
  loop: from an empty buffer, after any interleaving of interrupts and steps of the main loop that leaves the loop at its
  test, polling has the same effect as handing the decoder all the scancodes that the handler accepted, in the order of
  the interrupts, to the start state; and a scancode is refused only while 127 wait.
\<close>

theorem keyboard_fifo:
  assumes "ring_ok k" and "pending k = []" and "kbd_run b env evs (At_test, k, st) = Some ((At_test, k', st'), accepted)"
  shows "keyboard_poll b env (k', st') = on_ring (k'\<lparr>kbd_tail := kbd_head k'\<rparr>) (handle_all b env accepted (k, st))"
proof -
  obtain hs where r: "ring_ok k'" "hs @ pending k' = accepted" "handle_all b env hs (with_ring k' k, st) = Some (k', st')"
    using kbd_run_steps[OF assms(1) _ assms(3)] assms(2) by auto
  then obtain k1 st1 where h: "handle_all b env hs (k, st) = Some (k1, st1)" "with_ring k' k1 = k'" "st1 = st'"
    by (auto simp: handle_all_with_ring)
  have "handle_all b env accepted (k, st) = handle_all b env (pending k') (k1, st')"
    by (simp add: r(2)[symmetric] handle_all_append h)
  moreover have "handle_all b env (pending k') (k', st') = on_ring k' (handle_all b env (pending k') (k1, st'))"
    using handle_all_with_ring[of b env "pending k'" k' k1 st'] h(2) by simp
  ultimately show ?thesis
    unfolding keyboard_poll_pending[OF r(1)]
    by (cases "handle_all b env (pending k') (k1, st')") (auto simp: with_ring_def)
qed

section \<open>The words of a line\<close>

lemma skip_spaces_spec:
  assumes "i < length l" and "NUL \<in> set (drop i l)"
  shows "\<exists>l' j. skip_spaces l i = Some (l', j) \<and> length l' = length l \<and> i \<le> j \<and> j < length l \<and>
    (\<forall>k. i \<le> k \<and> k < j \<longrightarrow> l ! k = CHR '' '' \<and> l' ! k = NUL) \<and> (\<forall>k. k < i \<or> j \<le> k \<longrightarrow> l' ! k = l ! k) \<and>
    l ! j \<noteq> CHR '' '' \<and> NUL \<in> set (drop j l')"
  using assms
proof (induction l i rule: skip_spaces.induct)
  case (1 l i)
  show ?case
  proof (cases "l ! i = CHR '' ''")
    case True
    let ?l = "l[i := NUL]"
    have d: "drop i l = CHR '' '' # drop (Suc i) l" using 1(2) True by (simp add: Cons_nth_drop_Suc[symmetric])
    then have nul: "NUL \<in> set (drop (Suc i) ?l)" using 1(3) by simp
    then have "Suc i < length ?l" by (cases "Suc i < length l") auto
    from 1(1)[OF _ True this nul] obtain l' j where r: "skip_spaces ?l (Suc i) = Some (l', j)" "length l' = length l" "Suc i \<le> j"
      "j < length l" "\<forall>k. Suc i \<le> k \<and> k < j \<longrightarrow> ?l ! k = CHR '' '' \<and> l' ! k = NUL" "\<forall>k. k < Suc i \<or> j \<le> k \<longrightarrow> l' ! k = ?l ! k"
      "?l ! j \<noteq> CHR '' ''" "NUL \<in> set (drop j l')"
      using 1(2) by auto
    have ij: "i \<noteq> j" using r(3) by simp
    have a: "\<forall>k. i \<le> k \<and> k < j \<longrightarrow> l ! k = CHR '' '' \<and> l' ! k = NUL"
    proof (intro allI impI)
      fix k assume k: "i \<le> k \<and> k < j"
      show "l ! k = CHR '' '' \<and> l' ! k = NUL"
      proof (cases "k = i")
        case True
        then show ?thesis using \<open>l ! i = _\<close> r(6)[rule_format, of i] 1(2) by simp
      next
        case False
        then show ?thesis using k r(5)[rule_format, of k] by simp
      qed
    qed
    have c: "\<forall>k. k < i \<or> j \<le> k \<longrightarrow> l' ! k = l ! k" using r(3,6) by auto
    have "skip_spaces l i = Some (l', j)" using r(1) True 1(2) by (subst skip_spaces.simps) simp
    then show ?thesis using r(2,3,4,7,8) a c ij by (intro exI[of _ l'] exI[of _ j]) auto
  next
    case False
    then have "skip_spaces l i = Some (l, i)" using 1(2) by (subst skip_spaces.simps) simp
    then show ?thesis using False 1(2,3) by (intro exI[of _ l] exI[of _ i]) auto
  qed
qed

lemma skip_word_spec:
  assumes "i < length l" and "NUL \<in> set (drop i l)"
  shows "\<exists>j. skip_word l i = Some j \<and> i \<le> j \<and> j < length l \<and> (\<forall>k. i \<le> k \<and> k < j \<longrightarrow> l ! k \<noteq> NUL \<and> l ! k \<noteq> CHR '' '') \<and>
    (l ! j = NUL \<or> l ! j = CHR '' '') \<and> NUL \<in> set (drop j l)"
  using assms
proof (induction l i rule: skip_word.induct)
  case (1 l i)
  show ?case
  proof (cases "l ! i \<noteq> NUL \<and> l ! i \<noteq> CHR '' ''")
    case True
    have "drop i l = l ! i # drop (Suc i) l" using 1(2) by (simp add: Cons_nth_drop_Suc)
    then have nul: "NUL \<in> set (drop (Suc i) l)" using 1(3) True by auto
    then have "Suc i < length l" by (cases "Suc i < length l") auto
    from 1(1)[OF _ True this nul] 1(2) obtain j where j: "skip_word l (Suc i) = Some j" "Suc i \<le> j" "j < length l"
      "\<forall>k. Suc i \<le> k \<and> k < j \<longrightarrow> l ! k \<noteq> NUL \<and> l ! k \<noteq> CHR '' ''" "l ! j = NUL \<or> l ! j = CHR '' ''" "NUL \<in> set (drop j l)" by auto
    have "l ! k \<noteq> NUL \<and> l ! k \<noteq> CHR '' ''" if "i \<le> k" "k < j" for k
      using j(4) True that by (cases "k = i") auto
    moreover have "skip_word l i = Some j" using j(1) True 1(2) by (subst skip_word.simps) simp
    ultimately show ?thesis using j by (intro exI[of _ j]) auto
  next
    case False
    then have "skip_word l i = Some i" using 1(2) by (subst skip_word.simps) auto
    then show ?thesis using False 1(2,3) by (intro exI[of _ i]) auto
  qed
qed

text \<open>Splitting the rest of a line keeps what is before it, ends the word before it, and adds to the arguments.\<close>

lemma split_line_rest:
  assumes "i < length l" and "NUL \<in> set (drop i l)"
  shows "\<exists>l' more. split_line l i argv = Some (l', argv @ more) \<and> length l' = length l \<and> (\<forall>k < i. l' ! k = l ! k) \<and>
    (length argv < 16 \<longrightarrow> l ! i = CHR '' '' \<longrightarrow> l' ! i = NUL) \<and> (l ! i = NUL \<longrightarrow> l' ! i = NUL)"
  using assms
proof (induction l i argv rule: split_line.induct)
  case (1 l i argv)
  show ?case
  proof (cases "l ! i \<noteq> NUL \<and> length argv < 16")
    case True
    obtain l1 j where s: "skip_spaces l i = Some (l1, j)" "length l1 = length l" "i \<le> j" "j < length l"
      "\<forall>k. i \<le> k \<and> k < j \<longrightarrow> l ! k = CHR '' '' \<and> l1 ! k = NUL" "\<forall>k. k < i \<or> j \<le> k \<longrightarrow> l1 ! k = l ! k" "l ! j \<noteq> CHR '' ''" "NUL \<in> set (drop j l1)"
      using skip_spaces_spec[OF 1(2,3)] by blast
    have z: "l1 ! i = NUL" "i < j" if "l ! i = CHR '' ''" using that s(3,5,7) by (auto simp: le_less)
    show ?thesis
    proof (cases "l1 ! j = NUL")
      case True
      then have "split_line l i argv = Some (l1, argv @ [])"
        using \<open>l ! i \<noteq> NUL \<and> _\<close> 1(2) s(1) by (subst split_line.simps) simp
      moreover have "\<forall>k < i. l1 ! k = l ! k" using s(6) by simp
      ultimately show ?thesis using s(2) z \<open>l ! i \<noteq> NUL \<and> _\<close> by blast
    next
      case False
      obtain j' where w: "skip_word l1 j = Some j'" "j \<le> j'" "j' < length l1" "NUL \<in> set (drop j' l1)"
        "\<forall>k. j \<le> k \<and> k < j' \<longrightarrow> l1 ! k \<noteq> NUL \<and> l1 ! k \<noteq> CHR '' ''" "l1 ! j' = NUL \<or> l1 ! j' = CHR '' ''"
        using skip_word_spec[of j l1] s(2,4,8) by auto
      have "j \<noteq> j'" using w(6) False s(6)[rule_format, of j] s(7) by auto
      with w(2) have lt: "j < j'" by simp
      have c: "\<not> i \<ge> length l" using 1(2) by simp
      from 1(1)[OF c True s(1) refl False w(1) w(3,4)] obtain l' more where
        r: "split_line l1 j' (argv @ [j]) = Some (l', (argv @ [j]) @ more)" "length l' = length l1" "\<forall>k < j'. l' ! k = l1 ! k" by blast
      have "split_line l i argv = Some (l', argv @ (j # more))"
        using True 1(2) s(1) False w(1) r(1) by (subst split_line.simps) simp
      moreover have "\<forall>k < i. l' ! k = l ! k" using r(3) s(3,6) lt by auto
      moreover have "l ! i = CHR '' '' \<longrightarrow> l' ! i = NUL" using r(3) z lt s(3) by auto
      ultimately show ?thesis using True r(2) s(2) by (intro exI[of _ l'] exI[of _ "j # more"]) simp
    qed
  next
    case False
    then have "split_line l i argv = Some (l, argv @ [])" using 1(2) by (subst split_line.simps) auto
    then show ?thesis using False by blast
  qed
qed

text \<open>The first word of a line, and what the shell should do with it.\<close>

definition first_word :: "string \<Rightarrow> string" where
  "first_word l = takeWhile (\<lambda>c. c \<noteq> CHR '' '') (dropWhile (\<lambda>c. c = CHR '' '') l)"

definition obey ::
  "string \<Rightarrow> 'a vfs_state_scheme shell_env \<Rightarrow> string \<Rightarrow> 'a vfs_state_scheme \<times> string \<Rightarrow> ('a vfs_state_scheme \<times> string) option" where
  "obey b env w st =
     (if w = [] then Some st
      else case map_of commands w of
             Some (_, fn) \<Rightarrow> run_command b env fn st
           | None \<Rightarrow> Some (fst st, snd st @ ''Unknown command: '' @ w @ [CHR 0x0A]))"

lemma kprintf_char: "kprintf b ''%c'' [Va_int (of_char c)] t = Some (t @ [c], 1)"
proof -
  have "unat (of_nat (of_char c) :: u32) = of_char c"
    by (rule unat_of_nat_small, rule less_trans[OF nat_of_char_less_256]) simp
  then have "unat (of_char c :: u32) mod 256 = of_char c" by (simp add: of_nat_of_char)
  then show ?thesis
    by (simp add: kprintf_def kprintf_loop.simps is_escape_def is_text_def console_write_def Let_def)
qed

lemma kprintf_unknown:
  assumes "length w \<le> 1000"
  shows "kprintf b (''Unknown command: %s'' @ [CHR 0x0A]) [Va_str w] t =
    Some (t @ ''Unknown command: '' @ w @ [CHR 0x0A], int (length w) + 18)"
  using assms by (simp add: kprintf_def kprintf_loop.simps is_escape_def is_text_def console_write_def Let_def)

lemma kprintf_shell_texts:
  "kprintf b [CHR 0x0A] [] t = Some (t @ [CHR 0x0A], 1)"
  "kprintf b [CHR 0x08, CHR '' '', CHR 0x08] [] t = Some (t @ [CHR 0x08, CHR '' '', CHR 0x08], 3)"
  "kprintf b ''tusos-->'' [] t = Some (t @ ''tusos-->'', 8)"
  by (simp_all add: kprintf_def kprintf_loop.simps is_escape_def is_text_def console_write_def Let_def)

text \<open>Where the first word of a line lies.\<close>

lemma first_word_at:
  assumes "i \<le> j" and "j \<le> length l" and "\<forall>k < i. l ! k = CHR '' ''" and "\<forall>k. i \<le> k \<and> k < j \<longrightarrow> l ! k \<noteq> CHR '' ''"
    and "i < j \<or> j = length l" and "j < length l \<longrightarrow> l ! j = CHR '' ''"
  shows "first_word l = drop i (take j l)"
proof -
  have "takeWhile (\<lambda>c. c = CHR '' '') l = take i l"
    using assms(1-5) by (intro takeWhile_eq_take_P_nth) auto
  then have d: "dropWhile (\<lambda>c. c = CHR '' '') l = drop i l"
    using assms(1,2) by (simp add: dropWhile_eq_drop)
  have "takeWhile (\<lambda>c. c \<noteq> CHR '' '') (drop i l) = take (j - i) (drop i l)"
    using assms by (intro takeWhile_eq_take_P_nth) auto
  then show ?thesis using d assms(1) by (simp add: first_word_def drop_take)
qed

lemma split_line_first:
  assumes "NUL \<notin> set l"
  shows "\<exists>l' argv. split_line (l @ NUL # rest) 0 [] = Some (l', argv) \<and> length l' = length l + Suc (length rest) \<and>
    (argv = [] \<longleftrightarrow> first_word l = []) \<and> (argv \<noteq> [] \<longrightarrow> c_string (drop (hd argv) l') = first_word l)"
proof -
  let ?l = "l @ NUL # rest"
  obtain l1 i where s: "skip_spaces ?l 0 = Some (l1, i)" "length l1 = length ?l" "i < length ?l"
    "\<forall>k. k < i \<longrightarrow> ?l ! k = CHR '' '' \<and> l1 ! k = NUL" "\<forall>k. i \<le> k \<longrightarrow> l1 ! k = ?l ! k" "?l ! i \<noteq> CHR '' ''" "NUL \<in> set (drop i l1)"
    using skip_spaces_spec[of 0 ?l] by auto
  have il: "i \<le> length l"
  proof (rule ccontr)
    assume "\<not> i \<le> length l"
    then show False using s(4)[rule_format, of "length l"] by simp
  qed
  show ?thesis
  proof (cases "i = length l")
    case True
    have "first_word l = drop i (take i l)"
      using s(4) True by (intro first_word_at) (auto simp: nth_append split: if_splits)
    then have fw: "first_word l = []" by simp
    have "l1 ! i = NUL" using s(5) True by simp
    then have "split_line ?l 0 [] = Some (if l = [] then ?l else l1, [])"
      using s(1) True assms by (subst split_line.simps) (auto simp: nth_append neq_Nil_conv)
    then show ?thesis using fw s(2) by (auto split: if_splits)
  next
    case False
    with il have lt: "i < length l" by simp
    have nul: "l ! k \<noteq> NUL" if "k < length l" for k using nth_mem[OF that] assms by metis
    have li: "l1 ! i = l ! i" "l ! i \<noteq> NUL" "l ! i \<noteq> CHR '' ''" using s(5,6) lt nul[OF lt] by (auto simp: nth_append)
    have l0: "?l ! 0 \<noteq> NUL" using lt assms by (cases l) auto
    obtain j where w: "skip_word l1 i = Some j" "i \<le> j" "j < length l1" "\<forall>k. i \<le> k \<and> k < j \<longrightarrow> l1 ! k \<noteq> NUL \<and> l1 ! k \<noteq> CHR '' ''"
      "l1 ! j = NUL \<or> l1 ! j = CHR '' ''" "NUL \<in> set (drop j l1)"
      using skip_word_spec[of i l1] s(2,3,7) by auto
    have "i \<noteq> j" using w(5) li by auto
    with w(2) have ij: "i < j" by simp
    have jl: "j \<le> length l"
    proof (rule ccontr)
      assume "\<not> j \<le> length l"
      then show False using w(4)[rule_format, of "length l"] s(5)[rule_format, of "length l"] il by simp
    qed
    obtain l' more where r: "split_line l1 j [i] = Some (l', [i] @ more)" "length l' = length l1" "\<forall>k < j. l' ! k = l1 ! k" "l' ! j = NUL"
      using split_line_rest[OF w(3,6), of "[i]"] w(5) by auto
    have sp: "split_line ?l 0 [] = Some (l', i # more)"
      using l0 s(1) li r(1) w(1) by (subst split_line.simps) simp
    have word: "first_word l = drop i (take j l)"
    proof (rule first_word_at)
      show "\<forall>k. i \<le> k \<and> k < j \<longrightarrow> l ! k \<noteq> CHR '' ''" using w(4) s(5) jl by (auto simp: nth_append)
      show "j < length l \<longrightarrow> l ! j = CHR '' ''" using w(5) s(5) ij nul by (auto simp: nth_append)
    qed (use ij jl s(4) lt in \<open>auto simp: nth_append\<close>)
    have "takeWhile (\<lambda>c. c \<noteq> NUL) (drop i l') = take (j - i) (drop i l')"
      using ij jl r(2,3,4) w(3,4) by (intro takeWhile_eq_take_P_nth) auto
    also have "\<dots> = drop i (take j l)"
      using r(2,3) s(2,5) jl ij w(3) by (intro nth_equalityI) (auto simp: nth_append)
    finally have "c_string (drop i l') = first_word l" by (simp add: c_string_def word)
    moreover have "first_word l \<noteq> []" using word ij jl by simp
    ultimately show ?thesis using sp r(2) s(2) by simp
  qed
qed

lemma run_line_obeys:
  assumes "NUL \<notin> set l" and "length l \<le> 1000"
  shows "\<exists>l'. length l' = length l + Suc (length rest) \<and> run_line b env (l @ NUL # rest) st = map_option (Pair l') (obey b env (first_word l) st)"
proof -
  obtain l' argv where r: "split_line (l @ NUL # rest) 0 [] = Some (l', argv)" "length l' = length l + Suc (length rest)"
    "argv = [] \<longleftrightarrow> first_word l = []" "argv \<noteq> [] \<longrightarrow> c_string (drop (hd argv) l') = first_word l"
    using split_line_first[OF assms(1), of rest] by blast
  let ?w = "first_word l"
  have len: "length ?w \<le> 1000"
    unfolding first_word_def using assms(2) length_takeWhile_le length_dropWhile_le order_trans by meson
  have find: "List.find (\<lambda>(name, _). ?w = name) commands = map_option (Pair ?w) (map_of commands ?w)"
    by (auto simp: commands_def)
  have "run_line b env (l @ NUL # rest) st = map_option (Pair l') (obey b env ?w st)"
  proof (cases "argv = []")
    case True
    then show ?thesis using r by (simp add: run_line_def obey_def)
  next
    case False
    then show ?thesis using r find kprintf_unknown[OF len]
      by (cases st) (auto simp: run_line_def obey_def Let_def split: option.splits)
  qed
  with r(2) show ?thesis by blast
qed

section \<open>The line editor\<close>

primrec type_all ::
  "string \<Rightarrow> 'a vfs_state_scheme shell_env \<Rightarrow> string \<Rightarrow> kbd \<times> 'a vfs_state_scheme \<times> string \<Rightarrow> (kbd \<times> 'a vfs_state_scheme \<times> string) option" where
  "type_all b env [] kst = Some kst"
| "type_all b env (c # cs) kst = Option.bind (line_input b env c kst) (type_all b env cs)"

lemma type_all_append: "type_all b env (xs @ ys) kst = Option.bind (type_all b env xs kst) (type_all b env ys)"
proof (induction xs arbitrary: kst)
  case (Cons c xs)
  show ?case by (cases "line_input b env c kst") (simp_all add: Cons.IH)
qed simp

text \<open>The line as a string: backspace takes the last character away, a full line takes no more; and its echo.\<close>

definition edit :: "char \<Rightarrow> string \<Rightarrow> string" where
  "edit c l = (if c = CHR 0x08 then butlast l else if length l < 99 then l @ [c] else l)"

definition echo :: "char \<Rightarrow> string \<Rightarrow> string" where
  "echo c l = (if c = CHR 0x08 then if l = [] then [] else [CHR 0x08, CHR '' '', CHR 0x08] else if length l < 99 then [c] else [])"

fun echoes :: "string \<Rightarrow> string \<Rightarrow> string" where
  "echoes [] l = []"
| "echoes (c # cs) l = echo c l @ echoes cs (edit c l)"

definition holds_line :: "kbd \<Rightarrow> string \<Rightarrow> bool" where
  "holds_line k l \<longleftrightarrow> length (line k) = 100 \<and> line_len k = length l \<and> length l \<le> 99 \<and> take (length l) (line k) = l"

lemma line_input_edits:
  assumes h: "holds_line k l" and c: "c \<noteq> CHR 0x0A"
  shows "\<exists>k'. line_input b env c (k, s, t) = Some (k', s, t @ echo c l) \<and> holds_line k' (edit c l)"
proof (cases "c = CHR 0x08")
  case True
  show ?thesis
  proof (cases "l = []")
    case True
    then show ?thesis using h \<open>c = _\<close> by (simp add: line_input_def holds_line_def edit_def echo_def)
  next
    case False
    have l: "take (length l) (line k) = l" using h by (simp add: holds_line_def)
    have "butlast l = take (length l - 1) (take (length l) (line k))" unfolding l by (rule butlast_conv_take)
    then have "take (length l - 1) (line k) = butlast l" by simp
    moreover have "length l - Suc 0 \<le> 99" using h by (auto simp: holds_line_def)
    ultimately show ?thesis using h False True
      by (simp add: line_input_def holds_line_def edit_def echo_def kprintf_shell_texts)
  qed
next
  case False
  show ?thesis
  proof (cases "length l < 99")
    case True
    have "take (Suc (length l)) ((line k)[length l := c]) = l @ [c]"
      using h True by (simp add: holds_line_def take_Suc_conv_app_nth)
    then show ?thesis using h c False True
      by (simp add: line_input_def holds_line_def edit_def echo_def kprintf_char)
  next
    case False
    then show ?thesis using h c \<open>c \<noteq> CHR 0x08\<close> by (auto simp: line_input_def holds_line_def edit_def echo_def)
  qed
qed

lemma type_all_edits:
  assumes "holds_line k l" and "CHR 0x0A \<notin> set cs"
  shows "\<exists>k'. type_all b env cs (k, s, t) = Some (k', s, t @ echoes cs l) \<and> holds_line k' (fold edit cs l)"
  using assms
proof (induction cs arbitrary: k l t)
  case (Cons c cs)
  then obtain k' where k': "line_input b env c (k, s, t) = Some (k', s, t @ echo c l)" "holds_line k' (edit c l)"
    using line_input_edits[of k l c b env s t] by auto
  from Cons.IH[OF k'(2), of "t @ echo c l"] Cons.prems(2) k'(1) show ?case by auto
qed simp

lemma edit_no_nul: "c \<noteq> NUL \<Longrightarrow> NUL \<notin> set l \<Longrightarrow> NUL \<notin> set (edit c l)"
  by (auto simp: edit_def dest: in_set_butlastD)

lemma fold_edit_no_nul: "NUL \<notin> set cs \<Longrightarrow> NUL \<notin> set l \<Longrightarrow> NUL \<notin> set (fold edit cs l)"
proof (induction cs arbitrary: l)
  case (Cons c cs)
  then have "NUL \<notin> set (edit c l)" by (intro edit_no_nul) auto
  with Cons show ?case by simp
qed simp

text \<open>
  C31. What is typed is what the shell obeys: from an empty line, after any characters and the return key, the shell obeys the
  first word of the edited line (characters in order, each backspace taking the last one away, at most 99 kept): nothing for a
  blank line, the command of that name, or the message for an unknown command. The echo on the terminal follows each key,
  the line is empty again and the prompt is printed.
\<close>

theorem shell_obeys_line:
  assumes "holds_line k []" and "CHR 0x0A \<notin> set cs" and "NUL \<notin> set cs"
  shows "\<exists>k'. holds_line k' [] \<and>
    type_all b env (cs @ [CHR 0x0A]) (k, s, t) =
      map_option (\<lambda>(s', t'). (k', s', t' @ ''tusos-->'')) (obey b env (first_word (fold edit cs [])) (s, t @ echoes cs [] @ [CHR 0x0A]))"
proof -
  let ?l = "fold edit cs []"
  obtain k1 where k1: "type_all b env cs (k, s, t) = Some (k1, s, t @ echoes cs [])" "holds_line k1 ?l"
    using type_all_edits[OF assms(1,2)] by blast
  have nul: "NUL \<notin> set ?l" using fold_edit_no_nul[OF assms(3)] by simp
  define rest where "rest = drop (Suc (length ?l)) (line k1)"
  have h: "length (line k1) = 100" "line_len k1 = length ?l" "length ?l \<le> 99" "take (length ?l) (line k1) = ?l"
    using k1(2) by (simp_all add: holds_line_def)
  have line: "(line k1)[length ?l := NUL] = ?l @ NUL # rest"
    using h upd_conv_take_nth_drop[of "length ?l" "line k1" NUL] by (simp add: rest_def)
  have len: "length ?l + Suc (length rest) = 100" using h by (simp add: rest_def)
  obtain l' where l': "length l' = 100" "run_line b env (?l @ NUL # rest) (s, t @ echoes cs [] @ [CHR 0x0A]) =
      map_option (Pair l') (obey b env (first_word ?l) (s, t @ echoes cs [] @ [CHR 0x0A]))"
    using run_line_obeys[OF nul, of rest b env "(s, t @ echoes cs [] @ [CHR 0x0A])"] h(3) len by auto
  let ?k = "k1\<lparr>line := l', line_len := 0\<rparr>"
  have "line_input b env (CHR 0x0A) (k1, s, t @ echoes cs []) =
      map_option (\<lambda>(s', t'). (?k, s', t' @ ''tusos-->'')) (obey b env (first_word ?l) (s, t @ echoes cs [] @ [CHR 0x0A]))"
    using h l'(2) line by (cases "obey b env (first_word ?l) (s, t @ echoes cs [] @ [CHR 0x0A])")
      (auto simp: line_input_def kprintf_shell_texts Let_def)
  moreover have "holds_line ?k []" using l'(1) by (simp add: holds_line_def)
  ultimately show ?thesis using k1(1) by (intro exI[of _ ?k]) (auto simp: type_all_append split: Option.bind_splits)
qed

section \<open>The decoder\<close>

text \<open>Every scancode up to 127 has an entry in both tables; where the first is a character so is the second, and letters are paired.\<close>

definition entry_ok :: "u32 \<Rightarrow> u32 \<Rightarrow> bool" where
  "entry_ok lo up \<longleftrightarrow>
     (if lo \<le> 0x7F then 0 < lo \<and> 0 < up \<and> up \<le> 0x7F \<and> (if 0x61 \<le> lo \<and> lo \<le> 0x7A then up = lo - 32 else True)
      else 0x100 \<le> lo \<and> lo \<le> 0x120)"

lemma tables_length: "length lowercase = 128" "length uppercase = 128"
  by (simp_all add: lowercase_def uppercase_def)

lemma tables_ok: "list_all2 entry_ok lowercase uppercase"
  by (simp add: lowercase_def uppercase_def entry_ok_def)

lemma entry_ok_code: "entry_ok (lowercase ! unat (raw AND 0x7F :: u8)) (uppercase ! unat (raw AND 0x7F))"
proof -
  have "(0x7F :: u8) = mask 7" by (simp add: mask_eq_exp_minus_1)
  then have "unat (raw AND 0x7F) < 128"
    using and_mask_less'[of 7 raw] by (simp add: word_less_nat_alt)
  then show ?thesis using list_all2_nthD[OF tables_ok] tables_length by simp
qed

lemma press_code:
  assumes "(raw :: u8) AND 0x80 = 0"
  shows "raw AND 0x7F = raw" "raw < 0x80"
proof -
  have m: "(0x7F :: u8) = mask 7" "(0x80 :: u8) = push_bit 7 1" by (simp_all add: mask_eq_exp_minus_1)
  have "\<not> bit raw 7"
  proof
    assume "bit raw 7"
    then have "bit (raw AND push_bit 7 1) 7" by (simp add: bit_and_iff bit_push_bit_iff)
    moreover have "raw AND push_bit 7 1 = 0" using assms unfolding m(2) .
    ultimately show False by (simp only:) simp
  qed
  then have top: "bit raw n \<longrightarrow> n < 7" for n by (cases "n = 7") (auto dest: bit_imp_le_length)
  show "raw AND 0x7F = raw" unfolding m(1) by (rule bit_word_eqI) (use top in \<open>auto simp: bit_and_iff bit_mask_iff not_less\<close>)
  then have "raw = raw AND mask 7" by (simp add: m(1))
  also have "\<dots> < 2 ^ 7" by (rule and_mask_less') simp
  finally show "raw < 0x80" by simp
qed

text \<open>
  C32. Whatever arrives from the keyboard, the decoder hands the line editor only characters of seven bits other than the
  terminator, and only for the press of a key without the prefix of the extended keys. A letter is a capital exactly if one of
  shift and caps lock is active but not both; no other key is affected by caps lock.
\<close>

theorem decode_scancode_types:
  assumes "snd (decode_scancode raw k) = Some c"
  shows "0 < (of_char c :: nat) \<and> (of_char c :: nat) < 128 \<and> raw < 0x80 \<and> \<not> extended k \<and>
    (if 0x61 \<le> lowercase ! unat raw \<and> lowercase ! unat raw \<le> 0x7A
     then of_char c = unat (lowercase ! unat raw) - (if shift_down k \<noteq> caps_lock k then 32 else 0)
     else of_char c = unat ((if shift_down k then uppercase else lowercase) ! unat raw))"
proof -
  let ?code = "raw AND 0x7F" and ?lo = "lowercase ! unat (raw AND 0x7F)" and ?up = "uppercase ! unat (raw AND 0x7F)"
  let ?key = "ucast (lowercase ! unat (raw AND 0x7F)) :: u16"
  have d: "raw AND 0x80 = 0" "\<not> extended k" "\<not> ?key > 0x7F"
    "c = char_of (unat (if shift_down k \<noteq> (caps_lock k \<and> ?key \<ge> of_char CHR ''a'' \<and> ?key \<le> of_char CHR ''z'') then ?up else ucast ?key))"
    using assms by (auto simp: decode_scancode_def Let_def split: if_splits)
  have raw: "?code = raw" "raw < 0x80" by (rule press_code[OF d(1)])+
  have e: "entry_ok ?lo ?up" by (rule entry_ok_code)
  have small: "unat ?lo \<le> 0x120" using e by (auto simp: entry_ok_def Let_def word_le_nat_alt split: if_splits)
  have key: "unat ?key = unat ?lo" using small by (simp add: unsigned_ucast_eq take_bit_nat_eq_self)
  have wide: "ucast ?key = ?lo" using key by (simp add: word_unat_eq_iff unat_ucast_up)
  have lo: "?lo \<le> 0x7F" using d(3) key by (simp add: word_less_nat_alt word_le_nat_alt)
  have letter: "(?key \<ge> of_char CHR ''a'' \<and> ?key \<le> of_char CHR ''z'') \<longleftrightarrow> 0x61 \<le> ?lo \<and> ?lo \<le> 0x7A"
    using key by (simp add: word_le_nat_alt)
  let ?letter = "0x61 \<le> ?lo \<and> ?lo \<le> 0x7A" and ?upper = "shift_down k \<noteq> (caps_lock k \<and> 0x61 \<le> ?lo \<and> ?lo \<le> 0x7A)"
  have up: "0 < ?lo" "0 < ?up" "?up \<le> 0x7F" "?letter \<longrightarrow> unat ?up = unat ?lo - 32"
    using e lo by (auto simp: entry_ok_def unat_sub_if' word_le_nat_alt)
  let ?v = "if ?upper then ?up else ?lo"
  have v: "0 < unat ?v" "unat ?v < 128" using up lo by (auto simp: word_le_nat_alt unsigned_greater_eq word_less_nat_alt)
  have c: "of_char c = unat ?v" unfolding d(4) letter wide using v(2) by simp
  show ?thesis
  proof (cases ?letter)
    case True
    then show ?thesis using c v raw d(2) up(4) by auto
  next
    case False
    then show ?thesis using c v raw d(2) by auto
  qed
qed

section \<open>Examples\<close>

definition ex_kbd :: kbd where
  "ex_kbd = \<lparr>kbd_buf = replicate 128 0, kbd_head = 127, kbd_tail = 127, shift_down = False, caps_lock = False, line = replicate 100 NUL,
     line_len = 0, extended = False\<rparr>"

definition ex_env :: "vfs_state shell_env" where
  "ex_env = \<lparr>hardware = (\<lambda>_ _. 0), power_prepare = Pair True, power_enter = Pair True, power_reboot = Pair True\<rparr>"

definition ex_events :: "kbd_event list" where
  "ex_events = [Interrupt 0x2A, Main_step, Main_step, Interrupt 0x1E, Main_step, Main_step]"

lemma ex_kbd_ok: "ring_ok ex_kbd" "pending ex_kbd = []" "holds_line ex_kbd []"
  by (simp_all add: ring_ok_def pending_def waiting_def holds_line_def ex_kbd_def)

lemma ex_lowercase: "lowercase ! 42 = 0x103"
  by (simp add: lowercase_def)

lemma ex_kbd_run: "\<exists>k' st'. kbd_run [] ex_env ex_events (At_test, ex_kbd, ex_vstate, []) = Some ((At_test, k', st'), [0x2A, 0x1E])"
  by (simp add: ex_events_def ex_kbd_def store_scancode_def waiting_def handle_scancode_def decode_scancode_def ex_lowercase Let_def)

theorem keyboard_fifo_witness:
  "\<exists>k' st'. kbd_run [] ex_env ex_events (At_test, ex_kbd, ex_vstate, []) = Some ((At_test, k', st'), [0x2A, 0x1E]) \<and>
     keyboard_poll [] ex_env (k', st') = on_ring (k'\<lparr>kbd_tail := kbd_head k'\<rparr>) (handle_all [] ex_env [0x2A, 0x1E] (ex_kbd, ex_vstate, []))"
proof -
  obtain k' st' where r: "kbd_run [] ex_env ex_events (At_test, ex_kbd, ex_vstate, []) = Some ((At_test, k', st'), [0x2A, 0x1E])"
    using ex_kbd_run by blast
  from keyboard_fifo[OF ex_kbd_ok(1,2) r] r show ?thesis by blast
qed

theorem shell_obeys_line_witness:
  "\<exists>k'. type_all [] ex_env (''  cleax'' @ [CHR 0x08] @ ''r now'' @ [CHR 0x0A]) (ex_kbd, ex_vstate, []) =
     Some (k', ex_vstate, clear (echoes (''  cleax'' @ [CHR 0x08] @ ''r now'') [] @ [CHR 0x0A]) @ ''tusos-->'')"
proof -
  let ?cs = "''  cleax'' @ [CHR 0x08] @ ''r now''"
  have "CHR 0x0A \<notin> set ?cs" "NUL \<notin> set ?cs" by simp_all
  from shell_obeys_line[OF ex_kbd_ok(3) this, of "[]" ex_env ex_vstate "[]"]
  obtain k' where "type_all [] ex_env (?cs @ [CHR 0x0A]) (ex_kbd, ex_vstate, []) =
      map_option (\<lambda>(s', t'). (k', s', t' @ ''tusos-->'')) (obey [] ex_env (first_word (fold edit ?cs [])) (ex_vstate, [] @ echoes ?cs [] @ [CHR 0x0A]))"
    by blast
  moreover have "first_word (fold edit ?cs []) = ''clear''" by (simp add: edit_def first_word_def)
  ultimately show ?thesis by (intro exI[of _ k']) (simp add: obey_def commands_def run_command_def)
qed

theorem decode_scancode_types_witness:
  "snd (decode_scancode 0x1E (ex_kbd\<lparr>caps_lock := True\<rparr>)) = Some CHR ''A'' \<and> (of_char CHR ''A'' :: nat) < 128"
proof -
  have a: "lowercase ! 30 = 0x61" "uppercase ! 30 = 0x41" by (simp_all add: lowercase_def uppercase_def)
  have "snd (decode_scancode 0x1E (ex_kbd\<lparr>caps_lock := True\<rparr>)) = Some CHR ''A''"
    by (simp add: decode_scancode_def Let_def ex_kbd_def a char_of_def bit_Suc_0_iff)
  with decode_scancode_types[OF this] show ?thesis by simp
qed

end
