(* ===== verification/Pci.thy ===== *)
theory Pci
  imports Descriptors
begin

text \<open>
  The PCI bus (\<^verbatim>\<open>drivers/x86/pci.c\<close>, \<^verbatim>\<open>include/pci.h\<close>, and the two accessors of \<^verbatim>\<open>cpu/util.c\<close>): configuration space through the
  ports \<open>0xCF8\<close> and \<open>0xCFC\<close>, the registry of drivers, and the scan at boot. The hardware is a device parameter; a
  driver is the address of its function, and what a call of it does is a parameter.
\<close>

section \<open>Configuration space\<close>

definition config_address :: "u8 \<Rightarrow> u8 \<Rightarrow> u8 \<Rightarrow> u8 \<Rightarrow> u32" where
  "config_address bus num fn offset =
     push_bit 31 1 OR push_bit 16 (ucast bus) OR push_bit 11 (ucast num) OR push_bit 8 (ucast fn) OR (ucast offset AND 0xFC)"

definition pci_read_config32 :: "device \<Rightarrow> u8 \<Rightarrow> u8 \<Rightarrow> u8 \<Rightarrow> u8 \<Rightarrow> 'a machine_scheme \<Rightarrow> u32 \<times> 'a machine_scheme" where
  "pci_read_config32 dev bus num fn offset s =
     (let s = io_out (Out32 0xCF8 (config_address bus num fn offset)) s;
          (v, s) = io_in dev (In32 0xCFC) s
      in (ucast v, s))"

definition pci_read_config16 :: "device \<Rightarrow> u8 \<Rightarrow> u8 \<Rightarrow> u8 \<Rightarrow> u8 \<Rightarrow> 'a machine_scheme \<Rightarrow> u16 \<times> 'a machine_scheme" where
  "pci_read_config16 dev bus num fn offset s =
     (let s = io_out (Out32 0xCF8 (config_address bus num fn offset)) s;
          (v, s) = io_in dev (In32 0xCFC) s
      in (ucast (drop_bit (unat ((offset AND 2) * 8)) (ucast v :: u32) AND 0xFFFF), s))"

definition pci_read_config8 :: "device \<Rightarrow> u8 \<Rightarrow> u8 \<Rightarrow> u8 \<Rightarrow> u8 \<Rightarrow> 'a machine_scheme \<Rightarrow> u8 \<times> 'a machine_scheme" where
  "pci_read_config8 dev bus num fn offset s =
     (let s = io_out (Out32 0xCF8 (config_address bus num fn offset)) s;
          (v, s) = io_in dev (In32 0xCFC) s
      in (ucast (drop_bit (unat ((offset AND 3) * 8)) (ucast v :: u32) AND 0xFF), s))"

definition pci_write_config32 :: "u8 \<Rightarrow> u8 \<Rightarrow> u8 \<Rightarrow> u8 \<Rightarrow> u32 \<Rightarrow> 'a machine_scheme \<Rightarrow> 'a machine_scheme" where
  "pci_write_config32 bus num fn offset val s =
     (let s = io_out (Out32 0xCF8 (config_address bus num fn offset)) s in io_out (Out32 0xCFC val) s)"

definition pci_write_config16 :: "device \<Rightarrow> u8 \<Rightarrow> u8 \<Rightarrow> u8 \<Rightarrow> u8 \<Rightarrow> u16 \<Rightarrow> 'a machine_scheme \<Rightarrow> 'a machine_scheme" where
  "pci_write_config16 dev bus num fn offset val s =
     (let s = io_out (Out32 0xCF8 (config_address bus num fn offset)) s;
          (v, s) = io_in dev (In32 0xCFC) s;
          current = ucast v :: u32;
          shift = unat ((offset AND 2) * 8);
          merged = (current AND NOT (push_bit shift 0xFFFF)) OR push_bit shift (ucast val)
      in io_out (Out32 0xCFC merged) s)"

definition pci_write_config8 :: "device \<Rightarrow> u8 \<Rightarrow> u8 \<Rightarrow> u8 \<Rightarrow> u8 \<Rightarrow> u8 \<Rightarrow> 'a machine_scheme \<Rightarrow> 'a machine_scheme" where
  "pci_write_config8 dev bus num fn offset val s =
     (let s = io_out (Out32 0xCF8 (config_address bus num fn offset)) s;
          (v, s) = io_in dev (In32 0xCFC) s;
          current = ucast v :: u32;
          shift = unat ((offset AND 3) * 8);
          merged = (current AND NOT (push_bit shift 0xFF)) OR push_bit shift (ucast val)
      in io_out (Out32 0xCFC merged) s)"

text \<open>The accessors of \<^verbatim>\<open>cpu/util.c\<close>, which use byte-wide port accesses.\<close>

definition pciConfigReadWord :: "device \<Rightarrow> u8 \<Rightarrow> u8 \<Rightarrow> u8 \<Rightarrow> u8 \<Rightarrow> 'a machine_scheme \<Rightarrow> u16 \<times> 'a machine_scheme" where
  "pciConfigReadWord dev bus slot fn offset s =
     (let s = io_out (Out8 0xCF8 (ucast (config_address bus slot fn offset))) s;
          (v, s) = io_in dev (In8 0xCFC) s
      in (ucast (drop_bit (unat ((offset AND 2) * 8)) (ucast (ucast v :: u8) :: u32) AND 0xFFFF), s))"

definition ConfigWriteDword :: "u8 \<Rightarrow> u8 \<Rightarrow> u8 \<Rightarrow> u8 \<Rightarrow> u32 \<Rightarrow> 'a machine_scheme \<Rightarrow> 'a machine_scheme" where
  "ConfigWriteDword bus slot fn offset conf s =
     io_out (Out8 0xCFC (ucast conf)) (io_out (Out8 0xCF8 (ucast (config_address bus slot fn offset))) s)"

section \<open>Headers, devices and drivers\<close>

record pci_t =
  vendorID :: u16
  deviceID :: u16
  pci_command :: u16
  pci_status :: u16
  revisionID :: u8
  progIF :: u8
  pci_subclass :: u8
  pci_class :: u8
  cacheLineSize :: u8
  latencyTimer :: u8
  headerType :: u8
  bist :: u8
  bar0 :: u32
  bar1 :: u32
  bar2 :: u32
  bar3 :: u32
  bar4 :: u32
  bar5 :: u32
  cardbusCISPointer :: u32
  subsystemVendorID :: u16
  subsystemID :: u16
  expansionROMBaseAddress :: u32
  capabilitiesPointer :: u8
  pci_reserved0 :: u8
  pci_reserved1 :: u16
  pci_reserved2 :: u32
  pci_irq :: u8
  interruptPIN :: u8
  minGrant :: u8
  maxLatency :: u8

definition lo8 :: "u16 \<Rightarrow> u8" where "lo8 w = ucast w"
definition hi8 :: "u16 \<Rightarrow> u8" where "hi8 w = ucast (drop_bit 8 w)"
definition join16 :: "u16 \<Rightarrow> u16 \<Rightarrow> u32" where "join16 l h = ucast l OR push_bit 16 (ucast h)"

text \<open>The packed structure whose 32 half-words are \<open>p\<close>.\<close>

definition pci_of_words :: "u16 list \<Rightarrow> pci_t" where
  "pci_of_words p =
     \<lparr>vendorID = p ! 0, deviceID = p ! 1, pci_command = p ! 2, pci_status = p ! 3, revisionID = lo8 (p ! 4),
      progIF = hi8 (p ! 4), pci_subclass = lo8 (p ! 5), pci_class = hi8 (p ! 5), cacheLineSize = lo8 (p ! 6),
      latencyTimer = hi8 (p ! 6), headerType = lo8 (p ! 7), bist = hi8 (p ! 7), bar0 = join16 (p ! 8) (p ! 9),
      bar1 = join16 (p ! 10) (p ! 11), bar2 = join16 (p ! 12) (p ! 13), bar3 = join16 (p ! 14) (p ! 15),
      bar4 = join16 (p ! 16) (p ! 17), bar5 = join16 (p ! 18) (p ! 19), cardbusCISPointer = join16 (p ! 20) (p ! 21),
      subsystemVendorID = p ! 22, subsystemID = p ! 23, expansionROMBaseAddress = join16 (p ! 24) (p ! 25),
      capabilitiesPointer = lo8 (p ! 26), pci_reserved0 = hi8 (p ! 26), pci_reserved1 = p ! 27,
      pci_reserved2 = join16 (p ! 28) (p ! 29), pci_irq = lo8 (p ! 30), interruptPIN = hi8 (p ! 30),
      minGrant = lo8 (p ! 31), maxLatency = hi8 (p ! 31)\<rparr>"

record pci_device_entry_t =
  dev_used :: bool
  dev_header :: pci_t
  dev_bus :: u8
  dev_device :: u8
  dev_function :: u8
  driver_data :: u64

record pci_driver_t =
  drv_used :: bool
  drv_class :: u8
  drv_subclass :: u8
  pcidrv :: u64

abbreviation MAX_PCI_DEVICES :: nat where "MAX_PCI_DEVICES \<equiv> 32"
abbreviation MAX_PCI_DRIVERS :: nat where "MAX_PCI_DRIVERS \<equiv> 256"

record pci_registry =
  pci_devices :: "pci_device_entry_t list"
  pci_device_count :: nat
  pci_drivers :: "pci_driver_t list"

definition pci_drivers_print :: "string \<Rightarrow> pci_registry \<Rightarrow> string \<Rightarrow> string option" where
  "pci_drivers_print b r term = do {
     (term, _) \<leftarrow> kprintf b (''PCI Driver Registry:'' @ [CHR 0x0A]) [] term;
     fold (\<lambda>i t. Option.bind t (\<lambda>term.
         let drv = pci_drivers r ! i
         in if \<not> drv_used drv then Some term
            else map_option fst (kprintf b (''  [idx=%d] class=%x subclass=%x pcidrv=%x'' @ [CHR 0x0A])
              [Va_int (of_nat i), Va_int (ucast (drv_class drv)), Va_int (ucast (drv_subclass drv)), Va_int (ucast (pcidrv drv))] term)))
       [0..<MAX_PCI_DRIVERS] (Some term)
   }"

fun load_words :: "device \<Rightarrow> u8 \<Rightarrow> u8 \<Rightarrow> u8 \<Rightarrow> nat list \<Rightarrow> 'a machine_scheme \<Rightarrow> u16 list \<times> 'a machine_scheme" where
  "load_words dev bus num fn [] s = ([], s)"
| "load_words dev bus num fn (i # is) s =
     (let (w, s) = pci_read_config16 dev bus num fn (of_nat (i * 2)) s;
          (ws, s) = load_words dev bus num fn is s
      in (w # ws, s))"

definition pci_load :: "device \<Rightarrow> u8 \<Rightarrow> u8 \<Rightarrow> u8 \<Rightarrow> 'a machine_scheme \<Rightarrow> pci_t \<times> 'a machine_scheme" where
  "pci_load dev bus num fn s =
     (let (p, s) = load_words dev bus num fn [0..<32] s in (pci_of_words p, s))"

definition reg :: "u64 \<Rightarrow> u8 \<Rightarrow> u8 \<Rightarrow> pci_registry \<Rightarrow> pci_registry" where
  "reg drv cls subclass r =
     (case List.find (\<lambda>i. \<not> drv_used (pci_drivers r ! i)) [0..<MAX_PCI_DRIVERS] of
        None \<Rightarrow> r
      | Some i \<Rightarrow>
          r\<lparr>pci_drivers := (pci_drivers r)[i := \<lparr>drv_used = True, drv_class = cls, drv_subclass = subclass, pcidrv = drv\<rparr>]\<rparr>)"

text \<open>A call of a driver, by its address, with the header and the location of the function.\<close>

type_synonym 's driver_call = "u64 \<Rightarrow> pci_t \<Rightarrow> u8 \<Rightarrow> u8 \<Rightarrow> u8 \<Rightarrow> pci_registry \<times> 's \<Rightarrow> pci_registry \<times> 's"

definition launch_step :: "'s driver_call \<Rightarrow> pci_t \<Rightarrow> u8 \<Rightarrow> u8 \<Rightarrow> u8 \<Rightarrow> nat \<Rightarrow> pci_registry \<times> 's \<Rightarrow> pci_registry \<times> 's" where
  "launch_step call pci bus dv fn i rs =
     (let drv = pci_drivers (fst rs) ! i
      in if drv_used drv \<and> drv_class drv = pci_class pci \<and> drv_subclass drv = pci_subclass pci
         then call (pcidrv drv) pci bus dv fn rs else rs)"

definition pci_launch :: "'s driver_call \<Rightarrow> pci_t \<Rightarrow> u8 \<Rightarrow> u8 \<Rightarrow> u8 \<Rightarrow> pci_registry \<times> 's \<Rightarrow> pci_registry \<times> 's" where
  "pci_launch call pci bus dv fn rs =
     (let rs = (case rs of (r, s) \<Rightarrow>
                  if pci_device_count r < MAX_PCI_DEVICES
                  then (r\<lparr>pci_devices := (pci_devices r)[pci_device_count r :=
                            \<lparr>dev_used = True, dev_header = pci, dev_bus = bus, dev_device = dv, dev_function = fn, driver_data = 0\<rparr>],
                          pci_device_count := pci_device_count r + 1\<rparr>, s)
                  else (r, s))
      in fold (launch_step call pci bus dv fn) [0..<MAX_PCI_DRIVERS] rs)"

definition scan_function ::
  "device \<Rightarrow> 'a machine_scheme driver_call \<Rightarrow> u8 \<Rightarrow> u8 \<Rightarrow> u8 \<Rightarrow> pci_registry \<times> 'a machine_scheme \<Rightarrow> bool \<times> pci_registry \<times> 'a machine_scheme" where
  "scan_function dev call bus dv fn rs =
     (case rs of (r, s) \<Rightarrow>
        let (pci, s) = pci_load dev bus dv fn s
        in if vendorID pci \<noteq> 0xFFFF then (True, pci_launch call pci bus dv fn (r, s)) else (False, r, s))"

definition scan_device ::
  "device \<Rightarrow> 'a machine_scheme driver_call \<Rightarrow> u8 \<Rightarrow> u8 \<Rightarrow> pci_registry \<times> 'a machine_scheme \<Rightarrow> pci_registry \<times> 'a machine_scheme" where
  "scan_device dev call bus dv rs =
     (let (present, rs) = scan_function dev call bus dv 0 rs
      in if present then fold (\<lambda>fn rs. snd (scan_function dev call bus dv (of_nat fn) rs)) [1..<8] rs else rs)"

definition initworkspace ::
  "device \<Rightarrow> 'a machine_scheme driver_call \<Rightarrow> pci_registry \<times> 'a machine_scheme \<Rightarrow> pci_registry \<times> 'a machine_scheme" where
  "initworkspace dev call rs =
     fold (\<lambda>bus rs. fold (\<lambda>dv rs. scan_device dev call (of_nat bus) (of_nat dv) rs) [0..<32] rs) [0..<256] rs"

section \<open>What the scan finds\<close>

text \<open>
  Configuration space as the hardware presents it: a read of the data port gives the double word at the address written last.
  The header of a function and its location.
\<close>

definition config_device :: "device \<Rightarrow> (u32 \<Rightarrow> u32) \<Rightarrow> bool" where
  "config_device dev cfg \<longleftrightarrow> (\<forall>tr a. ucast (dev (tr @ [Out32 0xCF8 a]) (In32 0xCFC)) = cfg a)"

definition config_word :: "(u32 \<Rightarrow> u32) \<Rightarrow> u8 \<Rightarrow> u8 \<Rightarrow> u8 \<Rightarrow> u8 \<Rightarrow> u16" where
  "config_word cfg bus dv fn offset =
     ucast (drop_bit (unat ((offset AND 2) * 8)) (cfg (config_address bus dv fn offset)) AND 0xFFFF)"

definition pci_header :: "(u32 \<Rightarrow> u32) \<Rightarrow> u8 \<Rightarrow> u8 \<Rightarrow> u8 \<Rightarrow> pci_t" where
  "pci_header cfg bus dv fn = pci_of_words (map (\<lambda>i. config_word cfg bus dv fn (of_nat (i * 2))) [0..<32])"

definition present :: "(u32 \<Rightarrow> u32) \<Rightarrow> u8 \<Rightarrow> u8 \<Rightarrow> u8 \<Rightarrow> bool" where
  "present cfg bus dv fn \<longleftrightarrow> vendorID (pci_header cfg bus dv fn) \<noteq> 0xFFFF"

type_synonym loc = "u8 \<times> u8 \<times> u8"

definition dev_locs :: "(u32 \<Rightarrow> u32) \<Rightarrow> u8 \<Rightarrow> u8 \<Rightarrow> loc list" where
  "dev_locs cfg bus dv =
     (if present cfg bus dv 0
      then (bus, dv, 0) # [(bus, dv, fn). fn \<leftarrow> map of_nat [1..<8], present cfg bus dv fn] else [])"

definition all_locs :: "(u32 \<Rightarrow> u32) \<Rightarrow> loc list" where
  "all_locs cfg = concat (map (\<lambda>bus. concat (map (\<lambda>dv. dev_locs cfg (of_nat bus) (of_nat dv)) [0..<32])) [0..<256])"

fun entry_at_loc :: "(u32 \<Rightarrow> u32) \<Rightarrow> loc \<Rightarrow> pci_device_entry_t" where
  "entry_at_loc cfg (bus, dv, fn) =
     \<lparr>dev_used = True, dev_header = pci_header cfg bus dv fn, dev_bus = bus, dev_device = dv, dev_function = fn, driver_data = 0\<rparr>"

text \<open>The drivers for a function, and the mark that a driver leaves when it is called.\<close>

fun drivers_for :: "(u32 \<Rightarrow> u32) \<Rightarrow> pci_driver_t list \<Rightarrow> loc \<Rightarrow> pci_driver_t list" where
  "drivers_for cfg ds (bus, dv, fn) =
     filter (\<lambda>d. drv_used d \<and> drv_class d = pci_class (pci_header cfg bus dv fn) \<and> drv_subclass d = pci_subclass (pci_header cfg bus dv fn)) ds"

fun call_mark :: "u64 \<Rightarrow> loc \<Rightarrow> io" where
  "call_mark a (bus, dv, fn) = Wr64 a (push_bit 16 (ucast bus) OR push_bit 8 (ucast dv) OR ucast fn)"

definition marks :: "io list \<Rightarrow> io list" where
  "marks tr = filter (\<lambda>e. case e of Wr64 _ _ \<Rightarrow> True | _ \<Rightarrow> False) tr"

definition marking :: "'a machine_scheme driver_call \<Rightarrow> bool" where
  "marking call \<longleftrightarrow>
     (\<forall>a p bus dv fn r s. fst (call a p bus dv fn (r, s)) = r \<and>
        trace (snd (call a p bus dv fn (r, s))) = trace s @ [call_mark a (bus, dv, fn)])"

definition scanned :: "(u32 \<Rightarrow> u32) \<Rightarrow> pci_driver_t list \<Rightarrow> io list \<Rightarrow> pci_registry \<times> 'a machine_scheme \<Rightarrow> loc list \<Rightarrow> bool" where
  "scanned cfg ds tr rs locs \<longleftrightarrow>
     length (pci_devices (fst rs)) = MAX_PCI_DEVICES \<and> pci_drivers (fst rs) = ds \<and> length ds = MAX_PCI_DRIVERS \<and>
     pci_device_count (fst rs) = min MAX_PCI_DEVICES (length locs) \<and>
     take (pci_device_count (fst rs)) (pci_devices (fst rs)) = map (entry_at_loc cfg) (take MAX_PCI_DEVICES locs) \<and>
     marks (trace (snd rs)) = tr @ concat (map (\<lambda>l. map (\<lambda>d. call_mark (pcidrv d) l) (drivers_for cfg ds l)) locs)"

lemma load_words_eq:
  assumes "config_device dev cfg"
  shows "fst (load_words dev bus dv fn is s) = map (\<lambda>i. config_word cfg bus dv fn (of_nat (i * 2))) is \<and>
    marks (trace (snd (load_words dev bus dv fn is s))) = marks (trace s)"
proof (induction "is" arbitrary: s)
  case (Cons i "is")
  let ?s = "snd (pci_read_config16 dev bus dv fn (of_nat (i * 2)) s)"
  have "fst (pci_read_config16 dev bus dv fn (of_nat (i * 2)) s) = config_word cfg bus dv fn (of_nat (i * 2))"
    "marks (trace ?s) = marks (trace s)"
    using assms by (simp_all add: pci_read_config16_def config_word_def config_device_def Let_def io_in_def io_out_def marks_def)
  with Cons.IH[of ?s] show ?case by (simp add: Let_def case_prod_beta)
qed simp

lemma pci_load_eq:
  assumes "config_device dev cfg" and "pci_load dev bus dv fn s = (pci, s')"
  shows "pci = pci_header cfg bus dv fn" "marks (trace s') = marks (trace s)"
  using load_words_eq[OF assms(1), of bus dv fn "[0..<32]" s] assms(2)
  by (auto simp: pci_load_def pci_header_def Let_def case_prod_beta)

abbreviation "matches pci d \<equiv> drv_used d \<and> drv_class d = pci_class pci \<and> drv_subclass d = pci_subclass pci"

lemma launch_calls:
  assumes "marking call" and "pci_drivers r = ds" and "k \<le> length ds"
  shows "\<exists>s'. fold (launch_step call pci bus dv fn) [0..<k] (r, s) = (r, s') \<and>
    trace s' = trace s @ map (\<lambda>d. call_mark (pcidrv d) (bus, dv, fn)) (filter (matches pci) (take k ds))"
  using assms(3)
proof (induction k)
  case (Suc k)
  then have t: "take (Suc k) ds = take k ds @ [ds ! k]" by (simp add: take_Suc_conv_app_nth)
  obtain s1 where s1: "fold (launch_step call pci bus dv fn) [0..<k] (r, s) = (r, s1)"
    and tr: "trace s1 = trace s @ map (\<lambda>d. call_mark (pcidrv d) (bus, dv, fn)) (filter (matches pci) (take k ds))"
    using Suc by auto
  obtain s2 where s2: "call (pcidrv (ds ! k)) pci bus dv fn (r, s1) = (r, s2)" "trace s2 = trace s1 @ [call_mark (pcidrv (ds ! k)) (bus, dv, fn)]"
    using assms(1) unfolding marking_def by (metis prod.collapse)
  have "fold (launch_step call pci bus dv fn) [0..<Suc k] (r, s) = launch_step call pci bus dv fn k (r, s1)"
    by (simp add: s1)
  also have "\<dots> = (r, if matches pci (ds ! k) then s2 else s1)"
    using s2(1) assms(2) by (auto simp: launch_step_def Let_def)
  finally show ?case using s2(2) tr by (simp add: t)
qed simp

lemma marks_append [simp]: "marks (xs @ ys) = marks xs @ marks ys"
  by (simp add: marks_def)

lemma marks_calls [simp]: "marks (map (\<lambda>d. call_mark (f d) l) ds) = map (\<lambda>d. call_mark (f d) l) ds"
  by (cases l) (induction ds, simp_all add: marks_def)

lemma scan_function_scanned:
  assumes dev: "config_device dev cfg" and m: "marking call" and sc: "scanned cfg ds tr rs locs"
    and r: "scan_function dev call bus dv fn rs = (b, rs')"
  shows "b = present cfg bus dv fn" "scanned cfg ds tr rs' (locs @ (if present cfg bus dv fn then [(bus, dv, fn)] else []))"
proof -
  obtain r0 s0 where rs: "rs = (r0, s0)" by (cases rs)
  obtain pci s1 where l: "pci_load dev bus dv fn s0 = (pci, s1)" by fastforce
  note p = pci_load_eq[OF dev l]
  show b: "b = present cfg bus dv fn"
    using r by (auto simp: scan_function_def rs l p(1) present_def split: if_splits)
  show "scanned cfg ds tr rs' (locs @ (if present cfg bus dv fn then [(bus, dv, fn)] else []))"
  proof (cases "present cfg bus dv fn")
    case False
    then have "rs' = (r0, s1)" using r by (simp add: scan_function_def rs l p(1) present_def)
    then show ?thesis using sc p(2) False by (auto simp: scanned_def rs)
  next
    case True
    let ?e = "entry_at_loc cfg (bus, dv, fn)" and ?n = "pci_device_count r0"
    define r1 where "r1 = (if ?n < 32 then r0\<lparr>pci_devices := (pci_devices r0)[?n := ?e], pci_device_count := ?n + 1\<rparr> else r0)"
    have h: "length (pci_devices r0) = 32" "pci_drivers r0 = ds" "length ds = 256" "?n = min 32 (length locs)"
      "take ?n (pci_devices r0) = map (entry_at_loc cfg) (take 32 locs)"
      using sc by (auto simp: scanned_def rs)
    have d1: "pci_drivers r1 = ds" "256 \<le> length ds" using h by (simp_all add: r1_def)
    obtain s2 where s2: "fold (launch_step call pci bus dv fn) [0..<256] (r1, s1) = (r1, s2)"
      "trace s2 = trace s1 @ map (\<lambda>d. call_mark (pcidrv d) (bus, dv, fn)) (filter (matches pci) (take 256 ds))"
      using launch_calls[OF m d1] by blast
    have "rs' = fold (launch_step call pci bus dv fn) [0..<256] (r1, s1)"
      using r True by (auto simp: scan_function_def rs l p(1)[symmetric] present_def[unfolded p(1)[symmetric]] pci_launch_def r1_def Let_def)
    then have rs': "rs' = (r1, s2)" using s2(1) by simp
    have "take (pci_device_count r1) (pci_devices r1) = map (entry_at_loc cfg) (take 32 (locs @ [(bus, dv, fn)]))"
    proof (cases "length locs < 32")
      case True
      then show ?thesis using h by (simp add: r1_def take_Suc_conv_app_nth)
    next
      case False
      then show ?thesis using h by (simp add: r1_def)
    qed
    moreover have "pci_device_count r1 = min 32 (length (locs @ [(bus, dv, fn)]))" "length (pci_devices r1) = 32"
      using h by (auto simp: r1_def)
    moreover have "marks (trace s2) = marks (trace s0) @ map (\<lambda>d. call_mark (pcidrv d) (bus, dv, fn)) (drivers_for cfg ds (bus, dv, fn))"
      using p h(3) by (simp add: s2(2) del: call_mark.simps)
    ultimately show ?thesis using sc True d1 h(3) by (auto simp: scanned_def rs rs' simp del: call_mark.simps)
  qed
qed

text \<open>Folding a step that adds to what has been found.\<close>

lemma fold_collects:
  assumes "\<And>x st locs. x \<in> set xs \<Longrightarrow> I st locs \<Longrightarrow> I (f x st) (locs @ E x)" and "I st locs"
  shows "I (fold f xs st) (locs @ concat (map E xs))"
  using assms
proof (induction xs arbitrary: st locs)
  case (Cons x xs)
  from Cons.prems have "I (f x st) (locs @ E x)" by simp
  from Cons.IH[OF _ this] Cons.prems(1) show ?case by simp
qed simp

lemma scan_device_scanned:
  assumes dev: "config_device dev cfg" and m: "marking call" and sc: "scanned cfg ds tr rs locs"
  shows "scanned cfg ds tr (scan_device dev call bus dv rs) (locs @ dev_locs cfg bus dv)"
proof -
  obtain b rs1 where r: "scan_function dev call bus dv 0 rs = (b, rs1)" by (cases "scan_function dev call bus dv 0 rs")
  note one = scan_function_scanned[OF dev m sc r]
  show ?thesis
  proof (cases "present cfg bus dv 0")
    case False
    then show ?thesis using one by (simp add: scan_device_def r dev_locs_def)
  next
    case True
    have step: "scanned cfg ds tr (snd (scan_function dev call bus dv (of_nat fn) st))
        (ls @ (if present cfg bus dv (of_nat fn) then [(bus, dv, of_nat fn)] else []))" if "scanned cfg ds tr st ls" for st ls fn
      using scan_function_scanned(2)[OF dev m that, of bus dv "of_nat fn"] by (metis prod.collapse)
    have "scanned cfg ds tr (fold (\<lambda>fn rs. snd (scan_function dev call bus dv (of_nat fn) rs)) [1..<8] rs1)
        ((locs @ [(bus, dv, 0)]) @ concat (map (\<lambda>fn. if present cfg bus dv (of_nat fn) then [(bus, dv, of_nat fn)] else []) [1..<8]))"
      by (rule fold_collects[where I = "scanned cfg ds tr"]) (use step one True in auto)
    then show ?thesis using one True by (simp add: scan_device_def r dev_locs_def comp_def)
  qed
qed

text \<open>
  C33. The scan at boot: on hardware that presents a configuration space, with drivers that leave the registry alone, \<open>initworkspace\<close>
  records exactly the functions that are present, in the order of bus, device and function and the first 32 of them, a function
  other than 0 counting only if function 0 of its device is there; and for each of them, recorded or not, it calls every registered driver of
  its class and subclass once, in the order of registration.
\<close>

theorem initworkspace_finds:
  assumes "config_device dev cfg" and "marking call" and "length (pci_devices r) = 32" and "pci_device_count r = 0"
    and "length (pci_drivers r) = 256" and "initworkspace dev call (r, s) = (r', s')"
  shows "pci_device_count r' = min 32 (length (all_locs cfg)) \<and>
    take (pci_device_count r') (pci_devices r') = map (entry_at_loc cfg) (take 32 (all_locs cfg)) \<and>
    marks (trace s') =
      marks (trace s) @ concat (map (\<lambda>l. map (\<lambda>d. call_mark (pcidrv d) l) (drivers_for cfg (pci_drivers r) l)) (all_locs cfg))"
proof -
  let ?I = "scanned cfg (pci_drivers r) (marks (trace s))"
  have start: "?I (r, s) []" using assms(3-5) by (simp add: scanned_def)
  have dev: "?I (fold (\<lambda>dv rs. scan_device dev call bus (of_nat dv) rs) [0..<32] st)
      (ls @ concat (map (\<lambda>dv. dev_locs cfg bus (of_nat dv)) [0..<32]))" if "?I st ls" for st ls bus
    by (rule fold_collects[where I = ?I, OF scan_device_scanned[OF assms(1,2)] that])
  have "?I (initworkspace dev call (r, s)) ([] @ all_locs cfg)"
    unfolding initworkspace_def all_locs_def by (rule fold_collects[where I = ?I, OF dev start])
  then show ?thesis using assms(6) by (auto simp: scanned_def)
qed

text \<open>A machine with a storage controller everywhere, and one driver for those.\<close>

definition ex_config :: "u32 \<Rightarrow> u32" where
  "ex_config a = 0x01081234"

definition ex_bus :: device where
  "ex_bus tr e = 0x01081234"

definition ex_registry :: pci_registry where
  "ex_registry = reg 0x7000 1 8
     \<lparr>pci_devices = replicate 32 (entry_at_loc ex_config (0, 0, 0)), pci_device_count = 0,
      pci_drivers = replicate 256 \<lparr>drv_used = False, drv_class = 0, drv_subclass = 0, pcidrv = 0\<rparr>\<rparr>"

definition ex_driver :: "machine driver_call" where
  "ex_driver a p bus dv fn rs = (fst rs, io_out (call_mark a (bus, dv, fn)) (snd rs))"

lemma ex_config_words: "config_word ex_config bus dv fn 0 = 0x1234" "config_word ex_config bus dv fn 10 = 0x0108"
  by (simp_all add: config_word_def ex_config_def)

lemma ex_header:
  "vendorID (pci_header ex_config bus dv fn) = 0x1234" "pci_class (pci_header ex_config bus dv fn) = 1" "pci_subclass (pci_header ex_config bus dv fn) = 8"
  by (simp_all add: pci_header_def pci_of_words_def ex_config_words lo8_def hi8_def)

lemma ex_registry_fields:
  "length (pci_devices ex_registry) = 32" "pci_device_count ex_registry = 0"
  "pci_drivers ex_registry = \<lparr>drv_used = True, drv_class = 1, drv_subclass = 8, pcidrv = 0x7000\<rparr> #
     replicate 255 \<lparr>drv_used = False, drv_class = 0, drv_subclass = 0, pcidrv = 0\<rparr>"
proof -
  have f: "List.find (\<lambda>i. \<not> drv_used (replicate 256 \<lparr>drv_used = False, drv_class = 0, drv_subclass = 0, pcidrv = 0\<rparr> ! i)) [0..<256] = Some 0"
    by (simp add: upt_conv_Cons)
  have r: "replicate 256 x = x # replicate 255 x" for x :: pci_driver_t using replicate_Suc[of 255 x] by simp
  show "length (pci_devices ex_registry) = 32" "pci_device_count ex_registry = 0"
    "pci_drivers ex_registry = \<lparr>drv_used = True, drv_class = 1, drv_subclass = 8, pcidrv = 0x7000\<rparr> #
     replicate 255 \<lparr>drv_used = False, drv_class = 0, drv_subclass = 0, pcidrv = 0\<rparr>"
    by (simp_all add: ex_registry_def reg_def f) (simp only: r list_update_code)
qed

lemma ex_locs: "length (all_locs ex_config) = 65536"
proof -
  have "length (dev_locs ex_config bus dv) = 8" for bus dv
    by (simp add: dev_locs_def present_def ex_header upt_rec)
  then show ?thesis by (simp add: all_locs_def length_concat comp_def sum_list_triv)
qed

theorem initworkspace_finds_witness:
  "\<exists>r' s'. initworkspace ex_bus ex_driver (ex_registry, \<lparr>ram = (\<lambda>_. 0), hhdm = 0, trace = []\<rparr>) = (r', s') \<and> pci_device_count r' = 32 \<and>
     length (marks (trace s')) = 65536"
proof -
  let ?s = "\<lparr>ram = (\<lambda>_. 0), hhdm = 0, trace = []\<rparr> :: machine"
  obtain r' s' where r: "initworkspace ex_bus ex_driver (ex_registry, ?s) = (r', s')" by fastforce
  have dev: "config_device ex_bus ex_config" by (simp add: config_device_def ex_bus_def ex_config_def)
  have m: "marking ex_driver" by (simp add: marking_def ex_driver_def)
  have len: "length (pci_drivers ex_registry) = 256" by (simp add: ex_registry_fields)
  have "length (drivers_for ex_config (pci_drivers ex_registry) l) = 1" for l
    by (cases l) (simp add: ex_registry_fields ex_header)
  then have "length (concat (map (\<lambda>l. map (\<lambda>d. call_mark (pcidrv d) l) (drivers_for ex_config (pci_drivers ex_registry) l)) (all_locs ex_config))) = 65536"
    by (simp add: length_concat comp_def sum_list_triv ex_locs)
  then show ?thesis
    using initworkspace_finds[OF dev m ex_registry_fields(1,2) len r] r ex_locs by (auto simp: marks_def)
qed

end
