(* ===== verification/Ext2Format.thy ===== *)
theory Ext2Format
  imports Pmm Kmem Bytes Spinlock CString
begin

text \<open>
  The interface of a disk (\<^verbatim>\<open>include/disk.h\<close>) and the structures of an ext2 file system on it (\<^verbatim>\<open>include/ext2.h\<close>): records with the fields
  of the source, and how they are read out of memory. The routines behind the function pointers of a disk are a
  parameter: they act on the whole state.
\<close>

section \<open>Disks\<close>

text \<open>The arguments of a transfer are the buffer, the first logical block and the number of blocks.\<close>

record 's disk =
  lba_size :: u64
  disk_size :: u64
  disk_read :: "u64 \<Rightarrow> u64 \<Rightarrow> u64 \<Rightarrow> 's \<Rightarrow> bool \<times> 's"
  disk_write :: "u64 \<Rightarrow> u64 \<Rightarrow> u64 \<Rightarrow> 's \<Rightarrow> bool \<times> 's"

record bytes_to_block_res =
  res_lba :: u64
  size_in_blocks :: u64
  res_offset :: u64

definition ALIGNDOWN :: "u64 \<Rightarrow> u64 \<Rightarrow> u64" where
  "ALIGNDOWN x align = x - x mod align"

definition ALIGNUP :: "u64 \<Rightarrow> u64 \<Rightarrow> u64" where
  "ALIGNUP x align = (if x mod align = 0 then x else x + (align - x mod align))"

text \<open>A block size of zero is a division by zero.\<close>

definition bytes_to_blocks :: "u64 \<Rightarrow> u64 \<Rightarrow> u64 \<Rightarrow> bytes_to_block_res option" where
  "bytes_to_blocks start sz lsz =
     (if lsz = 0 then None
      else Some \<lparr>res_lba = ALIGNDOWN start lsz div lsz,
                 size_in_blocks = (if ALIGNUP sz lsz div lsz = 0 then 1 else ALIGNUP sz lsz div lsz),
                 res_offset = start - ALIGNDOWN start lsz\<rparr>)"

section \<open>Structures on the disk\<close>

record ext2_superblock =
  s_inodes_count :: u32
  s_blocks_count :: u32
  s_r_blocks_count :: u32
  s_free_blocks_count :: u32
  s_free_inodes_count :: u32
  s_first_data_block :: u32
  s_log_block_size :: u32
  s_log_frag_size :: u32
  s_blocks_per_group :: u32
  s_frags_per_group :: u32
  s_inodes_per_group :: u32
  s_mtime :: u32
  s_wtime :: u32
  s_mnt_count :: u16
  s_max_mnt_count :: u16
  s_magic :: u16
  s_state :: u16
  s_errors :: u16
  s_minor_rev_level :: u16
  s_lastcheck :: u32
  s_checkinterval :: u32
  s_creator_os :: u32
  s_revision :: u32
  s_def_resuid :: u16
  s_def_resgid :: u16
  s_first_ino :: u32
  s_inode_size :: u16
  s_block_group_nr :: u16
  s_feature_compat :: u32
  s_feature_incompat :: u32
  s_feature_ro_compat :: u32
  s_uuid :: "u8 list"
  s_volume_name :: "u8 list"
  s_last_mounted :: "u8 list"
  s_algo_bitmap :: u32
  s_prealloc_blocks :: u8
  s_prealloc_dir_blocks :: u8
  s_reserved_gdt_blocks :: u16
  s_journal_uuid :: "u8 list"
  s_journal_inum :: u32
  s_journal_dev :: u32
  s_last_orphan :: u32
  s_hash_seed :: "u32 list"
  s_def_hash_version :: u8
  s_jnl_backup_type :: u8
  s_desc_size :: u16
  s_default_mount_opts :: u32
  s_first_meta_bg :: u32
  s_mkfs_time :: u32
  s_jnl_blocks :: "u32 list"
  s_blocks_count_hi :: u32
  s_r_blocks_count_hi :: u32
  s_free_blocks_count_hi :: u32

definition read_ext2_superblock :: "mem \<Rightarrow> u64 \<Rightarrow> ext2_superblock" where
  "read_ext2_superblock m a =
     \<lparr>s_inodes_count = ld32 m a, s_blocks_count = ld32 m (a + 4), s_r_blocks_count = ld32 m (a + 8),
      s_free_blocks_count = ld32 m (a + 12), s_free_inodes_count = ld32 m (a + 16), s_first_data_block = ld32 m (a + 20),
      s_log_block_size = ld32 m (a + 24), s_log_frag_size = ld32 m (a + 28), s_blocks_per_group = ld32 m (a + 32),
      s_frags_per_group = ld32 m (a + 36), s_inodes_per_group = ld32 m (a + 40), s_mtime = ld32 m (a + 44),
      s_wtime = ld32 m (a + 48), s_mnt_count = ld16 m (a + 52), s_max_mnt_count = ld16 m (a + 54), s_magic = ld16 m (a + 56),
      s_state = ld16 m (a + 58), s_errors = ld16 m (a + 60), s_minor_rev_level = ld16 m (a + 62), s_lastcheck = ld32 m (a + 64),
      s_checkinterval = ld32 m (a + 68), s_creator_os = ld32 m (a + 72), s_revision = ld32 m (a + 76),
      s_def_resuid = ld16 m (a + 80), s_def_resgid = ld16 m (a + 82), s_first_ino = ld32 m (a + 84),
      s_inode_size = ld16 m (a + 88), s_block_group_nr = ld16 m (a + 90), s_feature_compat = ld32 m (a + 92),
      s_feature_incompat = ld32 m (a + 96), s_feature_ro_compat = ld32 m (a + 100),
      s_uuid = map (\<lambda>i. m (a + 104 + of_nat i)) [0..<16],
      s_volume_name = map (\<lambda>i. m (a + 120 + of_nat i)) [0..<16],
      s_last_mounted = map (\<lambda>i. m (a + 136 + of_nat i)) [0..<64], s_algo_bitmap = ld32 m (a + 200),
      s_prealloc_blocks = m (a + 204), s_prealloc_dir_blocks = m (a + 205), s_reserved_gdt_blocks = ld16 m (a + 206),
      s_journal_uuid = map (\<lambda>i. m (a + 208 + of_nat i)) [0..<16], s_journal_inum = ld32 m (a + 224),
      s_journal_dev = ld32 m (a + 228), s_last_orphan = ld32 m (a + 232),
      s_hash_seed = map (\<lambda>i. ld32 m (a + 236 + 4 * of_nat i)) [0..<4], s_def_hash_version = m (a + 252),
      s_jnl_backup_type = m (a + 253), s_desc_size = ld16 m (a + 254), s_default_mount_opts = ld32 m (a + 256),
      s_first_meta_bg = ld32 m (a + 260), s_mkfs_time = ld32 m (a + 264),
      s_jnl_blocks = map (\<lambda>i. ld32 m (a + 268 + 4 * of_nat i)) [0..<17], s_blocks_count_hi = ld32 m (a + 336),
      s_r_blocks_count_hi = ld32 m (a + 340), s_free_blocks_count_hi = ld32 m (a + 344)\<rparr>"

definition bytes_ext2_superblock :: "ext2_superblock \<Rightarrow> u8 list" where
  "bytes_ext2_superblock x =
     le 4 (s_inodes_count x) @ le 4 (s_blocks_count x) @ le 4 (s_r_blocks_count x) @ le 4 (s_free_blocks_count x) @
     le 4 (s_free_inodes_count x) @ le 4 (s_first_data_block x) @ le 4 (s_log_block_size x) @ le 4 (s_log_frag_size x) @
     le 4 (s_blocks_per_group x) @ le 4 (s_frags_per_group x) @ le 4 (s_inodes_per_group x) @ le 4 (s_mtime x) @
     le 4 (s_wtime x) @ le 2 (s_mnt_count x) @ le 2 (s_max_mnt_count x) @ le 2 (s_magic x) @ le 2 (s_state x) @
     le 2 (s_errors x) @ le 2 (s_minor_rev_level x) @ le 4 (s_lastcheck x) @ le 4 (s_checkinterval x) @ le 4 (s_creator_os x) @
     le 4 (s_revision x) @ le 2 (s_def_resuid x) @ le 2 (s_def_resgid x) @ le 4 (s_first_ino x) @ le 2 (s_inode_size x) @
     le 2 (s_block_group_nr x) @ le 4 (s_feature_compat x) @ le 4 (s_feature_incompat x) @ le 4 (s_feature_ro_compat x) @
     s_uuid x @ s_volume_name x @ s_last_mounted x @ le 4 (s_algo_bitmap x) @ [s_prealloc_blocks x] @ [s_prealloc_dir_blocks x] @
     le 2 (s_reserved_gdt_blocks x) @ s_journal_uuid x @ le 4 (s_journal_inum x) @ le 4 (s_journal_dev x) @
     le 4 (s_last_orphan x) @ concat (map (le 4) (s_hash_seed x)) @ [s_def_hash_version x] @ [s_jnl_backup_type x] @
     le 2 (s_desc_size x) @ le 4 (s_default_mount_opts x) @ le 4 (s_first_meta_bg x) @ le 4 (s_mkfs_time x) @
     concat (map (le 4) (s_jnl_blocks x)) @ le 4 (s_blocks_count_hi x) @ le 4 (s_r_blocks_count_hi x) @
     le 4 (s_free_blocks_count_hi x)"

record ext2_group_desc =
  bg_block_bitmap :: u32
  bg_inode_bitmap :: u32
  bg_inode_table :: u32
  bg_free_blocks_count :: u16
  bg_free_inodes_count :: u16
  bg_used_dirs_count :: u16
  bg_pad :: u16
  bg_reserved :: "u32 list"

definition read_ext2_group_desc :: "mem \<Rightarrow> u64 \<Rightarrow> ext2_group_desc" where
  "read_ext2_group_desc m a =
     \<lparr>bg_block_bitmap = ld32 m a, bg_inode_bitmap = ld32 m (a + 4), bg_inode_table = ld32 m (a + 8),
      bg_free_blocks_count = ld16 m (a + 12), bg_free_inodes_count = ld16 m (a + 14), bg_used_dirs_count = ld16 m (a + 16),
      bg_pad = ld16 m (a + 18), bg_reserved = map (\<lambda>i. ld32 m (a + 20 + 4 * of_nat i)) [0..<3]\<rparr>"

record ext2_inode =
  i_mode :: u16
  i_uid :: u16
  i_size :: u32
  i_atime :: u32
  i_ctime :: u32
  i_mtime :: u32
  i_dtime :: u32
  i_gid :: u16
  i_links_count :: u16
  i_blocks :: u32
  i_flags :: u32
  i_osd1 :: u32
  i_block :: "u32 list"
  i_generation :: u32
  i_file_acl :: u32
  i_dir_acl :: u32
  i_faddr :: u32
  i_osd2 :: "u32 list"

definition read_ext2_inode :: "mem \<Rightarrow> u64 \<Rightarrow> ext2_inode" where
  "read_ext2_inode m a =
     \<lparr>i_mode = ld16 m a, i_uid = ld16 m (a + 2), i_size = ld32 m (a + 4), i_atime = ld32 m (a + 8), i_ctime = ld32 m (a + 12),
      i_mtime = ld32 m (a + 16), i_dtime = ld32 m (a + 20), i_gid = ld16 m (a + 24), i_links_count = ld16 m (a + 26),
      i_blocks = ld32 m (a + 28), i_flags = ld32 m (a + 32), i_osd1 = ld32 m (a + 36),
      i_block = map (\<lambda>i. ld32 m (a + 40 + 4 * of_nat i)) [0..<15], i_generation = ld32 m (a + 100),
      i_file_acl = ld32 m (a + 104), i_dir_acl = ld32 m (a + 108), i_faddr = ld32 m (a + 112),
      i_osd2 = map (\<lambda>i. ld32 m (a + 116 + 4 * of_nat i)) [0..<3]\<rparr>"

end
