(* ===== verification/Ext2.thy ===== *)
theory Ext2
  imports Ext2Format "HOL-Library.Monad_Syntax"
begin

text \<open>
  Mounting and reading an ext2 file system (\<^verbatim>\<open>fs/ext2/super.c\<close>, \<^verbatim>\<open>io.c\<close>, \<^verbatim>\<open>inode.c\<close>, \<^verbatim>\<open>ext2.c\<close>). The partition is a record; its group
  descriptors and its transfer buffer lie in memory. The disk is a parameter. \<^const>\<open>None\<close> stands for a step without a defined
  result and for a routine that waits for a lock that its own caller holds. Messages on the console are left out.
\<close>

section \<open>The partition\<close>

record 's ext2_partition =
  fs_disk :: "'s disk"
  sb :: ext2_superblock
  lba_start :: u64
  block_size :: u32
  sectors_per_block :: u32
  group_count :: u32
  inode_size :: u32
  first_ino :: u32
  inodes_per_block :: u32
  itb_per_group :: u32
  desc_per_block :: u32
  gdb_count :: u32
  groups :: u64
  read_only :: bool
  sb_dirty :: bool
  lock :: spinlock
  io_buf :: u64

abbreviation (input) EXT2_MAGIC :: u16 where "EXT2_MAGIC \<equiv> 0xEF53"
abbreviation (input) EXT2_SUPPORTED_INCOMPAT :: u32 where "EXT2_SUPPORTED_INCOMPAT \<equiv> 0x0002"
abbreviation (input) EXT2_SUPPORTED_RO_COMPAT :: u32 where "EXT2_SUPPORTED_RO_COMPAT \<equiv> 0x0003"
abbreviation (input) EXT2_DYNAMIC_REV :: u32 where "EXT2_DYNAMIC_REV \<equiv> 1"
abbreviation (input) EXT2_GOOD_OLD_INODE_SIZE :: u32 where "EXT2_GOOD_OLD_INODE_SIZE \<equiv> 128"
abbreviation (input) EXT2_GOOD_OLD_FIRST_INO :: u32 where "EXT2_GOOD_OLD_FIRST_INO \<equiv> 11"
abbreviation (input) EXT2_ROOT_INO :: u32 where "EXT2_ROOT_INO \<equiv> 2"
abbreviation (input) sizeof_group_desc :: u64 where "sizeof_group_desc \<equiv> 32"

type_synonym 'a fs = "'a pmm_scheme ext2_partition"

section \<open>Blocks\<close>

definition ext2_read_blocks :: "'a fs \<Rightarrow> u32 \<Rightarrow> u64 \<Rightarrow> 'a pmm_scheme \<Rightarrow> (bool \<times> 'a fs \<times> 'a pmm_scheme) option" where
  "ext2_read_blocks fs block buf s =
     (if block \<ge> s_blocks_count (sb fs) then Some (False, fs, s)
      else do {
        r \<leftarrow> bytes_to_blocks (ucast block * ucast (block_size fs)) (ucast (block_size fs)) (lba_size (fs_disk fs));
        let lba = lba_start fs + res_lba r;
        if ucast (block_size fs) \<ge> lba_size (fs_disk fs)
        then let (ok, s) = disk_read (fs_disk fs) buf lba (size_in_blocks r) s in Some (ok, fs, s)
        else do {
          l \<leftarrow> spinlock_aquire (lock fs);
          let (ok, s) = disk_read (fs_disk fs) (io_buf fs) lba 1 s;
          let s = (if ok then s\<lparr>ram := memcpy (ram s) buf (io_buf fs + res_offset r) (ucast (block_size fs))\<rparr> else s);
          Some (ok, fs\<lparr>lock := spinlock_release l\<rparr>, s)
        }
      })"

definition ext2_write_blocks :: "'a fs \<Rightarrow> u32 \<Rightarrow> u64 \<Rightarrow> 'a pmm_scheme \<Rightarrow> (bool \<times> 'a fs \<times> 'a pmm_scheme) option" where
  "ext2_write_blocks fs block buf s =
     (if read_only fs then Some (False, fs, s)
      else if block \<ge> s_blocks_count (sb fs) then Some (False, fs, s)
      else do {
        r \<leftarrow> bytes_to_blocks (ucast block * ucast (block_size fs)) (ucast (block_size fs)) (lba_size (fs_disk fs));
        let lba = lba_start fs + res_lba r;
        if ucast (block_size fs) \<ge> lba_size (fs_disk fs)
        then let (ok, s) = disk_write (fs_disk fs) buf lba (size_in_blocks r) s in Some (ok, fs, s)
        else do {
          l \<leftarrow> spinlock_aquire (lock fs);
          let (ok, s) = disk_read (fs_disk fs) (io_buf fs) lba 1 s;
          let (ok, s) = (if ok
                         then disk_write (fs_disk fs) (io_buf fs) lba 1
                                (s\<lparr>ram := memcpy (ram s) (io_buf fs + res_offset r) buf (ucast (block_size fs))\<rparr>)
                         else (ok, s));
          Some (ok, fs\<lparr>lock := spinlock_release l\<rparr>, s)
        }
      })"

section \<open>Superblock and layout\<close>

definition ext2_validate_sb :: "'s ext2_partition \<Rightarrow> bool" where
  "ext2_validate_sb fs =
     (let b = sb fs in
      if s_log_block_size b > 2 then False
      else
      let bs = push_bit (unat (s_log_block_size b)) 1024 :: u32;
          lba = ucast (lba_size (fs_disk fs)) :: u32
      in if lba = 0 \<or> bs < lba \<or> bs mod lba \<noteq> 0 then False
      else if s_revision b > EXT2_DYNAMIC_REV then False
      else if s_feature_incompat b AND NOT EXT2_SUPPORTED_INCOMPAT \<noteq> 0 then False
      else
      let isize = (if s_revision b \<ge> EXT2_DYNAMIC_REV then ucast (s_inode_size b) else EXT2_GOOD_OLD_INODE_SIZE);
          first = (if s_revision b \<ge> EXT2_DYNAMIC_REV then s_first_ino b else EXT2_GOOD_OLD_FIRST_INO)
      in if s_revision b \<ge> EXT2_DYNAMIC_REV \<and> (isize < EXT2_GOOD_OLD_INODE_SIZE \<or> isize > bs \<or> isize AND (isize - 1) \<noteq> 0) then False
      else if s_revision b \<ge> EXT2_DYNAMIC_REV \<and> first < EXT2_GOOD_OLD_FIRST_INO then False
      else if s_blocks_count b = 0 then False
      else if s_first_data_block b \<ge> s_blocks_count b then False
      else if s_blocks_per_group b = 0 \<or> s_blocks_per_group b > 8 * bs then False
      else if s_inodes_per_group b = 0 \<or> s_inodes_per_group b > 8 * bs then False
      else
      let data_blocks = ucast (s_blocks_count b) - ucast (s_first_data_block b) :: u64;
          grps = (data_blocks + ucast (s_blocks_per_group b) - 1) div ucast (s_blocks_per_group b)
      in if s_inodes_count b = 0 \<or> ucast (s_inodes_count b) > grps * ucast (s_inodes_per_group b) then False
      else if s_inodes_count b < first then False
      else
      let itb = (ucast (s_inodes_per_group b) * ucast isize + ucast bs - 1) div ucast bs :: u64
      in if itb \<ge> ucast (s_blocks_per_group b) then False
      else
      let gdt_blocks = (grps * sizeof_group_desc + ucast bs - 1) div ucast bs
      in if ucast (s_first_data_block b) + 1 + gdt_blocks > ucast (s_blocks_count b) then False
      else True)"

definition ext2_read_superblock :: "'a fs \<Rightarrow> 'a pmm_scheme \<Rightarrow> (bool \<times> 'a fs \<times> 'a pmm_scheme) option" where
  "ext2_read_superblock fs s = do {
     r \<leftarrow> bytes_to_blocks 1024 1024 (lba_size (fs_disk fs));
     let lba = lba_start fs + res_lba r;
     let (ok, s) = disk_read (fs_disk fs) (io_buf fs) lba (size_in_blocks r) s;
     let fs = (if ok then fs\<lparr>sb := read_ext2_superblock (ram s) (io_buf fs + res_offset r)\<rparr> else fs);
     if \<not> ok then Some (False, fs, s)
     else if s_magic (sb fs) \<noteq> EXT2_MAGIC then Some (False, fs, s)
     else Some (True, fs, s)
   }"

definition store_bytes :: "mem \<Rightarrow> u64 \<Rightarrow> u8 list \<Rightarrow> mem" where
  "store_bytes m a bs = (\<lambda>x. if unat (x - a) < length bs then bs ! unat (x - a) else m x)"

definition ext2_write_superblock :: "'a fs \<Rightarrow> 'a pmm_scheme \<Rightarrow> (bool \<times> 'a fs \<times> 'a pmm_scheme) option" where
  "ext2_write_superblock fs s =
     (if read_only fs then Some (False, fs, s)
      else do {
        r \<leftarrow> bytes_to_blocks 1024 1024 (lba_size (fs_disk fs));
        let lba = lba_start fs + res_lba r;
        l \<leftarrow> spinlock_aquire (lock fs);
        let (read_ok, s) = disk_read (fs_disk fs) (io_buf fs) lba (size_in_blocks r) s;
        let (ok, s) = (if read_ok
                       then disk_write (fs_disk fs) (io_buf fs) lba (size_in_blocks r)
                              (s\<lparr>ram := store_bytes (ram s) (io_buf fs + res_offset r) (bytes_ext2_superblock (sb fs))\<rparr>)
                       else (False, s));
        let fs = fs\<lparr>lock := spinlock_release l\<rparr>;
        if \<not> ok then Some (False, fs, s) else Some (True, fs\<lparr>sb_dirty := False\<rparr>, s)
      })"

definition ext2_get_group_desc :: "'s ext2_partition \<Rightarrow> u32 \<Rightarrow> u64" where
  "ext2_get_group_desc fs grp = (if grp < group_count fs then groups fs + sizeof_group_desc * ucast grp else 0)"

definition ext2_compute_layout :: "'s ext2_partition \<Rightarrow> 's ext2_partition" where
  "ext2_compute_layout fs =
     (let b = sb fs;
          bs = push_bit (unat (s_log_block_size b)) 1024 :: u32;
          data_blocks = ucast (s_blocks_count b - s_first_data_block b) :: u64;
          gc = ucast ((data_blocks + ucast (s_blocks_per_group b) - 1) div ucast (s_blocks_per_group b)) :: u32;
          isize = (if s_revision b = 0 then EXT2_GOOD_OLD_INODE_SIZE else ucast (s_inode_size b));
          first = (if s_revision b = 0 then EXT2_GOOD_OLD_FIRST_INO else s_first_ino b);
          ipb = bs div isize;
          dpb = ucast (ucast bs div sizeof_group_desc) :: u32
      in fs\<lparr>block_size := bs,
            sectors_per_block := ucast (ucast bs div lba_size (fs_disk fs)),
            group_count := gc,
            inode_size := isize,
            first_ino := first,
            read_only := (s_feature_ro_compat b AND NOT EXT2_SUPPORTED_RO_COMPAT \<noteq> 0),
            inodes_per_block := ipb,
            itb_per_group := (s_inodes_per_group b + ipb - 1) div ipb,
            desc_per_block := dpb,
            gdb_count := (gc + dpb - 1) div dpb\<rparr>)"

section \<open>Group descriptors\<close>

function load_descs :: "u64 \<Rightarrow> u32 \<Rightarrow> u32 \<Rightarrow> u32 \<Rightarrow> u32 \<Rightarrow> 'a fs \<Rightarrow> 'a pmm_scheme \<Rightarrow> (bool \<times> 'a fs \<times> 'a pmm_scheme) option" where
  "load_descs buf table_bytes table_blocks first_block i fs s =
     (if i < table_blocks
      then case ext2_read_blocks fs (first_block + i) buf s of
             None \<Rightarrow> None
           | Some (ok, fs, s) \<Rightarrow>
               if \<not> ok then Some (False, fs, s)
               else let already = i * block_size fs;
                        chunk = (if table_bytes - already > block_size fs then block_size fs else table_bytes - already)
                    in load_descs buf table_bytes table_blocks first_block (i + 1) fs
                         (s\<lparr>ram := memcpy (ram s) (groups fs + ucast already) buf (ucast chunk)\<rparr>)
      else Some (True, fs, s))"
  by auto
termination
  by (relation "measure (\<lambda>(_, _, n, _, i, _, _). unat n - unat i)") (simp_all add: word_loop_measure)
declare load_descs.simps [simp del]

text \<open>The check of one descriptor, and the loop over all of them.\<close>

definition group_desc_ok :: "mem \<Rightarrow> 's ext2_partition \<Rightarrow> u32 \<Rightarrow> u32 \<Rightarrow> bool" where
  "group_desc_ok m fs itable_blocks g =
     (let gd = read_ext2_group_desc m (groups fs + sizeof_group_desc * ucast g);
          first = s_first_data_block (sb fs) + g * s_blocks_per_group (sb fs);
          lst = first + s_blocks_per_group (sb fs) - 1;
          lst = (if lst \<ge> s_blocks_count (sb fs) then s_blocks_count (sb fs) - 1 else lst)
      in \<not> (bg_block_bitmap gd < first \<or> bg_block_bitmap gd > lst \<or> bg_inode_bitmap gd < first \<or> bg_inode_bitmap gd > lst \<or>
            bg_inode_table gd < first \<or> bg_inode_table gd + itable_blocks - 1 > lst))"

function check_descs :: "mem \<Rightarrow> 's ext2_partition \<Rightarrow> u32 \<Rightarrow> u32 \<Rightarrow> bool" where
  "check_descs m fs itable_blocks g =
     (if g < group_count fs
      then if group_desc_ok m fs itable_blocks g then check_descs m fs itable_blocks (g + 1) else False
      else True)"
  by auto
termination
  by (relation "measure (\<lambda>(_, fs, _, g). unat (group_count fs) - unat g)") (simp_all add: word_loop_measure)
declare check_descs.simps [simp del]

definition ext2_read_group_descs :: "'a fs \<Rightarrow> 'a pmm_scheme \<Rightarrow> (bool \<times> 'a fs \<times> 'a pmm_scheme) option" where
  "ext2_read_group_descs fs s =
     (let table_bytes = ucast (ucast (group_count fs) * sizeof_group_desc) :: u32;
          table_blocks = (table_bytes + block_size fs - 1) div block_size fs;
          first_block = s_first_data_block (sb fs) + 1
      in do {
        (p, s) \<leftarrow> kmalloc (ucast table_bytes) s;
        let fs = fs\<lparr>groups := p\<rparr>;
        if p = 0 then Some (False, fs, s)
        else let (phys, s) = pmm_alloc_page s 4096
        in if phys = 0
           then do {
             s \<leftarrow> kfree (groups fs) s;
             Some (False, fs\<lparr>groups := 0\<rparr>, s)
           }
           else do {
             (ok, fs, s) \<leftarrow> load_descs (hhdm s + phys) table_bytes table_blocks first_block 0 fs s;
             let s = pmm_free s phys 1;
             if \<not> ok
             then do {
               s \<leftarrow> kfree (groups fs) s;
               Some (False, fs\<lparr>groups := 0\<rparr>, s)
             }
             else let itable_blocks = (s_inodes_per_group (sb fs) * inode_size fs + block_size fs - 1) div block_size fs
             in if \<not> check_descs (ram s) fs itable_blocks 0
                then do {
                  s \<leftarrow> kfree (groups fs) s;
                  Some (False, fs\<lparr>groups := 0\<rparr>, s)
                }
                else Some (True, fs, s)
           }
      })"

definition ext2_free_group_descs :: "'a fs \<Rightarrow> 'a pmm_scheme \<Rightarrow> ('a fs \<times> 'a pmm_scheme) option" where
  "ext2_free_group_descs fs s =
     (if groups fs = 0 then Some (fs, s)
      else map_option (\<lambda>s. (fs\<lparr>groups := 0\<rparr>, s)) (kfree (groups fs) s))"

section \<open>Inodes\<close>

text \<open>The pointer \<open>idx\<close> of a block of pointers; \<^const>\<open>None\<close> inside the result is the failure that the code reports.\<close>

definition ext2_read_ptr :: "'a fs \<Rightarrow> u32 \<Rightarrow> u32 \<Rightarrow> 'a pmm_scheme \<Rightarrow> (u32 option \<times> 'a fs \<times> 'a pmm_scheme) option" where
  "ext2_read_ptr fs blk idx s =
     (if blk < s_first_data_block (sb fs) \<or> blk \<ge> s_blocks_count (sb fs) then Some (None, fs, s)
      else do {
        l \<leftarrow> spinlock_aquire (lock fs);
        let fs = fs\<lparr>lock := l\<rparr>;
        (ok, fs, s) \<leftarrow> ext2_read_blocks fs blk (io_buf fs) s;
        let out = (if ok then Some (ld32 (ram s) (io_buf fs + 4 * ucast idx)) else None);
        Some (out, fs\<lparr>lock := spinlock_release (lock fs)\<rparr>, s)
      })"

text \<open>The result is the disk block, 0 for a hole, or the failure.\<close>

definition ext2_bmap :: "'a fs \<Rightarrow> ext2_inode \<Rightarrow> u64 \<Rightarrow> 'a pmm_scheme \<Rightarrow> (u32 option \<times> 'a fs \<times> 'a pmm_scheme) option" where
  "ext2_bmap fs ino fb s =
     (let ppb = ucast (block_size fs div 4) :: u64
      in if fb < 12 then Some (Some (i_block ino ! unat fb), fs, s)
      else let fb = fb - 12
      in if fb < ppb
         then (let p = i_block ino ! 12
               in if p = 0 then Some (Some 0, fs, s)
                  else ext2_read_ptr fs p (ucast fb) s)
      else let fb = fb - ppb
      in if fb < ppb * ppb
         then (let p = i_block ino ! 13
               in if p = 0 then Some (Some 0, fs, s)
                  else do {
                    (r, fs, s) \<leftarrow> ext2_read_ptr fs p (ucast (fb div ppb)) s;
                    case r of None \<Rightarrow> Some (None, fs, s)
                    | Some p \<Rightarrow>
                      if p = 0 then Some (Some 0, fs, s)
                      else ext2_read_ptr fs p (ucast (fb mod ppb)) s
                  })
      else let fb = fb - ppb * ppb
      in if fb < ppb * ppb * ppb
         then (let p = i_block ino ! 14
               in if p = 0 then Some (Some 0, fs, s)
                  else do {
                    (r, fs, s) \<leftarrow> ext2_read_ptr fs p (ucast (fb div (ppb * ppb))) s;
                    case r of None \<Rightarrow> Some (None, fs, s)
                    | Some p \<Rightarrow>
                      if p = 0 then Some (Some 0, fs, s)
                      else let rem = fb mod (ppb * ppb)
                      in do {
                        (r, fs, s) \<leftarrow> ext2_read_ptr fs p (ucast (rem div ppb)) s;
                        case r of None \<Rightarrow> Some (None, fs, s)
                        | Some p \<Rightarrow>
                          if p = 0 then Some (Some 0, fs, s)
                          else ext2_read_ptr fs p (ucast (rem mod ppb)) s
                      }
                  })
      else Some (None, fs, s))"

text \<open>The inode of which the first \<open>n\<close> bytes lie at \<open>a\<close> and the rest is zero.\<close>

definition copy_inode :: "mem \<Rightarrow> u64 \<Rightarrow> nat \<Rightarrow> ext2_inode" where
  "copy_inode m a n = read_ext2_inode (\<lambda>x. if unat (x - a) < n then m x else 0) a"

definition ext2_read_inode :: "'a fs \<Rightarrow> u32 \<Rightarrow> 'a pmm_scheme \<Rightarrow> (ext2_inode option \<times> 'a fs \<times> 'a pmm_scheme) option" where
  "ext2_read_inode fs ino s =
     (if ino = 0 \<or> ino > s_inodes_count (sb fs) then Some (None, fs, s)
      else if s_inodes_per_group (sb fs) = 0 \<or> block_size fs = 0 then None
      else
      let grp = ucast ((ino - 1) div s_inodes_per_group (sb fs)) :: u64;
          index = ucast ((ino - 1) mod s_inodes_per_group (sb fs)) :: u64;
          gd = ext2_get_group_desc fs (ucast grp)
      in if gd = 0 then Some (None, fs, s)
      else
      let byte = index * ucast (inode_size fs);
          block = ucast (bg_inode_table (read_ext2_group_desc (ram s) gd)) + byte div ucast (block_size fs);
          off = ucast (byte mod ucast (block_size fs)) :: u32
      in if block \<ge> ucast (s_blocks_count (sb fs)) then Some (None, fs, s)
      else
      let n = (if inode_size fs < 128 then unat (inode_size fs) else 128)
      in do {
        l \<leftarrow> spinlock_aquire (lock fs);
        let fs = fs\<lparr>lock := l\<rparr>;
        (ok, fs, s) \<leftarrow> ext2_read_blocks fs (ucast block) (io_buf fs) s;
        let out = (if ok then Some (copy_inode (ram s) (io_buf fs + ucast off) n) else None);
        Some (out, fs\<lparr>lock := spinlock_release (lock fs)\<rparr>, s)
      })"

section \<open>Mounting\<close>

definition ext2_check_root :: "'a fs \<Rightarrow> 'a pmm_scheme \<Rightarrow> (bool \<times> 'a fs \<times> 'a pmm_scheme) option" where
  "ext2_check_root fs s = do {
     (root, fs, s) \<leftarrow> ext2_read_inode fs EXT2_ROOT_INO s;
     case root of
       None \<Rightarrow> Some (False, fs, s)
     | Some root \<Rightarrow>
         if i_mode root AND 0xF000 \<noteq> 0x4000 \<or> i_size root = 0 \<or> i_links_count root = 0 then Some (False, fs, s)
         else do {
           (_, fs, s) \<leftarrow> ext2_bmap fs root 0 s;
           (_, fs, s) \<leftarrow> ext2_bmap fs root 1 s;
           (_, fs, s) \<leftarrow> ext2_bmap fs root 2 s;
           Some (True, fs, s)
         }
   }"

text \<open>What \<open>ext2_setup_super\<close> reports about the state of the file system.\<close>

datatype ext2_state = Clean | Not_cleanly_unmounted | Recorded_errors

definition ext2_setup_super :: "'s ext2_partition \<Rightarrow> ext2_state" where
  "ext2_setup_super fs =
     (let state = s_state (sb fs)
      in if state AND 1 = 0 then Not_cleanly_unmounted else if state AND 2 \<noteq> 0 then Recorded_errors else Clean)"

definition ext2_fill_super :: "'a fs \<Rightarrow> 'a pmm_scheme \<Rightarrow> (bool \<times> 'a fs \<times> 'a pmm_scheme) option" where
  "ext2_fill_super fs s = do {
     (ok, fs, s) \<leftarrow> ext2_read_superblock fs s;
     if \<not> ok then Some (False, fs, s)
     else if \<not> ext2_validate_sb fs then Some (False, fs, s)
     else do {
       let fs = ext2_compute_layout fs;
       (ok, fs, s) \<leftarrow> ext2_read_group_descs fs s;
       if \<not> ok then Some (False, fs, s)
       else do {
         (ok, fs, s) \<leftarrow> ext2_check_root fs s;
         if \<not> ok
         then do {
           (fs, s) \<leftarrow> ext2_free_group_descs fs s;
           Some (False, fs, s)
         }
         else Some (True, fs, s)
       }
     }
   }"

text \<open>The kernel's mounted partitions, by their addresses.\<close>

record mounts =
  ext2_partitions :: "u64 list"
  root_fs :: u64

definition zero_partition :: "'s disk \<Rightarrow> u64 \<Rightarrow> 's ext2_partition" where
  "zero_partition target_disk start =
     \<lparr>fs_disk = target_disk, sb = read_ext2_superblock (\<lambda>_. 0) 0, lba_start = start, block_size = 0, sectors_per_block = 0, group_count = 0,
      inode_size = 0, first_ino = 0, inodes_per_block = 0, itb_per_group = 0, desc_per_block = 0, gdb_count = 0, groups = 0, read_only = False,
      sb_dirty = False, lock = False, io_buf = 0\<rparr>"

definition ext2_init ::
  "u64 \<Rightarrow> 'a pmm_scheme disk \<Rightarrow> u64 \<Rightarrow> mounts \<times> 'a pmm_scheme \<Rightarrow> (bool \<times> 'a fs \<times> mounts \<times> 'a pmm_scheme) option" where
  "ext2_init fs_ptr target_disk start ms =
     (case ms of (k, s) \<Rightarrow>
        let fs = zero_partition target_disk start
        in if length (ext2_partitions k) \<ge> 8 then Some (False, fs, k, s)
           else let (phys, s) = pmm_alloc_page s 4096
           in if phys = 0 then Some (False, fs, k, s)
              else do {
                let fs = fs\<lparr>io_buf := hhdm s + phys\<rparr>;
                (ok, fs, s) \<leftarrow> ext2_fill_super fs s;
                if \<not> ok then Some (False, fs, k, pmm_free s phys 1)
                else let k = k\<lparr>ext2_partitions := ext2_partitions k @ [fs_ptr],
                               root_fs := (if root_fs k = 0 then fs_ptr else root_fs k)\<rparr>
                     in Some (True, fs, k, s)
              })"

end
