(* ===== verification/Ext2Layout.thy ===== *)
theory Ext2Layout
  imports Ext2
begin

text \<open>
  What the checks of \<open>ext2_validate_sb\<close> are good for: the layout that \<open>ext2_compute_layout\<close> derives from an accepted superblock
  involves no division by zero and no wrap-around, every inode number has its place inside the table of its group, and the routines that
  read blocks come back.
\<close>

section \<open>Powers of two\<close>

lemma pow2_nat:
  assumes "0 < n" and "n AND (n - 1) = (0 :: nat)"
  shows "\<exists>j. n = 2 ^ j"
  using assms
proof (induction n rule: less_induct)
  case (less n)
  show ?case
  proof (cases "even n")
    case True
    then obtain m where m: "n = 2 * m" by (auto elim: evenE)
    have "n - 1 = 2 * (m - 1) + 1" using m less.prems(1) by simp
    then have "2 * (m AND (m - 1)) = 0"
      using less.prems(2) m and_nat_rec[of n "n - 1"] by (simp add: mult.commute)
    then obtain j where "m = 2 ^ j" using less.IH[of m] m less.prems(1) by auto
    then show ?thesis using m by (intro exI[of _ "Suc j"]) simp
  next
    case False
    then obtain m where m: "n = 2 * m + 1" by (auto elim: oddE)
    have "n AND (n - 1) = 2 * m" using and_nat_rec[of n "n - 1"] by (simp add: m)
    then have "n = 2 ^ 0" using less.prems(2) m by simp
    then show ?thesis by blast
  qed
qed

lemma pow2_word:
  assumes "x \<noteq> 0" and "x AND (x - 1) = (0 :: u32)"
  shows "\<exists>j. unat x = 2 ^ j"
proof (rule pow2_nat)
  show "0 < unat x" using assms(1) by (simp add: unat_gt_0)
  have "unat (x AND (x - 1)) = 0" using assms(2) by simp
  then show "unat x AND (unat x - 1) = 0" using assms(1) by (simp add: unsigned_and_eq unat_minus_one)
qed

lemma pow2_dvd: "2 ^ i \<le> (2 :: nat) ^ j \<Longrightarrow> (2 :: nat) ^ i dvd 2 ^ j"
  by (simp add: le_imp_power_dvd)

section \<open>The layout\<close>

text \<open>A partition whose superblock has been accepted, with its layout computed; and with its lock free.\<close>

definition laid_out :: "'s ext2_partition \<Rightarrow> bool" where
  "laid_out fs \<longleftrightarrow> ext2_validate_sb fs \<and> lba_size (fs_disk fs) < 2 ^ 32 \<and> ext2_compute_layout fs = fs"

definition mounted :: "'s ext2_partition \<Rightarrow> bool" where
  "mounted fs \<longleftrightarrow> laid_out fs \<and> \<not> lock fs"

abbreviation "bs fs \<equiv> unat (block_size fs)"
abbreviation "lbs fs \<equiv> unat (lba_size (fs_disk fs))"
abbreviation "isz fs \<equiv> unat (inode_size fs)"
abbreviation "ipg fs \<equiv> unat (s_inodes_per_group (sb fs))"
abbreviation "bpg fs \<equiv> unat (s_blocks_per_group (sb fs))"

lemma layout_fields:
  assumes "ext2_compute_layout fs = fs"
  shows "block_size fs = push_bit (unat (s_log_block_size (sb fs))) 1024"
    "inode_size fs = (if s_revision (sb fs) = 0 then 128 else ucast (s_inode_size (sb fs)))"
    "group_count fs = ucast ((ucast (s_blocks_count (sb fs) - s_first_data_block (sb fs)) + ucast (s_blocks_per_group (sb fs)) - 1) div
       ucast (s_blocks_per_group (sb fs)) :: u64)"
    "inodes_per_block fs = block_size fs div inode_size fs"
    "itb_per_group fs = (s_inodes_per_group (sb fs) + inodes_per_block fs - 1) div inodes_per_block fs"
    "first_ino fs = (if s_revision (sb fs) = 0 then 11 else s_first_ino (sb fs))"
proof -
  note f = ext2_compute_layout_def[of fs, unfolded assms Let_def]
  show "block_size fs = push_bit (unat (s_log_block_size (sb fs))) 1024" by (subst f) simp
  show isz: "inode_size fs = (if s_revision (sb fs) = 0 then 128 else ucast (s_inode_size (sb fs)))" by (subst f) simp
  show "group_count fs = ucast ((ucast (s_blocks_count (sb fs) - s_first_data_block (sb fs)) + ucast (s_blocks_per_group (sb fs)) - 1) div
       ucast (s_blocks_per_group (sb fs)) :: u64)" by (subst f) simp
  show "first_ino fs = (if s_revision (sb fs) = 0 then 11 else s_first_ino (sb fs))" by (subst f) simp
  show "inodes_per_block fs = block_size fs div inode_size fs" "itb_per_group fs = (s_inodes_per_group (sb fs) + inodes_per_block fs - 1) div inodes_per_block fs"
    using arg_cong[OF f, of inodes_per_block] arg_cong[OF f, of itb_per_group] arg_cong[OF f, of block_size] isz by simp_all
qed

text \<open>The conditions of the validation, for a partition with its layout computed.\<close>

lemma validated_words:
  assumes "ext2_validate_sb fs" and "ext2_compute_layout fs = fs"
  shows "s_log_block_size (sb fs) \<le> 2" "ucast (lba_size (fs_disk fs)) \<noteq> (0 :: u32)" "(ucast (lba_size (fs_disk fs)) :: u32) \<le> block_size fs"
    "block_size fs mod ucast (lba_size (fs_disk fs)) = 0" "128 \<le> inode_size fs" "inode_size fs \<le> block_size fs"
    "inode_size fs AND (inode_size fs - 1) = 0" "s_first_data_block (sb fs) < s_blocks_count (sb fs)"
    "s_blocks_per_group (sb fs) \<noteq> 0" "s_blocks_per_group (sb fs) \<le> 8 * block_size fs"
    "s_inodes_per_group (sb fs) \<noteq> 0" "s_inodes_per_group (sb fs) \<le> 8 * block_size fs"
    "ucast (s_inodes_count (sb fs)) \<le> (ucast (s_blocks_count (sb fs)) - ucast (s_first_data_block (sb fs)) + ucast (s_blocks_per_group (sb fs)) - 1) div
       ucast (s_blocks_per_group (sb fs)) * (ucast (s_inodes_per_group (sb fs)) :: u64)"
    "(ucast (s_inodes_per_group (sb fs)) * ucast (inode_size fs) + ucast (block_size fs) - 1) div ucast (block_size fs) <
       (ucast (s_blocks_per_group (sb fs)) :: u64)"
proof -
  note f = layout_fields[OF assms(2)]
  have b: "push_bit (unat (s_log_block_size (sb fs))) 1024 = block_size fs" by (simp only: f)
  have r: "s_revision (sb fs) \<le> 1" using assms(1) by (auto simp: ext2_validate_sb_def Let_def split: if_splits)
  have r1: "1 \<le> s_revision (sb fs) \<longleftrightarrow> s_revision (sb fs) \<noteq> 0" by (simp add: word_le_nat_alt word_unat_eq_iff) linarith
  have i: "(if 1 \<le> s_revision (sb fs) then ucast (s_inode_size (sb fs)) else 128) = inode_size fs"
    unfolding r1 f(2) by simp
  note v = assms(1)[unfolded ext2_validate_sb_def Let_def b i]
  show 1: "s_log_block_size (sb fs) \<le> 2" using v by (auto split: if_splits)
  have log: "unat (s_log_block_size (sb fs)) \<le> 2" using 1 by (simp add: word_le_nat_alt)
  have bs128: "128 \<le> block_size fs"
  proof -
    consider "unat (s_log_block_size (sb fs)) = 0" | "unat (s_log_block_size (sb fs)) = 1" | "unat (s_log_block_size (sb fs)) = 2" using log by linarith
    then show ?thesis by cases (simp_all add: b[symmetric])
  qed
  show "ucast (lba_size (fs_disk fs)) \<noteq> (0 :: u32)" "(ucast (lba_size (fs_disk fs)) :: u32) \<le> block_size fs"
    "block_size fs mod ucast (lba_size (fs_disk fs)) = 0" using v by (auto split: if_splits)
  show "128 \<le> inode_size fs" "inode_size fs \<le> block_size fs" "inode_size fs AND (inode_size fs - 1) = 0"
    using v bs128 f(2) r1 by (auto split: if_splits)
  show "s_first_data_block (sb fs) < s_blocks_count (sb fs)"
    "s_blocks_per_group (sb fs) \<noteq> 0" "s_blocks_per_group (sb fs) \<le> 8 * block_size fs"
    "s_inodes_per_group (sb fs) \<noteq> 0" "s_inodes_per_group (sb fs) \<le> 8 * block_size fs"
    "ucast (s_inodes_count (sb fs)) \<le> (ucast (s_blocks_count (sb fs)) - ucast (s_first_data_block (sb fs)) + ucast (s_blocks_per_group (sb fs)) - 1) div
       ucast (s_blocks_per_group (sb fs)) * (ucast (s_inodes_per_group (sb fs)) :: u64)"
    "(ucast (s_inodes_per_group (sb fs)) * ucast (inode_size fs) + ucast (block_size fs) - 1) div ucast (block_size fs) <
       (ucast (s_blocks_per_group (sb fs)) :: u64)"
    using v by (auto split: if_splits)
qed

text \<open>The same as numbers.\<close>

definition data_blocks_of :: "'s ext2_partition \<Rightarrow> nat" where
  "data_blocks_of fs = unat (s_blocks_count (sb fs)) - unat (s_first_data_block (sb fs))"

definition groups_of :: "'s ext2_partition \<Rightarrow> nat" where
  "groups_of fs = (data_blocks_of fs + bpg fs - 1) div bpg fs"

definition itable_of :: "'s ext2_partition \<Rightarrow> nat" where
  "itable_of fs = (ipg fs * isz fs + bs fs - 1) div bs fs"

lemma u32_le: "unat (x :: u32) < 2 ^ 32"
proof -
  have "unat x < 2 ^ LENGTH(32)" by (rule unsigned_less)
  then show ?thesis by simp
qed

lemma ceil_div_le: "0 < b \<Longrightarrow> (a + b - 1) div b \<le> (a :: nat)"
proof (cases "a = 0")
  case False
  assume b: "0 < b"
  have "a + b - 1 \<le> a * b"
    using False b by (cases a; cases b) (auto simp: algebra_simps)
  then have "(a + b - 1) div b \<le> a * b div b" by (rule div_le_mono)
  then show ?thesis using b by simp
qed auto

lemma layout_numbers:
  assumes "laid_out fs"
  shows "bs fs \<in> {1024, 2048, 4096}" "0 < lbs fs" "lbs fs \<le> bs fs" "lbs fs dvd bs fs" "128 \<le> isz fs" "isz fs \<le> bs fs" "isz fs dvd bs fs"
    "0 < bpg fs" "bpg fs \<le> 8 * bs fs" "0 < ipg fs" "ipg fs \<le> 8 * bs fs" "unat (group_count fs) = groups_of fs"
    "unat (s_inodes_count (sb fs)) \<le> groups_of fs * ipg fs" "itable_of fs < bpg fs" "0 < itable_of fs"
    "unat (s_first_data_block (sb fs)) < unat (s_blocks_count (sb fs))"
proof -
  have v: "ext2_validate_sb fs" and lay: "ext2_compute_layout fs = fs" and small: "lba_size (fs_disk fs) < 2 ^ 32"
    using assms by (simp_all add: laid_out_def)
  note f = layout_fields[OF lay] and w = validated_words[OF v lay]
  have log: "unat (s_log_block_size (sb fs)) \<le> 2" using w(1) by (simp add: word_le_nat_alt)
  show bs: "bs fs \<in> {1024, 2048, 4096}"
  proof -
    consider "unat (s_log_block_size (sb fs)) = 0" | "unat (s_log_block_size (sb fs)) = 1" | "unat (s_log_block_size (sb fs)) = 2" using log by linarith
    then show ?thesis by cases (simp_all add: f(1))
  qed
  then have bs4: "bs fs \<le> 4096" "0 < bs fs" by auto
  have bpow: "\<exists>j. bs fs = 2 ^ j" using bs by (auto intro: exI[of _ 10] exI[of _ 11] exI[of _ 12])
  have lsmall: "lbs fs < 2 ^ 32" using small by (simp add: word_less_nat_alt)
  have l32: "unat (ucast (lba_size (fs_disk fs)) :: u32) = lbs fs"
    using lsmall by (simp add: unsigned_ucast_eq take_bit_nat_eq_self)
  show l0: "0 < lbs fs" using w(2) l32 by (simp add: word_unat_eq_iff)
  show "lbs fs \<le> bs fs" using w(3) l32 by (simp add: word_le_nat_alt)
  show "lbs fs dvd bs fs" using arg_cong[OF w(4), of unat] l32 by (simp add: unat_mod dvd_eq_mod_eq_0)
  show i: "128 \<le> isz fs" "isz fs \<le> bs fs" using w(5,6) by (simp_all add: word_le_nat_alt)
  have "inode_size fs \<noteq> 0" using i(1) by (auto simp: word_unat_eq_iff)
  then obtain j where "isz fs = 2 ^ j" using pow2_word[OF _ w(7)] by blast
  then show "isz fs dvd bs fs" using bpow i(2) pow2_dvd by metis
  show b: "0 < bpg fs" using w(9) by (simp add: unat_gt_0)
  have e8: "unat (8 * block_size fs) = 8 * bs fs"
    using bs by (auto simp: unat_word_ariths)
  show "bpg fs \<le> 8 * bs fs" using w(10) e8 by (simp add: word_le_nat_alt)
  show p: "0 < ipg fs" using w(11) by (simp add: unat_gt_0)
  show p8: "ipg fs \<le> 8 * bs fs" using w(12) e8 by (simp add: word_le_nat_alt)
  show d: "unat (s_first_data_block (sb fs)) < unat (s_blocks_count (sb fs))" using w(8) by (simp add: word_less_nat_alt)
  have du: "unat (s_blocks_count (sb fs) - s_first_data_block (sb fs)) = data_blocks_of fs"
    using d by (simp add: data_blocks_of_def unat_sub_if' word_le_nat_alt)
  have "data_blocks_of fs \<le> unat (s_blocks_count (sb fs))" by (simp add: data_blocks_of_def)
  then have "data_blocks_of fs < 2 ^ 32" using u32_le by (rule le_less_trans)
  moreover have "bpg fs < 2 ^ 32" by (rule u32_le)
  moreover have "0 < data_blocks_of fs" using d by (simp add: data_blocks_of_def)
  ultimately have dl: "data_blocks_of fs < 2 ^ 32" "0 < data_blocks_of fs" "bpg fs < 2 ^ 32" by blast+
  have gw: "unat ((x + ucast (s_blocks_per_group (sb fs)) - 1) div ucast (s_blocks_per_group (sb fs)) :: u64) = groups_of fs"
    if "unat x = data_blocks_of fs" for x
  proof -
    have "unat (x + ucast (s_blocks_per_group (sb fs)) :: u64) = data_blocks_of fs + bpg fs"
      using that dl by (subst unat_add_nowrap) (simp_all add: unat_ucast_up)
    then have "unat (x + ucast (s_blocks_per_group (sb fs)) - 1 :: u64) = data_blocks_of fs + bpg fs - 1"
      using b by (simp add: unat_sub_if' word_le_nat_alt)
    then show ?thesis by (simp add: unat_div unat_ucast_up groups_of_def)
  qed
  have g32: "groups_of fs < 2 ^ 32" unfolding groups_of_def by (rule le_less_trans[OF ceil_div_le[OF b] dl(1)])
  show gc: "unat (group_count fs) = groups_of fs"
    unfolding f(3) unsigned_ucast_eq using gw[of "ucast (s_blocks_count (sb fs) - s_first_data_block (sb fs))"] du g32
    by (simp add: unat_ucast_up take_bit_nat_eq_self)
  have x: "unat (ucast (s_blocks_count (sb fs)) - ucast (s_first_data_block (sb fs)) :: u64) = data_blocks_of fs"
    using d by (simp add: unat_sub_if' word_le_nat_alt unat_ucast_up data_blocks_of_def)
  have "groups_of fs * ipg fs \<le> 2 ^ 32 * (8 * 4096)" using g32 p8 bs4 by (intro mult_mono) auto
  then have "unat ((ucast (s_blocks_count (sb fs)) - ucast (s_first_data_block (sb fs)) + ucast (s_blocks_per_group (sb fs)) - 1) div
       ucast (s_blocks_per_group (sb fs)) * (ucast (s_inodes_per_group (sb fs)) :: u64)) = groups_of fs * ipg fs"
    using gw[OF x] by (subst unat_mult_lem[THEN iffD1]) (simp_all add: unat_ucast_up)
  then show "unat (s_inodes_count (sb fs)) \<le> groups_of fs * ipg fs" using w(13) by (simp add: word_le_nat_alt unat_ucast_up)
  have pi: "ipg fs * isz fs \<le> (8 * 4096) * 4096" using p8 bs4 i(2) by (intro mult_mono) auto
  have "unat (ucast (s_inodes_per_group (sb fs)) * ucast (inode_size fs) :: u64) = ipg fs * isz fs"
    using pi by (subst unat_mult_lem[THEN iffD1]) (simp_all add: unat_ucast_up)
  then have "unat (ucast (s_inodes_per_group (sb fs)) * ucast (inode_size fs) + ucast (block_size fs) :: u64) = ipg fs * isz fs + bs fs"
    using pi bs4 by (subst unat_add_nowrap) (simp_all add: unat_ucast_up)
  then have "unat (ucast (s_inodes_per_group (sb fs)) * ucast (inode_size fs) + ucast (block_size fs) - 1 :: u64) = ipg fs * isz fs + bs fs - 1"
    using bs4 by (simp add: unat_sub_if' word_le_nat_alt)
  then have "unat ((ucast (s_inodes_per_group (sb fs)) * ucast (inode_size fs) + ucast (block_size fs) - 1) div ucast (block_size fs) :: u64) = itable_of fs"
    by (simp add: unat_div unat_ucast_up itable_of_def)
  then show "itable_of fs < bpg fs" using w(14) by (simp add: word_less_nat_alt unat_ucast_up)
  have "bs fs \<le> ipg fs * isz fs + bs fs - 1" using p i(1) by (cases "ipg fs"; cases "isz fs") auto
  then have "bs fs div bs fs \<le> itable_of fs" unfolding itable_of_def by (rule div_le_mono)
  then show "0 < itable_of fs" using bs4 by simp
qed

section \<open>Reading a block\<close>

lemma unat_eq_of_nat: "unat w = n \<Longrightarrow> w = of_nat n"
  for w :: "'a::len word"
  by auto

lemma laid_out_lock [simp]: "laid_out (fs\<lparr>lock := l\<rparr>) = laid_out fs"
proof -
  have v: "ext2_validate_sb (fs\<lparr>lock := l\<rparr>) = ext2_validate_sb fs" by (simp add: ext2_validate_sb_def)
  have c: "ext2_compute_layout (fs\<lparr>lock := l\<rparr>) = (ext2_compute_layout fs)\<lparr>lock := l\<rparr>" by (simp add: ext2_compute_layout_def Let_def)
  have "(ext2_compute_layout fs)\<lparr>lock := l\<rparr> = fs\<lparr>lock := l\<rparr> \<longleftrightarrow> ext2_compute_layout fs = fs"
  proof
    assume e: "(ext2_compute_layout fs)\<lparr>lock := l\<rparr> = fs\<lparr>lock := l\<rparr>"
    have "lock (ext2_compute_layout fs) = lock fs" by (simp add: ext2_compute_layout_def Let_def)
    then show "ext2_compute_layout fs = fs" using arg_cong[OF e, of "\<lambda>x. x\<lparr>lock := lock fs\<rparr>"] by (cases "ext2_compute_layout fs"; cases fs) simp
  qed simp
  then show ?thesis by (simp add: laid_out_def v c)
qed

text \<open>The disk blocks of a block of the file system, and what a block of it takes.\<close>

abbreviation "spb fs \<equiv> bs fs div lbs fs"
abbreviation "first_lba fs n \<equiv> lba_start fs + of_nat (n * spb fs)"

lemma read_blocks_eq:
  assumes lay: "laid_out fs" and n: "unat block < unat (s_blocks_count (sb fs))"
  shows "ext2_read_blocks fs block buf s =
    (case disk_read (fs_disk fs) buf (first_lba fs (unat block)) (of_nat (spb fs)) s of (ok, s') \<Rightarrow> Some (ok, fs, s'))"
proof -
  note l = layout_numbers[OF lay]
  let ?d = "lba_size (fs_disk fs)" and ?start = "ucast block * ucast (block_size fs) :: u64"
  obtain q where q: "bs fs = lbs fs * q" using l(4) by (auto elim: dvdE)
  have b4: "bs fs \<le> 4096" "0 < bs fs" using l(1) by auto
  have "unat block * bs fs \<le> 2 ^ 32 * 4096" using u32_le[of block] b4 by (intro mult_mono) auto
  then have st: "unat ?start = unat block * bs fs"
    by (subst unat_mult_lem[THEN iffD1]) (simp_all add: unat_ucast_up)
  have m: "?start mod ?d = 0" "(ucast (block_size fs) :: u64) mod ?d = 0"
    using l(2) by (simp_all add: word_unat_eq_iff unat_mod st unat_ucast_up q)
  have d0: "?d \<noteq> 0" using l(2) by (auto simp: word_unat_eq_iff)
  have lba: "?start div ?d = of_nat (unat block * spb fs)"
  proof -
    have "unat (?start div ?d) = unat block * spb fs" using l(2) by (simp add: unat_div st q)
    then show ?thesis by (rule unat_eq_of_nat)
  qed
  have cnt: "(ucast (block_size fs) :: u64) div ?d = of_nat (spb fs)"
  proof -
    have "unat ((ucast (block_size fs) :: u64) div ?d) = spb fs" by (simp add: unat_div unat_ucast_up)
    then show ?thesis by (rule unat_eq_of_nat)
  qed
  have "0 < spb fs" using l(2,3) by (simp add: div_greater_zero_iff)
  then have c0: "(ucast (block_size fs) :: u64) div ?d \<noteq> 0"
    by (auto simp: word_unat_eq_iff unat_div unat_ucast_up)
  have r: "bytes_to_blocks ?start (ucast (block_size fs)) ?d =
      Some \<lparr>res_lba = of_nat (unat block * spb fs), size_in_blocks = of_nat (spb fs), res_offset = 0\<rparr>"
    using d0 c0 by (simp add: bytes_to_blocks_def ALIGNDOWN_def ALIGNUP_def m lba cnt)
  have ge: "?d \<le> ucast (block_size fs)" using l(3) by (simp add: word_le_nat_alt unat_ucast_up)
  have "\<not> s_blocks_count (sb fs) \<le> block" using n by (simp add: word_le_nat_alt)
  then show ?thesis using ge by (simp add: ext2_read_blocks_def r Let_def split: prod.splits)
qed

section \<open>Where inodes lie\<close>

text \<open>Group and index of an inode number, and its place in the table of the group.\<close>

definition inode_group :: "'s ext2_partition \<Rightarrow> u32 \<Rightarrow> nat" where
  "inode_group fs ino = (unat ino - 1) div ipg fs"

definition inode_byte :: "'s ext2_partition \<Rightarrow> u32 \<Rightarrow> nat" where
  "inode_byte fs ino = (unat ino - 1) mod ipg fs * isz fs"

lemma inode_place:
  assumes lay: "laid_out fs" and ino: "0 < unat ino" "unat ino \<le> unat (s_inodes_count (sb fs))"
  shows "inode_group fs ino < groups_of fs" "inode_byte fs ino div bs fs < itable_of fs" "inode_byte fs ino mod bs fs + isz fs \<le> bs fs"
    "inode_byte fs ino < 2 ^ 27"
proof -
  note l = layout_numbers[OF lay]
  have "unat ino - 1 < groups_of fs * ipg fs" using ino l(13) by linarith
  then show "inode_group fs ino < groups_of fs" by (simp add: inode_group_def less_mult_imp_div_less)
  have b: "0 < bs fs" "bs fs \<le> 4096" using l(1) by auto
  obtain q where q: "bs fs = isz fs * q" using l(7) by (auto elim: dvdE)
  have q0: "0 < q" using q b by (cases q) auto
  define i where "i = (unat ino - 1) mod ipg fs"
  have i: "i < ipg fs" using l(10) by (simp add: i_def)
  have byte: "inode_byte fs ino = i * isz fs" by (simp add: inode_byte_def i_def)
  have i0: "0 < isz fs" using l(5) by simp
  have "i * isz fs div bs fs = i div q" "i * isz fs mod bs fs = i mod q * isz fs"
    using i0 by (simp_all add: q mult.commute[of "isz fs" q] mult_mod_right[symmetric] mod_mult_mult2)
  moreover have "itable_of fs = (ipg fs + q - 1) div q"
  proof -
    have "ipg fs * isz fs + bs fs - 1 = (ipg fs + q - 1) * isz fs + (isz fs - 1)"
      using q0 i0 l(10) by (cases q; cases "isz fs") (simp_all add: q algebra_simps)
    then have "itable_of fs = ((ipg fs + q - 1) * isz fs + (isz fs - 1)) div isz fs div q"
      by (simp add: itable_of_def q div_mult2_eq)
    moreover have "(a * isz fs + (isz fs - 1)) div isz fs = a" for a
      using i0 by (subst div_mult_self3) auto
    ultimately show ?thesis by (simp only:)
  qed
  moreover have "i div q < (ipg fs + q - 1) div q"
  proof -
    have "i div q + 1 = (i + q) div q" using q0 by (simp add: div_add_self2)
    also have "\<dots> \<le> (ipg fs + q - 1) div q" using i q0 by (intro div_le_mono) simp
    finally show ?thesis by simp
  qed
  moreover have "i mod q * isz fs + isz fs \<le> bs fs"
  proof -
    have "Suc (i mod q) \<le> q" using q0 by (simp add: Suc_leI)
    then have "Suc (i mod q) * isz fs \<le> q * isz fs" by (rule mult_le_mono1)
    then show ?thesis by (simp add: q mult.commute)
  qed
  ultimately show "inode_byte fs ino div bs fs < itable_of fs" "inode_byte fs ino mod bs fs + isz fs \<le> bs fs" by (simp_all add: byte)
  have "i * isz fs < ipg fs * isz fs" using i i0 by simp
  also have "\<dots> \<le> (8 * 4096) * 4096" using l(6,11) b(2) by (intro mult_mono) auto
  finally show "inode_byte fs ino < 2 ^ 27" by (simp add: byte)
qed

text \<open>The transfer of one inode, for a number in range whose block lies inside the file system.\<close>

lemma read_inode_transfer:
  assumes "mounted fs" and "0 < unat ino" and "unat ino \<le> unat (s_inodes_count (sb fs))"
    and "gd = groups fs + 32 * of_nat (inode_group fs ino)"
    and "block = unat (bg_inode_table (read_ext2_group_desc (ram s) gd)) + inode_byte fs ino div bs fs" and "off = inode_byte fs ino mod bs fs"
  shows "ext2_read_inode fs ino s =
      (if gd = 0 \<or> unat (s_blocks_count (sb fs)) \<le> block then Some (None, fs, s)
       else case disk_read (fs_disk fs) (io_buf fs) (first_lba fs block) (of_nat (spb fs)) s of
         (ok, s') \<Rightarrow> Some (if ok then Some (copy_inode (ram s') (io_buf fs + of_nat off) 128) else None, fs, s'))"
proof -
  have lay: "laid_out fs" and free: "lock fs = False" using assms(1) by (simp_all add: mounted_def)
  note l = layout_numbers[OF lay] and pl = inode_place[OF lay assms(2,3)]
  have b: "0 < bs fs" "bs fs \<le> 4096" using l(1) by auto
  let ?g = "(ino - 1) div s_inodes_per_group (sb fs)" and ?i = "(ino - 1) mod s_inodes_per_group (sb fs)"
  have m1: "unat (ino - 1) = unat ino - 1" using assms(2) by (simp add: unat_minus_one unat_gt_0)
  have ug: "unat ?g = inode_group fs ino" by (simp add: unat_div m1 inode_group_def)
  then have g: "(ucast ?g :: u64) = of_nat (inode_group fs ino)" by (intro unat_eq_of_nat) (simp add: unat_ucast_up)
  have gg: "ucast (ucast ?g :: u64) = ?g" by (rule bit_word_eqI) (simp add: bit_simps)
  have "?g < group_count fs" using pl(1) l(12) ug by (simp add: word_less_nat_alt)
  then have gd: "ext2_get_group_desc fs (ucast (ucast ?g :: u64)) = gd"
    unfolding gg ext2_get_group_desc_def assms(4) g[symmetric] by simp
  let ?byte = "ucast ?i * ucast (inode_size fs) :: u64" and ?tab = "bg_inode_table (read_ext2_group_desc (ram s) gd)"
  have ub: "unat ?byte = inode_byte fs ino"
    using pl(4) by (subst unat_mult_lem[THEN iffD1]) (simp_all add: unat_ucast_up unat_mod m1 inode_byte_def)
  let ?blk = "ucast ?tab + ?byte div ucast (block_size fs) :: u64"
  have "inode_byte fs ino div bs fs < 2 ^ 27" using pl(4) div_le_dividend by (rule le_less_trans[rotated])
  then have ublk: "unat ?blk = block"
    using u32_le[of ?tab] by (subst unat_add_nowrap) (simp_all add: unat_ucast_up unat_div ub assms(5))
  have uoff: "unat (?byte mod ucast (block_size fs)) = off" by (simp add: unat_mod ub unat_ucast_up assms(6))
  have o32: "off < 2 ^ 32" using pl(3) b(2) assms(6) by simp
  have off: "ucast (ucast (?byte mod ucast (block_size fs)) :: u32) = (of_nat off :: u64)"
    by (rule unat_eq_of_nat) (use o32 uoff in \<open>simp add: unat_ucast_up unsigned_ucast_eq unsigned_take_bit_eq take_bit_nat_eq_self\<close>)
  have rd: "ext2_read_blocks (fs\<lparr>lock := True\<rparr>) (ucast ?blk) (io_buf fs) s =
      (case disk_read (fs_disk fs) (io_buf fs) (first_lba fs block) (of_nat (spb fs)) s of (ok, s') \<Rightarrow> Some (ok, fs\<lparr>lock := True\<rparr>, s'))"
    if lt: "block < unat (s_blocks_count (sb fs))"
  proof -
    have "block < 2 ^ 32" using lt u32_le by (rule less_trans)
    then have "unat (ucast ?blk :: u32) = block" using ublk by (simp add: unsigned_ucast_eq take_bit_nat_eq_self)
    then show ?thesis using read_blocks_eq[of "fs\<lparr>lock := True\<rparr>" "ucast ?blk"] lay lt by simp
  qed
  have conds: "\<not> (ino = 0 \<or> ino > s_inodes_count (sb fs))" "\<not> (s_inodes_per_group (sb fs) = 0 \<or> block_size fs = 0)"
    "?blk \<ge> ucast (s_blocks_count (sb fs)) \<longleftrightarrow> unat (s_blocks_count (sb fs)) \<le> block" "\<not> inode_size fs < 128"
    using assms(2,3) l(5,10) b(1) by (auto simp: word_le_nat_alt word_less_nat_alt ublk unat_ucast_up)
  have unlock: "fs\<lparr>lock := spinlock_release l\<rparr> = fs" for l using free by (cases fs) (simp add: spinlock_release_def)
  show ?thesis
    unfolding ext2_read_inode_def Let_def gd using conds by (auto simp: free rd off unlock split: prod.splits)
qed

text \<open>
  C35. Every inode of an accepted file system is read from its place. With the layout of a validated superblock, an inode
  number from 1 to the number of inodes lies in a group that exists, inside the inode table of the group and
  inside one block. \<open>ext2_read_inode\<close> always returns and leaves the lock free. For such a number, when the descriptor of the
  group has an address and names a table whose block lies inside the file system, it makes one
  transfer, just the sectors of that block into the buffer of the partition, and returns the 128 bytes at the inode's offset, or the failure of the
  transfer. In all other cases it fails without any transfer.
\<close>

theorem ext2_read_inode_place:
  assumes "mounted fs" and "gd = groups fs + 32 * of_nat (inode_group fs ino)"
    and "table = unat (bg_inode_table (read_ext2_group_desc (ram s) gd))"
    and "block = table + inode_byte fs ino div bs fs" and "off = inode_byte fs ino mod bs fs"
    and "valid \<longleftrightarrow> 1 \<le> unat ino \<and> unat ino \<le> unat (s_inodes_count (sb fs))"
  shows "(valid \<longrightarrow> inode_group fs ino < unat (group_count fs) \<and> block < table + itable_of fs \<and> off + isz fs \<le> bs fs \<and> bs fs \<le> 4096) \<and>
    ext2_read_inode fs ino s =
      (if valid \<and> gd \<noteq> 0 \<and> block < unat (s_blocks_count (sb fs))
       then case disk_read (fs_disk fs) (io_buf fs) (first_lba fs block) (of_nat (spb fs)) s of
         (ok, s') \<Rightarrow> Some (if ok then Some (copy_inode (ram s') (io_buf fs + of_nat off) 128) else None, fs, s')
       else Some (None, fs, s))"
proof (cases valid)
  case True
  then have ino: "0 < unat ino" "unat ino \<le> unat (s_inodes_count (sb fs))" using assms(6) by simp_all
  have lay: "laid_out fs" using assms(1) by (simp add: mounted_def)
  have "bs fs \<le> 4096" using layout_numbers(1)[OF lay] by auto
  with True inode_place[OF lay ino] layout_numbers(12)[OF lay] assms(4,5)
    read_inode_transfer[OF assms(1) ino assms(2) assms(4)[unfolded assms(3)] assms(5)]
  show ?thesis by auto
next
  case False
  then have "ino = 0 \<or> ino > s_inodes_count (sb fs)" using assms(6) by (auto simp: word_less_nat_alt unat_eq_0 not_le Suc_le_eq)
  with False show ?thesis by (auto simp: ext2_read_inode_def)
qed

section \<open>A small and a large file system\<close>

text \<open>A disk of 512-byte sectors that answers every read with words of value 9, and two superblocks on it.\<close>

definition ex_sector :: mem where
  "ex_sector x = (if x AND 3 = 0 then 9 else 0)"

definition ex_disk :: "'a pmm_scheme disk" where
  "ex_disk = \<lparr>lba_size = 512, disk_size = 0, disk_read = (\<lambda>buf lba n s. (True, s\<lparr>ram := ex_sector\<rparr>)), disk_write = (\<lambda>buf lba n s. (False, s))\<rparr>"

definition ex_sb :: ext2_superblock where
  "ex_sb = (read_ext2_superblock (\<lambda>_. 0) 0)\<lparr>s_magic := EXT2_MAGIC, s_inodes_count := 16, s_blocks_count := 100, s_first_data_block := 1,
     s_blocks_per_group := 8192, s_inodes_per_group := 16\<rparr>"

definition ex_large :: ext2_superblock where
  "ex_large = (read_ext2_superblock (\<lambda>_. 0) 0)\<lparr>s_magic := EXT2_MAGIC, s_inodes_count := 16, s_blocks_count := 0x10000001, s_first_data_block := 1,
     s_blocks_per_group := 2, s_inodes_per_group := 8\<rparr>"

definition ex_partition :: "ext2_superblock \<Rightarrow> 'a fs" where
  "ex_partition b = (ext2_compute_layout ((zero_partition ex_disk 2048)\<lparr>sb := b\<rparr>))\<lparr>groups := 0x5000, io_buf := 0x8000\<rparr>"

lemma ldn_zero [simp]: "ldn n (\<lambda>_. 0) a = 0"
  by (rule bit_eqI) (simp add: bit_ldn)

lemmas ex_fields = ex_sb_def ex_large_def read_ext2_superblock_def

lemma ex_layout [simp]: "ext2_compute_layout (ex_partition b) = ex_partition b"
  by (simp add: ex_partition_def ext2_compute_layout_def Let_def)

lemma ex_partition_fields [simp]:
  "sb (ex_partition b) = b" "fs_disk (ex_partition b) = ex_disk" "groups (ex_partition b) = 0x5000" "io_buf (ex_partition b) = 0x8000"
  "lba_start (ex_partition b) = 2048" "\<not> lock (ex_partition b)"
  by (simp_all add: ex_partition_def ext2_compute_layout_def Let_def zero_partition_def)

lemma ex_mounted: "mounted (ex_partition ex_sb)"
  by (simp add: mounted_def laid_out_def ext2_validate_sb_def ex_fields ex_disk_def Let_def) (simp add: word_le_nat_alt)

lemma ex_large_mounted: "mounted (ex_partition ex_large)"
  by (simp add: mounted_def laid_out_def ext2_validate_sb_def ex_fields ex_disk_def Let_def) (simp add: word_le_nat_alt)

lemma ex_sizes:
  "block_size (ex_partition ex_sb) = 1024" "inode_size (ex_partition ex_sb) = 128"
  "block_size (ex_partition ex_large) = 1024" "inode_size (ex_partition ex_large) = 128" "group_count (ex_partition ex_large) = 0x8000000"
  by (simp_all add: ex_partition_def ext2_compute_layout_def Let_def ex_fields)

lemma ex_itable: "itable_of (ex_partition ex_sb) = 2"
  by (simp add: itable_of_def ex_sizes) (simp add: ex_fields)

lemma ex_inode: "inode_group (ex_partition ex_sb) 12 = 0" "inode_byte (ex_partition ex_sb) 12 = 1408"
  by (simp_all add: inode_group_def inode_byte_def ex_sizes) (simp_all add: ex_fields)

abbreviation "ex_table_state \<equiv> ex_pmm\<lparr>ram := (\<lambda>_. 0)(0x5008 := 5)\<rparr>"

theorem ext2_read_inode_place_witness:
  "mounted (ex_partition ex_sb) \<and>
   ext2_read_inode (ex_partition ex_sb) 12 ex_table_state =
     Some (Some (copy_inode ex_sector 0x8180 128), ex_partition ex_sb, ex_table_state\<lparr>ram := ex_sector\<rparr>)"
proof -
  have tab: "unat (bg_inode_table (read_ext2_group_desc (ram ex_table_state) 0x5000)) = 5"
    by (simp add: read_ext2_group_desc_def ldn_numeral)
  let ?fs = "ex_partition ex_sb :: unit fs"
  have cnt: "unat (s_inodes_count ex_sb) = 16" "unat (s_blocks_count ex_sb) = 100" by (simp_all add: ex_fields)
  have lba: "first_lba ?fs 6 = 2060" "of_nat (spb ?fs) = (2 :: u64)" by (simp_all add: ex_sizes ex_disk_def)
  have prems: "unat (12 :: u32) \<le> unat (s_inodes_count (sb ?fs))" "(0x5000 :: u64) = groups ?fs + 32 * of_nat (inode_group ?fs 12)"
    "6 < unat (s_blocks_count (sb ?fs))" "6 = 5 + inode_byte ?fs 12 div bs ?fs" "384 = inode_byte ?fs 12 mod bs ?fs"
    by (simp_all only: ex_partition_fields cnt ex_inode ex_itable ex_sizes) simp_all
  have "ext2_read_inode ?fs 12 ex_table_state =
      (case disk_read (fs_disk ?fs) (io_buf ?fs) (first_lba ?fs 6) (of_nat (spb ?fs)) ex_table_state of
         (ok, s') \<Rightarrow> Some (if ok then Some (copy_inode (ram s') (io_buf ?fs + of_nat 384) 128) else None, ?fs, s'))"
    using ext2_read_inode_place[OF ex_mounted prems(2) tab[symmetric] prems(4,5) refl] prems(1,3) by simp
  then show ?thesis unfolding lba using ex_mounted by (simp add: ex_disk_def)
qed

lemma ex_large_inodes: "s_inodes_per_group ex_large = 8"
  by (simp add: ex_fields)

lemma load_descs_none: "load_descs buf t 0 b 0 fs s = Some (True, fs, s)"
  by (simp add: load_descs.simps)

text \<open>
  C36. The table of group descriptors of a large file system is lost: \<open>ext2_validate_sb\<close> accepts a superblock with 2 ^ 27 groups, whose
  table of 32-byte descriptors has 2 ^ 32 bytes, which the 32-bit size of \<open>ext2_read_group_descs\<close> holds as 0. The
  routine allocates no bytes, transfers no block, and decides by checking 2 ^ 27 descriptors in memory beyond its allocation.
\<close>

theorem ext2_group_table_wraps:
  fixes s :: "'a pmm_scheme"
  shows "mounted (ex_partition ex_large :: 'a fs) \<and> unat (group_count (ex_partition ex_large :: 'a fs)) * 32 = 2 ^ 32 \<and>
   ext2_read_group_descs (ex_partition ex_large) s = do {
     (p, s) \<leftarrow> kmalloc 0 s;
     let fs = (ex_partition ex_large)\<lparr>groups := p\<rparr>;
     let (phys, s') = pmm_alloc_page s 4096;
     if p = 0 then Some (False, fs, s)
     else if phys = 0 then map_option (\<lambda>s. (False, fs\<lparr>groups := 0\<rparr>, s)) (kfree p s')
     else if check_descs (ram (pmm_free s' phys 1)) fs 1 0 then Some (True, fs, pmm_free s' phys 1)
     else map_option (\<lambda>s. (False, fs\<lparr>groups := 0\<rparr>, s)) (kfree p (pmm_free s' phys 1))
   }"
proof (cases "kmalloc 0 s")
  case None
  then show ?thesis using ex_large_mounted by (simp add: ext2_read_group_descs_def ex_sizes Let_def)
next
  case (Some ps)
  obtain p s1 where 1: "ps = (p, s1)" by (cases ps)
  obtain phys s2 where 2: "pmm_alloc_page s1 4096 = (phys, s2)" by (cases "pmm_alloc_page s1 4096")
  show ?thesis using ex_large_mounted Some
    by (simp add: 1 2 ext2_read_group_descs_def ex_sizes Let_def load_descs_none ex_large_inodes map_conv_bind_option comp_def)
qed

end
