(* ===== verification/Ext2Map.thy ===== *)
theory Ext2Map
  imports Ext2Layout
begin

text \<open>
  The blocks of a file: \<open>ext2_bmap\<close> against a reference definition that walks the tree of pointer blocks, on a disk whose
  blocks have given contents.
\<close>

section \<open>The tree of pointers\<close>

text \<open>For \<open>n\<close> pointers in a block: the slot of the inode and the indices in the pointer blocks that lead to a block of the file.\<close>

fun digits :: "nat \<Rightarrow> nat \<Rightarrow> nat \<Rightarrow> nat list" where
  "digits n 0 x = []"
| "digits n (Suc d) x = x div n ^ d # digits n d (x mod n ^ d)"

definition bmap_path :: "nat \<Rightarrow> nat \<Rightarrow> (nat \<times> nat list) option" where
  "bmap_path n fb =
     (if fb < 12 then Some (fb, [])
      else if fb - 12 < n then Some (12, digits n 1 (fb - 12))
      else if fb - 12 - n < n ^ 2 then Some (13, digits n 2 (fb - 12 - n))
      else if fb - 12 - n - n ^ 2 < n ^ 3 then Some (14, digits n 3 (fb - 12 - n - n ^ 2))
      else None)"

text \<open>Following indices from a block number: a hole ends the walk with 0, a number outside the file system fails.\<close>

fun walk :: "'s ext2_partition \<Rightarrow> (u32 \<Rightarrow> nat \<Rightarrow> u32) \<Rightarrow> u32 \<Rightarrow> nat list \<Rightarrow> u32 option" where
  "walk fs ptr p [] = Some p"
| "walk fs ptr p (i # is) =
     (if p = 0 then Some 0
      else if p < s_first_data_block (sb fs) \<or> p \<ge> s_blocks_count (sb fs) then None
      else walk fs ptr (ptr p i) is)"

text \<open>The digits determine the number, and a path the block of the file.\<close>

definition digits_number :: "nat \<Rightarrow> nat list \<Rightarrow> nat" where
  "digits_number n = foldl (\<lambda>a i. a * n + i) 0"

fun bmap_position :: "nat \<Rightarrow> nat \<times> nat list \<Rightarrow> nat" where
  "bmap_position n (slot, ds) =
     (if slot < 12 then slot
      else if slot = 12 then 12 + digits_number n ds
      else if slot = 13 then 12 + n + digits_number n ds
      else 12 + n + n ^ 2 + digits_number n ds)"

lemma digits_value: "x < n ^ d \<Longrightarrow> digits_number n (digits n d x) = x"
proof -
  have "foldl (\<lambda>a i. a * n + i) a (digits n d x) = a * n ^ d + x" if "x < n ^ d" for a
    using that
  proof (induction d arbitrary: x a)
    case (Suc d)
    have n: "0 < n ^ d" using Suc.prems by (cases "n = 0") auto
    have "x mod n ^ d < n ^ d" using n by simp
    from Suc.IH[OF this] show ?case by (simp add: algebra_simps)
  qed simp
  then show "x < n ^ d \<Longrightarrow> ?thesis" by (simp add: digits_number_def)
qed

lemma length_digits [simp]: "length (digits n d x) = d"
  by (induction d arbitrary: x) simp_all

lemma digits_less: "x < n ^ d \<Longrightarrow> \<forall>i \<in> set (digits n d x). i < n"
proof (induction d arbitrary: x)
  case (Suc d)
  have n: "0 < n ^ d" using Suc.prems by (cases "n = 0") auto
  then have "x mod n ^ d < n ^ d" by simp
  with Suc show ?case by (simp add: less_mult_imp_div_less)
qed simp

lemma bmap_path_inverse: "bmap_path n fb = Some p \<Longrightarrow> bmap_position n p = fb"
  using digits_value[of "fb - 12" n 1] digits_value[of "fb - 12 - n" n 2] digits_value[of "fb - 12 - n - n ^ 2" n 3]
  unfolding bmap_path_def by (auto simp: digits_number_def simp del: digits.simps split: if_splits)

lemma bmap_path_defined: "bmap_path n fb \<noteq> None \<longleftrightarrow> fb < 12 + n + n ^ 2 + n ^ 3"
  by (auto simp: bmap_path_def)

section \<open>Reading pointers\<close>

text \<open>A disk whose transfers succeed and whose pointer blocks hold \<open>ptr\<close>.\<close>

definition presents :: "'a fs \<Rightarrow> (u32 \<Rightarrow> nat \<Rightarrow> u32) \<Rightarrow> bool" where
  "presents fs ptr \<longleftrightarrow>
     (\<forall>s blk. unat blk < unat (s_blocks_count (sb fs)) \<longrightarrow>
        (\<exists>s'. disk_read (fs_disk fs) (io_buf fs) (first_lba fs (unat blk)) (of_nat (spb fs)) s = (True, s') \<and>
           (\<forall>i < bs fs div 4. ld32 (ram s') (io_buf fs + 4 * of_nat i) = ptr blk i)))"

lemma unlocked: "\<not> lock fs \<Longrightarrow> fs\<lparr>lock := spinlock_release l\<rparr> = fs"
  by (cases fs) (simp add: spinlock_release_def)

lemma read_ptr_eq:
  assumes "mounted fs" and "presents fs ptr" and "unat idx < bs fs div 4" and "blk \<noteq> 0"
  shows "\<exists>s'. ext2_read_ptr fs blk idx s = Some (walk fs ptr blk [unat idx], fs, s')"
proof (cases "blk < s_first_data_block (sb fs) \<or> blk \<ge> s_blocks_count (sb fs)")
  case True
  then show ?thesis using assms(4) by (simp add: ext2_read_ptr_def)
next
  case False
  then have lt: "unat blk < unat (s_blocks_count (sb fs))" by (simp add: word_le_nat_alt)
  obtain s' where r: "disk_read (fs_disk fs) (io_buf fs) (first_lba fs (unat blk)) (of_nat (spb fs)) s = (True, s')"
    "\<forall>i < bs fs div 4. ld32 (ram s') (io_buf fs + 4 * of_nat i) = ptr blk i"
    using assms(2) lt unfolding presents_def by blast
  have lay: "laid_out (fs\<lparr>lock := True\<rparr>)" and free: "\<not> lock fs" using assms(1) by (simp_all add: mounted_def)
  have "ext2_read_blocks (fs\<lparr>lock := True\<rparr>) blk (io_buf fs) s = Some (True, fs\<lparr>lock := True\<rparr>, s')"
    using read_blocks_eq[OF lay, of blk "io_buf fs" s] lt r(1) by simp
  moreover have "ld32 (ram s') (io_buf fs + 4 * ucast idx) = ptr blk (unat idx)"
  proof -
    have "(ucast idx :: u64) = of_nat (unat idx)" by (rule unat_eq_of_nat) (simp add: unat_ucast_up)
    then show ?thesis using r(2)[rule_format, OF assms(3)] by (simp only:)
  qed
  ultimately show ?thesis
    using False assms(4) free unlocked[OF free] by (simp add: ext2_read_ptr_def)
qed

text \<open>The two patterns of \<open>ext2_bmap\<close>: the last pointer of a path, and one with more to come.\<close>

lemma last_pointer:
  assumes "mounted fs" and "presents fs ptr" and "unat idx = i" and "i < bs fs div 4"
  shows "\<exists>s'. (if p = 0 then Some (Some 0, fs, s) else ext2_read_ptr fs p idx s) = Some (walk fs ptr p [i], fs, s')"
  using read_ptr_eq[OF assms(1,2), of idx p s] assms(3,4) by (cases "p = 0") auto

lemma next_pointer:
  assumes "mounted fs" and "presents fs ptr" and "unat idx = i" and "i < bs fs div 4"
    and "\<And>p s. \<exists>s'. K p fs s = Some (walk fs ptr p is, fs, s')"
  shows "\<exists>s'. (if p = 0 then Some (Some 0, fs, s)
       else do {
         (r, fs, s) \<leftarrow> ext2_read_ptr fs p idx s;
         case r of None \<Rightarrow> Some (None, fs, s) | Some p \<Rightarrow> K p fs s
       }) = Some (walk fs ptr p (i # is), fs, s')"
proof (cases "p = 0")
  case False
  obtain s1 where "ext2_read_ptr fs p idx s = Some (walk fs ptr p [i], fs, s1)"
    using read_ptr_eq[OF assms(1,2), of idx p s] assms(3,4) False by auto
  then show ?thesis using False assms(5)[of "ptr p i" s1] by auto
qed simp

lemma div_less_pow: "x < n * m \<Longrightarrow> x div n < (m :: nat)"
  by (metis less_mult_imp_div_less mult.commute)

lemma digits_1 [simp]: "digits n (Suc 0) x = [x]"
  by simp

lemma digits_2: "digits n 2 x = [x div n, x mod n]"
  by (simp add: numeral_2_eq_2)

lemma digits_3: "digits n 3 x = [x div n ^ 2, x mod n ^ 2 div n, x mod n ^ 2 mod n]"
  by (simp add: numeral_3_eq_3 numeral_2_eq_2)

text \<open>The number of pointers in a block, as the 64-bit word that the code computes with.\<close>

abbreviation "ppb fs \<equiv> ucast (block_size fs div 4) :: u64"

lemma ppb_numbers:
  assumes "mounted fs"
  shows "0 < bs fs div 4" "bs fs div 4 \<le> 1024" "unat (ppb fs) = bs fs div 4" "unat (ppb fs * ppb fs) = (bs fs div 4) ^ 2"
    "unat (ppb fs * ppb fs * ppb fs) = (bs fs div 4) ^ 3"
proof -
  let ?n = "bs fs div 4"
  have "bs fs \<in> {1024, 2048, 4096}" using assms layout_numbers(1) by (auto simp: mounted_def)
  then show n: "0 < ?n" "?n \<le> 1024" by auto
  show p1: "unat (ppb fs) = ?n" by (simp add: unat_ucast_up unat_div)
  have "?n * ?n \<le> 1024 * 1024" using n by (intro mult_mono) auto
  then have n2: "?n ^ 2 \<le> 1024 * 1024" by (simp add: power2_eq_square)
  then have "?n ^ 2 * ?n \<le> 1024 * 1024 * 1024" using n by (intro mult_mono) auto
  then have n3: "?n ^ 3 \<le> 1024 * 1024 * 1024" by (simp add: power2_eq_square power3_eq_cube)
  show p2: "unat (ppb fs * ppb fs) = ?n ^ 2"
    using n2 by (subst unat_mult_lem[THEN iffD1]) (simp_all add: p1 power2_eq_square)
  show p3: "unat (ppb fs * ppb fs * ppb fs) = ?n ^ 3"
    using n3 by (subst unat_mult_lem[THEN iffD1]) (simp_all add: p1 p2 power2_eq_square power3_eq_cube)
qed

lemma ppb_index: "mounted fs \<Longrightarrow> unat x < bs fs div 4 \<Longrightarrow> unat (ucast (x :: u64) :: u32) = unat x"
  using ppb_numbers(2)[of fs] by (simp add: unsigned_ucast_eq take_bit_nat_eq_self)

lemma double_indirect:
  assumes "mounted fs" and "presents fs ptr" and q: "q = ppb fs" and lt: "unat f < (bs fs div 4) ^ 2"
  shows "\<exists>s'. (if p = 0 then Some (Some 0, fs, s)
       else do {
         (r, fs, s) \<leftarrow> ext2_read_ptr fs p (ucast (f div q)) s;
         case r of None \<Rightarrow> Some (None, fs, s)
         | Some p \<Rightarrow> if p = 0 then Some (Some 0, fs, s) else ext2_read_ptr fs p (ucast (f mod q)) s
       }) = Some (walk fs ptr p (digits (bs fs div 4) 2 (unat f)), fs, s')"
proof -
  note n = ppb_numbers[OF assms(1), folded q]
  have i: "unat (f div q) = unat f div (bs fs div 4)" "unat (f mod q) = unat f mod (bs fs div 4)"
    by (simp_all only: unat_div unat_mod n)
  have j: "unat f div (bs fs div 4) < bs fs div 4" "unat f mod (bs fs div 4) < bs fs div 4"
    using lt n(1) by (simp_all add: power2_eq_square div_less_pow)
  show ?thesis unfolding digits_2
    by (intro next_pointer[OF assms(1,2)] last_pointer[OF assms(1,2)]) (use i j ppb_index[OF assms(1)] in simp_all)
qed

lemma triple_indirect:
  assumes "mounted fs" and "presents fs ptr" and q: "q = ppb fs" and lt: "unat f < (bs fs div 4) ^ 3"
  shows "\<exists>s'. (if p = 0 then Some (Some 0, fs, s)
       else do {
         (r, fs, s) \<leftarrow> ext2_read_ptr fs p (ucast (f div (q * q))) s;
         case r of None \<Rightarrow> Some (None, fs, s)
         | Some p \<Rightarrow> if p = 0 then Some (Some 0, fs, s)
             else do {
               (r, fs, s) \<leftarrow> ext2_read_ptr fs p (ucast (f mod (q * q) div q)) s;
               case r of None \<Rightarrow> Some (None, fs, s)
               | Some p \<Rightarrow> if p = 0 then Some (Some 0, fs, s) else ext2_read_ptr fs p (ucast (f mod (q * q) mod q)) s
             }
       }) = Some (walk fs ptr p (digits (bs fs div 4) 3 (unat f)), fs, s')"
proof -
  note n = ppb_numbers[OF assms(1), folded q]
  let ?n = "bs fs div 4" and ?r = "f mod (q * q)"
  have "unat f < ?n ^ 2 * ?n" using lt by (simp add: power2_eq_square power3_eq_cube)
  then have i: "unat (f div (q * q)) = unat f div ?n ^ 2" "unat f div ?n ^ 2 < ?n"
    by (simp_all only: unat_div n div_less_pow)
  have r: "unat ?r = unat f mod ?n ^ 2" by (simp only: unat_mod n)
  then have "unat ?r < ?n ^ 2" using n(1) by simp
  from double_indirect[OF assms(1,2) q this] have K: "\<exists>s'. (if p = 0 then Some (Some 0, fs, s)
       else do {
         (r, fs, s) \<leftarrow> ext2_read_ptr fs p (ucast (?r div q)) s;
         case r of None \<Rightarrow> Some (None, fs, s)
         | Some p \<Rightarrow> if p = 0 then Some (Some 0, fs, s) else ext2_read_ptr fs p (ucast (?r mod q)) s
       }) = Some (walk fs ptr p [unat f mod ?n ^ 2 div ?n, unat f mod ?n ^ 2 mod ?n], fs, s')" for p s
    unfolding digits_2 r by blast
  have idx: "unat (ucast (f div (q * q)) :: u32) = unat f div ?n ^ 2" using ppb_index[OF assms(1)] i by simp
  show ?thesis unfolding digits_3 by (rule next_pointer[OF assms(1,2) idx i(2)]) (rule K)
qed

text \<open>
  C34. The map from blocks of a file to blocks of the disk is the tree of pointers: for a mounted file system on a disk whose transfers
  succeed, \<open>ext2_bmap\<close> always returns, with the lock free, and its result for every 64-bit block number is that of the
  reference walk: the direct slot, or the block reached through one, two or three pointer blocks by the digits of the number, 0
  when the walk meets a hole, and a failure beyond the last block of the tree or when a pointer leaves the file system. Different numbers
  have different paths.
\<close>

theorem ext2_bmap_walks:
  assumes "mounted fs" and "presents fs ptr"
  shows "\<exists>s'. ext2_bmap fs ino fb s =
    Some (case bmap_path (bs fs div 4) (unat fb) of
            None \<Rightarrow> None
          | Some (slot, is) \<Rightarrow> walk fs ptr (i_block ino ! slot) is, fs, s')"
proof -
  let ?n = "bs fs div 4" and ?p = "ppb fs"
  note n = ppb_numbers[OF assms(1)]
  let ?f1 = "fb - 12" and ?f2 = "fb - 12 - ?p" and ?f3 = "fb - 12 - ?p - ?p * ?p"
  have f0: "fb < 12 \<longleftrightarrow> unat fb < 12" by (simp add: word_less_nat_alt)
  have f1: "\<not> fb < 12 \<Longrightarrow> unat ?f1 = unat fb - 12" by (simp add: unat_sub_if' word_le_nat_alt word_less_nat_alt)
  have f2: "\<not> fb < 12 \<Longrightarrow> \<not> ?f1 < ?p \<Longrightarrow> unat ?f2 = unat fb - 12 - ?n"
    using f1 by (subst unat_sub_if') (simp add: word_less_nat_alt word_le_nat_alt n)
  have f3: "\<not> fb < 12 \<Longrightarrow> \<not> ?f1 < ?p \<Longrightarrow> \<not> ?f2 < ?p * ?p \<Longrightarrow> unat ?f3 = unat fb - 12 - ?n - ?n ^ 2"
    using f2 by (subst unat_sub_if') (simp add: word_less_nat_alt word_le_nat_alt n)
  have lt: "x < ?p \<longleftrightarrow> unat x < ?n" "x < ?p * ?p \<longleftrightarrow> unat x < ?n ^ 2" "x < ?p * ?p * ?p \<longleftrightarrow> unat x < ?n ^ 3" for x
    by (simp_all only: word_less_nat_alt n)
  consider (direct) "fb < 12" | (single) "\<not> fb < 12" "?f1 < ?p" | (double) "\<not> fb < 12" "\<not> ?f1 < ?p" "?f2 < ?p * ?p"
    | (triple) "\<not> fb < 12" "\<not> ?f1 < ?p" "\<not> ?f2 < ?p * ?p" "?f3 < ?p * ?p * ?p"
    | (beyond) "\<not> fb < 12" "\<not> ?f1 < ?p" "\<not> ?f2 < ?p * ?p" "\<not> ?f3 < ?p * ?p * ?p" by blast
  then show ?thesis
  proof cases
    case direct
    then show ?thesis by (simp add: ext2_bmap_def bmap_path_def f0)
  next
    case single
    then have i: "unat ?f1 < ?n" and path: "bmap_path ?n (unat fb) = Some (12, [unat ?f1])"
      using f1 by (simp_all add: bmap_path_def f0 lt)
    show ?thesis using single last_pointer[OF assms ppb_index[OF assms(1) i] i]
      by (simp add: ext2_bmap_def Let_def path cong: if_cong)
  next
    case double
    then have i: "unat ?f2 < ?n ^ 2" and path: "bmap_path ?n (unat fb) = Some (13, digits ?n 2 (unat ?f2))"
      using f1 f2 by (simp_all add: bmap_path_def f0 lt)
    show ?thesis unfolding ext2_bmap_def Let_def path
      by (simp only: double if_False if_True option.case prod.case) (rule double_indirect[OF assms refl i])
  next
    case triple
    then have i: "unat ?f3 < ?n ^ 3" and path: "bmap_path ?n (unat fb) = Some (14, digits ?n 3 (unat ?f3))"
      using f1 f2 f3 by (simp_all add: bmap_path_def f0 lt)
    show ?thesis unfolding ext2_bmap_def Let_def path
      by (simp only: triple if_False if_True option.case prod.case) (rule triple_indirect[OF assms refl i])
  next
    case beyond
    then have "bmap_path ?n (unat fb) = None" using f1 f2 f3 by (simp add: bmap_path_def f0 lt)
    then show ?thesis using beyond by (simp add: ext2_bmap_def Let_def)
  qed
qed

lemma ex_sector_word: "ld32 ex_sector (push_bit 2 y) = 9"
proof -
  have low: "(push_bit 2 y + take_bit 2 k) AND 3 = take_bit 2 k" for k :: u64
  proof -
    have "push_bit 2 y AND take_bit 2 k = 0" by (rule bit_word_eqI) (auto simp: bit_simps)
    then have "push_bit 2 y + take_bit 2 k = push_bit 2 y OR take_bit 2 k" by (rule disjunctive_add_eq_or)
    moreover have "take_bit 2 (push_bit 2 y) = 0" by (rule bit_word_eqI) (simp add: bit_simps)
    ultimately have "take_bit 2 (push_bit 2 y + take_bit 2 k) = take_bit 2 k" by simp
    then show ?thesis by (simp add: take_bit_eq_mask mask_eq_exp_minus_1)
  qed
  have low': "(take_bit 2 k + push_bit 2 y) AND 3 = take_bit 2 k" for k using low[of k] by (simp only: add.commute)
  show ?thesis using low[of 0] low[of 1] low'[of 2] low'[of 3] by (simp add: ldn_numeral ex_sector_def)
qed

lemma ex_presents: "presents (ex_partition ex_sb) (\<lambda>_ _. 9)"
proof -
  have "0x8000 + 4 * of_nat i = push_bit 2 (0x2000 + of_nat i :: u64)" for i by (simp add: push_bit_eq_mult)
  then have "ld32 ex_sector (0x8000 + 4 * of_nat i) = 9" for i using ex_sector_word by metis
  then show ?thesis by (simp add: presents_def ex_disk_def)
qed

theorem ext2_bmap_walks_witness:
  "\<exists>s'. ext2_bmap (ex_partition ex_sb) (read_ext2_inode ex_sector 0) 300 ex_pmm = Some (Some 9, ex_partition ex_sb, s')"
proof -
  have slot: "i_block (read_ext2_inode ex_sector 0) ! 13 = 9" using ex_sector_word[of 23] by (simp add: read_ext2_inode_def)
  show ?thesis
    using ext2_bmap_walks[OF ex_mounted ex_presents, of "read_ext2_inode ex_sector 0" 300 ex_pmm] slot
    by (simp add: bmap_path_def ex_sizes digits_2) (simp add: ex_fields)
qed

end
