(* ===== verification/Disk.thy ===== *)
theory Disk
  imports Ext2Layout
begin

text \<open>
  Finding file systems on a disk (\<^verbatim>\<open>drivers/x86/disk.c\<close>, \<^verbatim>\<open>include/mbr.h\<close>, \<^verbatim>\<open>include/gpt.h\<close>): the partition style of a disk, its partition
  table, and mounting. A routine that may mount returns the partitions it has mounted, by address and in order, beside the state;
  \<^const>\<open>None\<close> stands for a step without a defined result. Messages on the console are left out. A failed allocation of a buffer
  is not checked in the code, which then uses the page at address 0.
\<close>

section \<open>Partition tables\<close>

datatype partition_style = PARTITION_ERR | PARTITION_MBR | PARTITION_GPT | PARTITION_RAW

fun disk_type_to_str :: "partition_style \<Rightarrow> string" where
  "disk_type_to_str PARTITION_ERR = ''Unknown''"
| "disk_type_to_str PARTITION_MBR = ''MBR''"
| "disk_type_to_str PARTITION_GPT = ''GPT''"
| "disk_type_to_str PARTITION_RAW = ''Raw''"

definition mbr_to_str :: "u8 \<Rightarrow> string" where
  "mbr_to_str t = (if t = 0x83 then ''linux'' else if t = 0xb then ''fat32'' else ''unknown'')"

record mbr_partition =
  drive_status :: u8
  chs_start :: "u8 list"
  partition_type :: u8
  chs_end :: "u8 list"
  mbr_lba_start :: u32
  sector_count :: u32

definition read_mbr_partition :: "mem \<Rightarrow> u64 \<Rightarrow> mbr_partition" where
  "read_mbr_partition m a =
     \<lparr>drive_status = m a, chs_start = map (\<lambda>i. m (a + 1 + of_nat i)) [0..<3], partition_type = m (a + 4),
      chs_end = map (\<lambda>i. m (a + 5 + of_nat i)) [0..<3], mbr_lba_start = ld32 m (a + 8), sector_count = ld32 m (a + 12)\<rparr>"

record mbr_sector =
  bootstrap :: "u8 list"
  partitions :: "mbr_partition list"
  signature :: u16

definition read_mbr_sector :: "mem \<Rightarrow> u64 \<Rightarrow> mbr_sector" where
  "read_mbr_sector m a =
     \<lparr>bootstrap = map (\<lambda>i. m (a + of_nat i)) [0..<446],
      partitions = map (\<lambda>i. read_mbr_partition m (a + 446 + 16 * of_nat i)) [0..<4],
      signature = ld16 m (a + 510)\<rparr>"

record gpt_lba1 =
  gpt_signature :: "u8 list"
  gpt_revision :: u32
  gpt_size :: u32
  gpt_crc32 :: u32
  gpt_reserved :: u32
  current_lba :: u64
  other_lba :: u64
  first_usable :: u64
  last_usable :: u64
  gpt_guid :: "u8 list"
  partition_lba :: u64
  count_partitions :: u32
  size_of_partition :: u32

text \<open>The empty initialiser of the source.\<close>

definition zero_lba1 :: gpt_lba1 where
  "zero_lba1 =
     \<lparr>gpt_signature = replicate 8 0, gpt_revision = 0, gpt_size = 0, gpt_crc32 = 0, gpt_reserved = 0, current_lba = 0, other_lba = 0,
      first_usable = 0, last_usable = 0, gpt_guid = replicate 16 0, partition_lba = 0, count_partitions = 0, size_of_partition = 0\<rparr>"

record gpt_partition_entry =
  guid :: "u8 list"
  unique_guid :: "u8 list"
  start_lba :: u64
  end_lba :: u64
  attributes :: u64
  gpt_name :: "u8 list"

definition read_gpt_partition_entry :: "mem \<Rightarrow> u64 \<Rightarrow> gpt_partition_entry" where
  "read_gpt_partition_entry m a =
     \<lparr>guid = map (\<lambda>i. m (a + of_nat i)) [0..<16], unique_guid = map (\<lambda>i. m (a + 16 + of_nat i)) [0..<16],
      start_lba = ld64 m (a + 32), end_lba = ld64 m (a + 40), attributes = ld64 m (a + 48),
      gpt_name = map (\<lambda>i. m (a + 56 + of_nat i)) [0..<72]\<rparr>"

definition linux_fs_signature :: "u8 list" where
  "linux_fs_signature =
     [0xAF, 0x3D, 0xC6, 0x0F, 0x83, 0x84, 0x72, 0x47, 0x8E, 0x79, 0x3D, 0x69, 0xD8, 0x47, 0x7D, 0xE4]"

text \<open>The bytes of \<open>EFI PART\<close>.\<close>

definition GPT_SIGNATURE :: "u8 list" where
  "GPT_SIGNATURE = [0x45, 0x46, 0x49, 0x20, 0x50, 0x41, 0x52, 0x54]"

section \<open>Probing\<close>

definition determine_disk_type :: "'a pmm_scheme disk \<Rightarrow> 'a pmm_scheme \<Rightarrow> partition_style \<times> 'a pmm_scheme" where
  "determine_disk_type d s =
     (let (phys, s) = pmm_alloc_page s 4096;
          buffer = hhdm s + phys;
          (ok, s) = disk_read d buffer 1 1 s
      in if \<not> ok then (PARTITION_ERR, pmm_free s phys 1)
      else if map (\<lambda>i. ram s (buffer + of_nat i)) [0..<8] = GPT_SIGNATURE then (PARTITION_GPT, pmm_free s phys 1)
      else
      let (mbr_ok, s) = disk_read d buffer 0 1 s
      in if mbr_ok \<and> ram s (buffer + 510) = 0x55 \<and> ram s (buffer + 511) = 0xAA then (PARTITION_MBR, pmm_free s phys 1)
      else (PARTITION_ERR, pmm_free s phys 1))"

definition disk_selftest :: "'a pmm_scheme disk \<Rightarrow> 'a pmm_scheme \<Rightarrow> bool \<times> 'a pmm_scheme" where
  "disk_selftest d s =
     (let (phys, s) = pmm_alloc_page s 4096;
          buffer = hhdm s + phys;
          (ok, s) = disk_read d buffer 0 1 s
      in (ok, pmm_free s phys 1))"

section \<open>Mounting\<close>

type_synonym 'a mounting = "(u64 \<times> 'a fs) list \<times> mounts \<times> 'a pmm_scheme"

abbreviation (input) sizeof_ext2_partition :: u64 where "sizeof_ext2_partition \<equiv> 432"

text \<open>\<open>ext2_init\<close> on a freshly allocated partition, which is freed when mounting fails.\<close>

definition mount_at :: "u64 \<Rightarrow> 'a pmm_scheme disk \<Rightarrow> u64 \<Rightarrow> mounts \<times> 'a pmm_scheme \<Rightarrow> 'a mounting option" where
  "mount_at p d start ks = do {
     (ok, fs, k, s) \<leftarrow> ext2_init p d start ks;
     if ok then Some ([(p, fs)], k, s)
     else do {
       s \<leftarrow> kfree p s;
       Some ([], k, s)
     }
   }"

definition disk_try_linux :: "'a pmm_scheme disk \<Rightarrow> mounts \<times> 'a pmm_scheme \<Rightarrow> (bool \<times> 'a mounting) option" where
  "disk_try_linux d ks =
     (case ks of (k, s) \<Rightarrow> do {
        b \<leftarrow> bytes_to_blocks 1024 1024 (lba_size d);
        let (phys, s) = pmm_alloc_page s 4096;
        let buffer = hhdm s + phys;
        let (ok, s) = disk_read d buffer (res_lba b) (size_in_blocks b) s;
        if \<not> ok then Some (False, [], k, pmm_free s phys 1)
        else do {
          let is_ext2 = (s_magic (read_ext2_superblock (ram s) (buffer + res_offset b)) = EXT2_MAGIC);
          let s = pmm_free s phys 1;
          if \<not> is_ext2 then Some (False, [], k, s)
          else do {
            (p, s) \<leftarrow> kmalloc sizeof_ext2_partition s;
            if p = 0 then Some (False, [], k, s)
            else do {
              r \<leftarrow> mount_at p d 0 (k, s);
              Some (True, r)
            }
          }
        }
      })"

text \<open>Here the allocation of the partition is not checked: \<open>ext2_init\<close> would clear memory at address 0.\<close>

definition disk_do_mbr_linux :: "'a pmm_scheme disk \<Rightarrow> u64 \<Rightarrow> mounts \<times> 'a pmm_scheme \<Rightarrow> (bool \<times> 'a mounting) option" where
  "disk_do_mbr_linux d start ks =
     (case ks of (k, s) \<Rightarrow> do {
        b \<leftarrow> bytes_to_blocks 1024 1024 (lba_size d);
        let (phys, s) = pmm_alloc_page s 4096;
        let buffer = hhdm s + phys;
        let (ok, s) = disk_read d buffer (start + res_lba b) (size_in_blocks b) s;
        if \<not> ok then Some (False, [], k, pmm_free s phys 1)
        else do {
          let is_ext2 = (s_magic (read_ext2_superblock (ram s) (buffer + res_offset b)) = EXT2_MAGIC);
          let s = pmm_free s phys 1;
          if \<not> is_ext2 then Some (False, [], k, s)
          else do {
            (p, s) \<leftarrow> kmalloc sizeof_ext2_partition s;
            if p = 0 then None
            else do {
              r \<leftarrow> mount_at p d start (k, s);
              Some (True, r)
            }
          }
        }
      })"

text \<open>One entry of each kind of table, read from the buffer when its turn comes, and the loops over the tables.\<close>

definition gpt_step :: "'a pmm_scheme disk \<Rightarrow> u64 \<Rightarrow> nat \<Rightarrow> mounts \<times> 'a pmm_scheme \<Rightarrow> 'a mounting option" where
  "gpt_step d buffer i ks =
     (case ks of (k, s) \<Rightarrow>
        let entry = read_gpt_partition_entry (ram s) (buffer + 128 * of_nat i)
        in if guid entry = replicate 16 0 then Some ([], k, s)
           else if guid entry = linux_fs_signature then map_option snd (disk_do_mbr_linux d (start_lba entry) (k, s))
           else Some ([], k, s))"

definition mbr_step :: "'a pmm_scheme disk \<Rightarrow> u64 \<Rightarrow> nat \<Rightarrow> mounts \<times> 'a pmm_scheme \<Rightarrow> 'a mounting option" where
  "mbr_step d buffer i ks =
     (case ks of (k, s) \<Rightarrow>
        let entry = partitions (read_mbr_sector (ram s) buffer) ! i
        in if partition_type entry \<noteq> 0 \<and> partition_type entry = 0x83
           then map_option snd (disk_do_mbr_linux d (ucast (mbr_lba_start entry)) (k, s))
           else Some ([], k, s))"

fun mount_loop :: "(nat \<Rightarrow> mounts \<times> 'a pmm_scheme \<Rightarrow> 'a mounting option) \<Rightarrow> nat list \<Rightarrow> mounts \<times> 'a pmm_scheme \<Rightarrow> 'a mounting option" where
  "mount_loop step [] (k, s) = Some ([], k, s)"
| "mount_loop step (i # is) ks = do {
     (ms, ks) \<leftarrow> step i ks;
     (ms', ks) \<leftarrow> mount_loop step is ks;
     Some (ms @ ms', ks)
   }"

definition disk_gpt :: "'a pmm_scheme disk \<Rightarrow> mounts \<times> 'a pmm_scheme \<Rightarrow> 'a mounting option" where
  "disk_gpt d ks =
     (case ks of (k, s) \<Rightarrow> do {
        let (phys, s) = pmm_alloc_page s 4096;
        let buffer = hhdm s + phys;
        let lba1 = zero_lba1;
        let (_, s) = disk_read d buffer 1 1 s;
        (ms, k, s) \<leftarrow> mount_loop (gpt_step d buffer) [0..<unat (count_partitions lba1)] (k, s);
        Some (ms, k, pmm_free s phys 1)
      })"

definition disk_mbr :: "'a pmm_scheme disk \<Rightarrow> mounts \<times> 'a pmm_scheme \<Rightarrow> 'a mounting option" where
  "disk_mbr d ks =
     (case ks of (k, s) \<Rightarrow> do {
        let (phys, s) = pmm_alloc_page s 4096;
        let buffer = hhdm s + phys;
        let (_, s) = disk_read d buffer 0 1 s;
        (ms, k, s) \<leftarrow> mount_loop (mbr_step d buffer) [0..<4] (k, s);
        Some (ms, k, pmm_free s phys 1)
      })"

definition init_disk :: "'a pmm_scheme disk \<Rightarrow> mounts \<times> 'a pmm_scheme \<Rightarrow> 'a mounting option" where
  "init_disk d ks =
     (case ks of (k, s) \<Rightarrow>
        let (ok, s) = disk_selftest d s
        in if \<not> ok then Some ([], k, s)
        else
        let (style, s) = determine_disk_type d s
        in case style of
             PARTITION_MBR \<Rightarrow> disk_mbr d (k, s)
           | PARTITION_GPT \<Rightarrow> disk_gpt d (k, s)
           | _ \<Rightarrow> map_option snd (disk_try_linux d (k, s)))"

section \<open>What mounting leaves\<close>

text \<open>The routines that read leave the partition as it is: a lock that was free is free again.\<close>

named_theorems same_partition

lemma aquire_some: "spinlock_aquire l = Some l' \<Longrightarrow> \<not> l"
  by (cases l) auto

lemma lock_again: "\<not> lock fs \<Longrightarrow> fs\<lparr>lock := spinlock_release b\<rparr> = fs"
  by (cases fs) (simp add: spinlock_release_def)

lemma read_blocks_same [same_partition]: "ext2_read_blocks fs block buf s = Some (ok, fs', s') \<Longrightarrow> fs' = fs"
  by (auto simp: ext2_read_blocks_def Let_def lock_again dest!: aquire_some split: if_splits Option.bind_splits prod.splits)

lemma read_ptr_same [same_partition]: "ext2_read_ptr fs blk idx s = Some (r, fs', s') \<Longrightarrow> fs' = fs"
  by (auto simp: ext2_read_ptr_def Let_def lock_again dest!: aquire_some same_partition split: if_splits Option.bind_splits prod.splits)

lemma bmap_same [same_partition]: "ext2_bmap fs ino fb s = Some (r, fs', s') \<Longrightarrow> fs' = fs"
  by (auto simp: ext2_bmap_def Let_def dest!: same_partition split: if_splits Option.bind_splits prod.splits option.splits)

lemma read_inode_same [same_partition]: "ext2_read_inode fs ino s = Some (r, fs', s') \<Longrightarrow> fs' = fs"
  by (auto simp: ext2_read_inode_def Let_def lock_again dest!: aquire_some same_partition split: if_splits Option.bind_splits prod.splits)

lemma check_root_same [same_partition]: "ext2_check_root fs s = Some (ok, fs', s') \<Longrightarrow> fs' = fs"
  by (auto simp: ext2_check_root_def dest!: same_partition split: if_splits Option.bind_splits prod.splits option.splits)

lemma load_descs_same [same_partition]: "load_descs buf n t b i fs s = Some (ok, fs', s') \<Longrightarrow> fs' = fs"
proof (induction buf n t b i fs s rule: load_descs.induct)
  case (1 buf n t b i fs s)
  then show ?case
    by (subst (asm) (2) load_descs.simps) (auto simp: Let_def dest: same_partition split: if_splits option.splits)
qed

lemma read_superblock_fields:
  "ext2_read_superblock fs s = Some (True, fs', s') \<Longrightarrow> \<exists>b. fs' = fs\<lparr>sb := b\<rparr> \<and> s_magic b = EXT2_MAGIC"
  by (auto simp: ext2_read_superblock_def Let_def split: if_splits Option.bind_splits prod.splits)

lemma read_group_descs_fields:
  assumes "ext2_read_group_descs fs s = Some (True, fs', s')"
  shows "\<exists>p. p \<noteq> 0 \<and> fs' = fs\<lparr>groups := p\<rparr> \<and>
    check_descs (ram s') fs' ((s_inodes_per_group (sb fs) * inode_size fs + block_size fs - 1) div block_size fs) 0"
  using assms
  by (auto simp: ext2_read_group_descs_def Let_def dest!: same_partition split: if_splits Option.bind_splits prod.splits)

lemma fill_super_fields:
  assumes "ext2_fill_super fs s = Some (True, fs', s')"
  shows "\<exists>b p. s_magic b = EXT2_MAGIC \<and> ext2_validate_sb (fs\<lparr>sb := b\<rparr>) \<and> p \<noteq> 0 \<and>
    fs' = (ext2_compute_layout (fs\<lparr>sb := b\<rparr>))\<lparr>groups := p\<rparr>"
  using assms
  by (auto simp: ext2_fill_super_def Let_def
      dest!: same_partition read_superblock_fields read_group_descs_fields split: if_splits Option.bind_splits prod.splits)

text \<open>A partition as \<open>ext2_init\<close> leaves it when it has mounted.\<close>

definition mounted_on :: "'s disk \<Rightarrow> u64 \<Rightarrow> 's ext2_partition \<Rightarrow> bool" where
  "mounted_on d start fs \<longleftrightarrow>
     fs_disk fs = d \<and> lba_start fs = start \<and> s_magic (sb fs) = EXT2_MAGIC \<and> ext2_validate_sb fs \<and> ext2_compute_layout fs = fs \<and>
     groups fs \<noteq> 0 \<and> \<not> lock fs \<and> \<not> sb_dirty fs"

lemma validate_fields [simp]:
  "ext2_validate_sb (fs\<lparr>groups := p\<rparr>) = ext2_validate_sb fs" "ext2_validate_sb (ext2_compute_layout fs) = ext2_validate_sb fs"
  by (simp_all add: ext2_validate_sb_def ext2_compute_layout_def Let_def)

lemma layout_again [simp]: "ext2_compute_layout ((ext2_compute_layout fs)\<lparr>groups := p\<rparr>) = (ext2_compute_layout fs)\<lparr>groups := p\<rparr>"
  by (simp add: ext2_compute_layout_def Let_def)

lemma layout_keeps [simp]:
  "sb (ext2_compute_layout fs) = sb fs" "fs_disk (ext2_compute_layout fs) = fs_disk fs" "lba_start (ext2_compute_layout fs) = lba_start fs"
  "lock (ext2_compute_layout fs) = lock fs" "sb_dirty (ext2_compute_layout fs) = sb_dirty fs"
  by (simp_all add: ext2_compute_layout_def Let_def)

lemma ext2_init_fields:
  assumes "ext2_init p d start (k, s) = Some (ok, fs, k', s')"
  shows "if ok then mounted_on d start fs \<and> length (ext2_partitions k) < 8 \<and>
      k' = k\<lparr>ext2_partitions := ext2_partitions k @ [p], root_fs := (if root_fs k = 0 then p else root_fs k)\<rparr>
    else k' = k"
  using assms
  by (auto simp: ext2_init_def mounted_on_def zero_partition_def Let_def
      dest!: fill_super_fields split: if_splits Option.bind_splits prod.splits)

section \<open>The table of mounted partitions\<close>

text \<open>At most eight partitions, none at address 0, and the root file system is the first of them.\<close>

definition mounts_ok :: "mounts \<Rightarrow> bool" where
  "mounts_ok k \<longleftrightarrow> length (ext2_partitions k) \<le> 8 \<and> 0 \<notin> set (ext2_partitions k) \<and>
     root_fs k = (case ext2_partitions k of [] \<Rightarrow> 0 | p # _ \<Rightarrow> p)"

text \<open>What a routine that mounts partitions of a disk does to the table.\<close>

definition mounts_of :: "'a pmm_scheme disk \<Rightarrow> mounts \<Rightarrow> 'a mounting \<Rightarrow> bool" where
  "mounts_of d k r \<longleftrightarrow> (case r of (ms, k', s') \<Rightarrow>
     (mounts_ok k \<longrightarrow> mounts_ok k') \<and> ext2_partitions k' = ext2_partitions k @ map fst ms \<and>
     list_all (\<lambda>(p, fs). \<exists>start. mounted_on d start fs) ms)"

lemma mounts_of_none [simp]: "mounts_of d k ([], k, s)"
  by (simp add: mounts_of_def)

lemma mounts_of_append: "mounts_of d k (ms, k', s') \<Longrightarrow> mounts_of d k' (ms', k'', s'') \<Longrightarrow> mounts_of d k (ms @ ms', k'', s'')"
  by (auto simp: mounts_of_def)

lemma mount_at_mounts: "p \<noteq> 0 \<Longrightarrow> mount_at p d start (k, s) = Some r \<Longrightarrow> mounts_of d k r"
  by (auto simp: mount_at_def mounts_of_def mounts_ok_def dest!: ext2_init_fields split: if_splits Option.bind_splits list.splits)

lemma disk_do_mbr_linux_mounts: "disk_do_mbr_linux d start (k, s) = Some (b, r) \<Longrightarrow> mounts_of d k r"
  by (auto simp: disk_do_mbr_linux_def Let_def dest: mount_at_mounts split: if_splits Option.bind_splits prod.splits)

lemma disk_try_linux_mounts: "disk_try_linux d (k, s) = Some (b, r) \<Longrightarrow> mounts_of d k r"
  by (auto simp: disk_try_linux_def Let_def dest: mount_at_mounts split: if_splits Option.bind_splits prod.splits)

lemma mount_loop_mounts:
  assumes "\<And>i k s r. step i (k, s) = Some r \<Longrightarrow> mounts_of d k r"
  shows "mount_loop step is (k, s) = Some r \<Longrightarrow> mounts_of d k r"
proof (induction "is" arbitrary: k s r)
  case (Cons i "is")
  then obtain ms k' s' ms' ks'' where 1: "step i (k, s) = Some (ms, k', s')"
    and 2: "mount_loop step is (k', s') = Some (ms', ks'')" and r: "r = (ms @ ms', ks'')"
    by (auto split: Option.bind_splits)
  show ?case using mounts_of_append[of d k ms k' s' ms' "fst ks''" "snd ks''"] assms[OF 1] Cons.IH[OF 2] by (simp add: r)
qed simp

lemma mbr_step_mounts: "mbr_step d buffer i (k, s) = Some r \<Longrightarrow> mounts_of d k r"
  by (auto simp: mbr_step_def Let_def dest: disk_do_mbr_linux_mounts split: if_splits)

lemma mounts_of_state: "mounts_of d k (ms, k', s') \<Longrightarrow> mounts_of d k (ms, k', s'')"
  by (simp add: mounts_of_def)

lemma disk_mbr_mounts:
  assumes "disk_mbr d (k, s) = Some r"
  shows "mounts_of d k r"
proof -
  obtain phys s1 where 1: "pmm_alloc_page s 4096 = (phys, s1)" by (cases "pmm_alloc_page s 4096")
  obtain ok s2 where 2: "disk_read d (hhdm s1 + phys) 0 1 s1 = (ok, s2)" by (cases "disk_read d (hhdm s1 + phys) 0 1 s1")
  obtain ms k' s' where "mount_loop (mbr_step d (hhdm s1 + phys)) [0..<4] (k, s2) = Some (ms, k', s')"
    and r: "r = (ms, k', pmm_free s' phys 1)"
    using assms by (auto simp: disk_mbr_def 1 2 Let_def split: Option.bind_splits)
  from mount_loop_mounts[OF mbr_step_mounts this(1)] show ?thesis unfolding r by (rule mounts_of_state)
qed

text \<open>
  A partition table in the GPT format mounts nothing, whatever the disk holds: the number of entries comes from a header that is
  never filled from the sector that was read.
\<close>

lemma disk_gpt_mounts_nothing:
  "disk_gpt d (k, s) =
     (case pmm_alloc_page s 4096 of (phys, s1) \<Rightarrow> Some ([], k, pmm_free (snd (disk_read d (hhdm s1 + phys) 1 1 s1)) phys 1))"
  by (simp add: disk_gpt_def zero_lba1_def Let_def split: prod.splits)

text \<open>
  C37. What \<open>init_disk\<close> does to the table of mounted file systems: it appends the partitions that it mounts, the table never has more than
  eight entries nor a null one, and its first entry is the root file system; and every partition that is mounted belongs
  to the disk, has the magic number, passed the validation of its superblock, has the layout of that
  superblock, a table of group descriptors, and its lock free.
\<close>

theorem init_disk_mounts:
  assumes "mounts_ok k" and "init_disk d (k, s) = Some (ms, k', s')"
  shows "mounts_ok k' \<and> ext2_partitions k' = ext2_partitions k @ map fst ms \<and>
    (\<forall>(p, fs) \<in> set ms. \<exists>start. mounted_on d start fs)"
proof -
  have "mounts_of d k (ms, k', s')"
    using assms(2)
    by (auto simp: init_disk_def Let_def disk_gpt_def zero_lba1_def dest: disk_mbr_mounts disk_try_linux_mounts
        split: if_splits prod.splits partition_style.splits)
  then show ?thesis using assms(1) by (auto simp: mounts_of_def list_all_iff)
qed

section \<open>A disk with one file system\<close>

text \<open>A disk without partition table, whose sectors 2, 4 and 10 hold a superblock, a group descriptor and the inode of the root
  directory. A transfer fills the page at 0x80002000 and clears the rest of memory, except for the byte of the page bitmap.\<close>

definition ex_image :: "u64 \<Rightarrow> mem" where
  "ex_image lba = (let m = (\<lambda>_. 0)(0x80001000 := 0x35)
     in if lba = 2 then m(0x80002000 := 16, 0x80002004 := 100, 0x80002014 := 1, 0x80002021 := 0x20, 0x80002028 := 16,
                          0x80002038 := 0x53, 0x80002039 := 0xEF)
        else if lba = 4 then m(0x80002000 := 3, 0x80002004 := 4, 0x80002008 := 5)
        else if lba = 10 then m(0x80002081 := 0x40, 0x80002084 := 1, 0x8000209A := 2, 0x800020A8 := 7)
        else m)"

definition ex_ext2_disk :: "'a pmm_scheme disk" where
  "ex_ext2_disk = \<lparr>lba_size = 512, disk_size = 0, disk_read = (\<lambda>buf lba n s. (True, s\<lparr>ram := ex_image lba\<rparr>)),
     disk_write = (\<lambda>buf lba n s. (False, s))\<rparr>"

definition ex_kernel :: pmm where
  "ex_kernel = ex_pmm\<lparr>heap := 0x100000, brk := 0x100000, endp := 0x1100000\<rparr>"

lemma ex_disk_fields [simp]: "lba_size ex_ext2_disk = 512" "disk_read ex_ext2_disk buf lba n s = (True, s\<lparr>ram := ex_image lba\<rparr>)"
  by (simp_all add: ex_ext2_disk_def)

lemma ex_image_bitmap [simp]: "ex_image lba 0x80001000 = 0x35"
  by (simp add: ex_image_def Let_def)

text \<open>States whose pages are those of \<open>ex_pmm\<close>, with the first free page at 0x2000.\<close>

definition ex_pages :: "pmm \<Rightarrow> bool" where
  "ex_pages s \<longleftrightarrow> ram s 0x80001000 = 0x35 \<and> hhdm s = 0x80000000 \<and> physical_base s = 0x1000 \<and> bitmap s = 0x80001000 \<and> total_pages s = 16"

lemma ex_pages_image [simp]: "ex_pages s \<Longrightarrow> ex_pages (s\<lparr>ram := ex_image lba\<rparr>)"
  by (simp add: ex_pages_def)

lemma ex_pages_alloc:
  assumes "ex_pages s"
  shows "pmm_alloc_page s 4096 = (0x2000, s\<lparr>ram := (ram s)(0x80001000 := 0x37)\<rparr>)"
proof -
  have 0: "BITMAP_TEST (ram s) 0x80001000 0" and 1: "\<not> BITMAP_TEST (ram s) 0x80001000 1"
    using assms by (simp_all add: ex_pages_def BITMAP_TEST_def)
  have "run_end (ram s) 0x80001000 (Suc 0) (Suc (Suc 0)) 16 = Suc (Suc 0)"
    using 1 by (simp add: run_end.simps[of _ _ "Suc 0"] run_end.simps[of _ _ "Suc (Suc 0)"])
  then have "find_run (ram s) 0x80001000 1 0 16 = Some 1"
    using 0 1 by (simp add: find_run.simps[of _ _ _ 0] find_run.simps[of _ _ _ "Suc 0"])
  moreover have "bitmap_set_range (ram s) 0x80001000 (Suc 0) (Suc (Suc 0)) = (ram s)(0x80001000 := 0x37)"
    using assms by (simp add: bitmap_set_range.simps BITMAP_SET_def ex_pages_def)
  ultimately show ?thesis using assms by (simp add: pmm_alloc_page_def ex_pages_def)
qed

lemma ex_pages_free:
  assumes "ex_pages s"
  shows "pmm_free s 0x2000 1 = s"
proof -
  have "bitmap_clear_range (ram s) 0x80001000 1 2 = ram s"
    using assms by (simp add: bitmap_clear_range.simps BITMAP_CLEAR_def ex_pages_def fun_upd_idem)
  then show ?thesis using assms by (simp add: pmm_free_def ex_pages_def)
qed


text \<open>The two allocations on the heap.\<close>

lemmas heap_defs = kmalloc_def extend_heap_def sbrk_def align4_def Let_def set_size_def set_free_def set_next_def set_prev_def set_ptr_def

lemma ex_first_block:
  assumes "base s = 0" and "brk s = 0x100000" and "endp s = 0x1100000"
  shows "\<exists>m. kmalloc 432 s = Some (0x100028, s\<lparr>brk := 0x1001D8, base := 0x100000, ram := m\<rparr>) \<and> m 0x80001000 = ram s 0x80001000"
  by (rule exI[of _ "ram (snd (the (kmalloc 432 s)))"]) (use assms in \<open>cases s, simp add: heap_defs stn_def\<close>)

lemma ex_second_block:
  assumes "base s = 0x100000" and "brk s = 0x1001D8" and "endp s = 0x1100000"
    and "mb_free (block_at (ram s) 0x100000) = 0" and "mb_next (block_at (ram s) 0x100000) = 0"
  shows "\<exists>m. kmalloc 32 s = Some (0x100200, s\<lparr>brk := 0x100220, ram := m\<rparr>) \<and> m 0x80001000 = ram s 0x80001000"
proof -
  have "find_block (ram s) 0x100000 0x100000 32 = Some (0, 0x100000)"
    using assms(4,5) by (simp add: find_block.simps[of _ "0x100000"] find_block.simps[of _ 0])
  then show ?thesis
    by (intro exI[of _ "ram (snd (the (kmalloc 32 s)))"]) (use assms in \<open>cases s, simp add: heap_defs stn_def\<close>)
qed

text \<open>What the sectors hold.\<close>

definition ex_super :: ext2_superblock where
  "ex_super = read_ext2_superblock (ex_image 2) 0x80002000"

lemma ex_super_fields [simp]:
  "s_magic ex_super = 0xEF53" "s_inodes_count ex_super = 16" "s_blocks_count ex_super = 100" "s_first_data_block ex_super = 1"
  "s_log_block_size ex_super = 0" "s_blocks_per_group ex_super = 8192" "s_inodes_per_group ex_super = 16" "s_revision ex_super = 0"
  "s_feature_incompat ex_super = 0"
  by (simp_all add: ex_super_def read_ext2_superblock_def ex_image_def ldn_numeral)

definition ex_mount :: "u64 \<Rightarrow> 'a fs" where
  "ex_mount p = (ext2_compute_layout ((zero_partition ex_ext2_disk 0)\<lparr>io_buf := 0x80002000, sb := ex_super\<rparr>))\<lparr>groups := p\<rparr>"

lemma ex_mount_fields [simp]:
  "block_size (ex_mount p) = 1024" "inode_size (ex_mount p) = 128" "group_count (ex_mount p) = 1" "sb (ex_mount p) = ex_super"
  "fs_disk (ex_mount p) = ex_ext2_disk" "lba_start (ex_mount p) = 0" "groups (ex_mount p) = p" "io_buf (ex_mount p) = 0x80002000"
  "lock (ex_mount p) = False" "ex_mount p\<lparr>groups := q\<rparr> = ex_mount q"
  by (simp_all add: ex_mount_def ext2_compute_layout_def zero_partition_def Let_def)

lemma ex_blocks: "bytes_to_blocks 1024 1024 512 = Some \<lparr>res_lba = 2, size_in_blocks = 2, res_offset = 0\<rparr>"
  "bytes_to_blocks 2048 1024 512 = Some \<lparr>res_lba = 4, size_in_blocks = 2, res_offset = 0\<rparr>"
  "bytes_to_blocks 5120 1024 512 = Some \<lparr>res_lba = 10, size_in_blocks = 2, res_offset = 0\<rparr>"
  by (simp_all add: bytes_to_blocks_def ALIGNDOWN_def ALIGNUP_def)

lemma ex_read_blocks:
  "ext2_read_blocks (ex_mount p) 2 buf s = Some (True, ex_mount p, s\<lparr>ram := ex_image 4\<rparr>)"
  "ext2_read_blocks (ex_mount p\<lparr>lock := l\<rparr>) 5 buf s = Some (True, ex_mount p\<lparr>lock := l\<rparr>, s\<lparr>ram := ex_image 10\<rparr>)"
  by (simp_all add: ext2_read_blocks_def ex_blocks)

lemma ex_validated: "ext2_validate_sb ((zero_partition ex_ext2_disk 0)\<lparr>io_buf := b, sb := ex_super\<rparr>)"
  by (simp add: ext2_validate_sb_def zero_partition_def Let_def) (simp add: word_le_nat_alt)?

lemma ex_load:
  "load_descs buf 32 1 2 0 (ex_mount p) s = Some (True, ex_mount p, s\<lparr>ram := memcpy (ex_image 4) p buf 32\<rparr>)"
  by (simp add: load_descs.simps[of _ _ _ _ 0] load_descs.simps[of _ _ _ _ 1] ex_read_blocks)

definition ex_descs :: mem where
  "ex_descs = copied (ex_image 4) 0x100200 0x80002000 32"

lemma ex_descs: "memcpy (ex_image 4) 0x100200 0x80002000 32 = ex_descs"
  unfolding ex_descs_def by (subst memcpy_spec) simp_all

lemma ex_desc_fields:
  "bg_block_bitmap (read_ext2_group_desc ex_descs 0x100200) = 3" "bg_inode_bitmap (read_ext2_group_desc ex_descs 0x100200) = 4"
  "bg_inode_table (read_ext2_group_desc ex_descs 0x100200) = 5" "ex_descs 0x80001000 = 0x35"
  by (simp_all add: read_ext2_group_desc_def ex_descs_def copied_def ex_image_def ldn_numeral)

lemma ex_check: "check_descs ex_descs (ex_mount 0x100200) 2 0"
  by (simp add: check_descs.simps[of _ _ _ 0] check_descs.simps[of _ _ _ 1] group_desc_ok_def ex_desc_fields)

lemma ex_read_descs:
  assumes "ex_pages s" and "base s = 0x100000" and "brk s = 0x1001D8" and "endp s = 0x1100000" and "ram s = ex_image 2"
  shows "ext2_read_group_descs (ex_mount p) s = Some (True, ex_mount 0x100200, s\<lparr>brk := 0x100220, ram := ex_descs\<rparr>)"
proof -
  have "mb_free (block_at (ram s) 0x100000) = 0" "mb_next (block_at (ram s) 0x100000) = 0"
    by (simp_all add: assms(5) block_at_def ex_image_def ldn_numeral)
  from ex_second_block[OF assms(2-4) this] obtain m where m: "kmalloc 32 s = Some (0x100200, s\<lparr>brk := 0x100220, ram := m\<rparr>)"
    "m 0x80001000 = ram s 0x80001000" by blast
  have p: "ex_pages (s\<lparr>brk := 0x100220, ram := m\<rparr>)" "ex_pages (s\<lparr>brk := 0x100220, ram := ex_descs\<rparr>)"
    using assms(1) m(2) by (simp_all add: ex_pages_def ex_desc_fields)
  have h: "hhdm s = 0x80000000" using assms(1) by (simp add: ex_pages_def)
  show ?thesis
    using m(1) ex_pages_free[OF p(2)]
    by (simp add: ext2_read_group_descs_def ex_pages_alloc[OF p(1)] Let_def ex_load ex_descs ex_check h)
qed

lemma ex_root:
  assumes "ram s = ex_descs"
  shows "ext2_check_root (ex_mount 0x100200) s = Some (True, ex_mount 0x100200, s\<lparr>ram := ex_image 10\<rparr>)"
proof -
  let ?root = "copy_inode (ex_image 10) 0x80002080 128"
  have i: "i_mode ?root = 0x4000" "i_size ?root = 1" "i_links_count ?root = 2"
    by (simp_all add: copy_inode_def read_ext2_inode_def ex_image_def ldn_numeral)
  have r: "ext2_read_inode (ex_mount 0x100200) 2 s = Some (Some ?root, ex_mount 0x100200, s\<lparr>ram := ex_image 10\<rparr>)"
    using assms by (simp add: ext2_read_inode_def ext2_get_group_desc_def ex_desc_fields Let_def ex_read_blocks lock_again)
  show ?thesis by (simp add: ext2_check_root_def r i ext2_bmap_def)
qed

lemma ex_init:
  assumes "ex_pages s" and "base s = 0x100000" and "brk s = 0x1001D8" and "endp s = 0x1100000"
  shows "ext2_init p ex_ext2_disk 0 (\<lparr>ext2_partitions = [], root_fs = 0\<rparr>, s) =
    Some (True, ex_mount 0x100200, \<lparr>ext2_partitions = [p], root_fs = p\<rparr>, s\<lparr>brk := 0x100220, ram := ex_image 10\<rparr>)"
proof -
  let ?s = "s\<lparr>ram := ex_image 2\<rparr>" and ?fs = "(zero_partition ex_ext2_disk 0)\<lparr>io_buf := 0x80002000\<rparr>"
  have sb: "ext2_read_superblock ?fs (s\<lparr>ram := m\<rparr>) = Some (True, ?fs\<lparr>sb := ex_super\<rparr>, ?s)" for m
    by (simp add: ext2_read_superblock_def zero_partition_def ex_blocks ex_super_def[symmetric])
  have lay: "ext2_compute_layout (?fs\<lparr>sb := ex_super\<rparr>) = ex_mount 0" by (simp add: ex_mount_def ext2_compute_layout_def zero_partition_def Let_def)
  have d: "ext2_read_group_descs (ex_mount 0) ?s = Some (True, ex_mount 0x100200, s\<lparr>brk := 0x100220, ram := ex_descs\<rparr>)"
    using ex_read_descs[of ?s] assms by simp
  have "ext2_fill_super ?fs (s\<lparr>ram := m\<rparr>) = Some (True, ex_mount 0x100200, s\<lparr>brk := 0x100220, ram := ex_image 10\<rparr>)" for m
    by (simp add: ext2_fill_super_def sb ex_validated lay d ex_root)
  moreover have "hhdm s = 0x80000000" using assms(1) by (simp add: ex_pages_def)
  ultimately show ?thesis using ex_pages_alloc[OF assms(1)] by (simp add: ext2_init_def Let_def)
qed

lemma ex_probe:
  assumes "ex_pages s"
  shows "disk_selftest ex_ext2_disk s = (True, s\<lparr>ram := ex_image 0\<rparr>)"
    "determine_disk_type ex_ext2_disk s = (PARTITION_ERR, s\<lparr>ram := ex_image 0\<rparr>)"
proof -
  note a = ex_pages_alloc[OF assms] ex_pages_free[OF ex_pages_image[OF assms]]
  have h: "hhdm s = 0x80000000" using assms by (simp add: ex_pages_def)
  show "disk_selftest ex_ext2_disk s = (True, s\<lparr>ram := ex_image 0\<rparr>)" by (simp add: disk_selftest_def a)
  have "ex_image 1 0x80002000 \<noteq> 0x45" "ex_image 0 0x800021FE = 0" by (simp_all add: ex_image_def)
  then show "determine_disk_type ex_ext2_disk s = (PARTITION_ERR, s\<lparr>ram := ex_image 0\<rparr>)"
    by (simp add: determine_disk_type_def a h GPT_SIGNATURE_def upt_rec)
qed

lemma ex_linux:
  assumes "ex_pages s" and "base s = 0" and "brk s = 0x100000" and "endp s = 0x1100000"
  shows "disk_try_linux ex_ext2_disk (\<lparr>ext2_partitions = [], root_fs = 0\<rparr>, s) =
    Some (True, [(0x100028, ex_mount 0x100200)], \<lparr>ext2_partitions = [0x100028], root_fs = 0x100028\<rparr>,
      s\<lparr>brk := 0x100220, base := 0x100000, ram := ex_image 10\<rparr>)"
proof -
  let ?s = "s\<lparr>ram := ex_image 2\<rparr>"
  have h: "hhdm s = 0x80000000" using assms by (simp add: ex_pages_def)
  obtain m where m: "kmalloc 432 ?s = Some (0x100028, s\<lparr>brk := 0x1001D8, base := 0x100000, ram := m\<rparr>)" "m 0x80001000 = 0x35"
    using ex_first_block[of ?s] assms by auto
  let ?t = "s\<lparr>brk := 0x1001D8, base := 0x100000, ram := m\<rparr>"
  have "ext2_init 0x100028 ex_ext2_disk 0 (\<lparr>ext2_partitions = [], root_fs = 0\<rparr>, ?t) =
      Some (True, ex_mount 0x100200, \<lparr>ext2_partitions = [0x100028], root_fs = 0x100028\<rparr>, ?t\<lparr>brk := 0x100220, ram := ex_image 10\<rparr>)"
    by (rule ex_init) (use assms m(2) in \<open>simp_all add: ex_pages_def\<close>)
  then show ?thesis
    using m(1) ex_pages_free[OF ex_pages_image[OF assms(1)]]
    by (simp add: disk_try_linux_def ex_pages_alloc[OF assms(1)] ex_blocks h ex_super_def[symmetric] mount_at_def Let_def)
qed

theorem init_disk_mounts_witness:
  "\<exists>s'. init_disk ex_ext2_disk (\<lparr>ext2_partitions = [], root_fs = 0\<rparr>, ex_kernel) =
      Some ([(0x100028, ex_mount 0x100200)], \<lparr>ext2_partitions = [0x100028], root_fs = 0x100028\<rparr>, s') \<and>
    mounts_ok \<lparr>ext2_partitions = [0x100028], root_fs = 0x100028\<rparr> \<and> (\<exists>start. mounted_on ex_ext2_disk start (ex_mount 0x100200 :: unit fs))"
proof -
  have k: "ex_pages ex_kernel" "base ex_kernel = 0" "brk ex_kernel = 0x100000" "endp ex_kernel = 0x1100000"
    by (simp_all add: ex_pages_def ex_kernel_def ex_pmm_def)
  let ?k = "\<lparr>ext2_partitions = [], root_fs = 0\<rparr>" and ?s = "ex_kernel\<lparr>ram := ex_image 0\<rparr>"
  have p: "ex_pages ?s" using k(1) by simp
  obtain s' where "init_disk ex_ext2_disk (?k, ex_kernel) =
      Some ([(0x100028, ex_mount 0x100200)], \<lparr>ext2_partitions = [0x100028], root_fs = 0x100028\<rparr>, s')"
    using ex_linux[OF p] k by (simp add: init_disk_def ex_probe[OF k(1)] ex_probe[OF p])
  moreover from init_disk_mounts[OF _ this] have "mounts_ok \<lparr>ext2_partitions = [0x100028], root_fs = 0x100028\<rparr>"
    "\<exists>start. mounted_on ex_ext2_disk start (ex_mount 0x100200 :: unit fs)" by (auto simp: mounts_ok_def)
  ultimately show ?thesis by blast
qed

end
