(* ===== verification/Nvme.thy ===== *)
theory Nvme
  imports Disk Pci Timer
begin

text \<open>
  The NVMe driver (\<^verbatim>\<open>drivers/x86/nvme.c\<close>, \<^verbatim>\<open>include/nvme.h\<close>). Controllers and queues are records; the commands and completions that the
  controller exchanges with the driver lie in memory. The controller is a parameter with two parts: \<open>dev\<close>
  answers the reads of its registers, and \<open>dma\<close> says what it has written to memory when the driver looks at a completion
  queue, at the barrier before the look. Both may depend on everything that happened before, which the trace records. A loop that
  never ends, a null pointer that is used and an index outside its array are \<^const>\<open>None\<close>. Messages on the console are left out.
\<close>

section \<open>Structures\<close>

record nvme_queue =
  q_address :: u64
  q_size :: u64

record nvme_lbaf =
  lbaf_ms :: u16
  lbaf_ds :: u8
  lbaf_rp :: u8

record nvme_command =
  cdw0 :: u32
  cmd_nsid :: u32
  cmd_reserved :: "u32 list"
  metadata :: u64
  prp1 :: u64
  prp2 :: u64
  cdw10 :: u32
  cdw11_15 :: "u32 list"

definition zero_command :: nvme_command where
  "zero_command = \<lparr>cdw0 = 0, cmd_nsid = 0, cmd_reserved = [0, 0], metadata = 0, prp1 = 0, prp2 = 0, cdw10 = 0, cdw11_15 = [0, 0, 0, 0, 0]\<rparr>"

definition bytes_nvme_command :: "nvme_command \<Rightarrow> u8 list" where
  "bytes_nvme_command c =
     le 4 (cdw0 c) @ le 4 (cmd_nsid c) @ concat (map (le 4) (cmd_reserved c)) @ le 8 (metadata c) @ le 8 (prp1 c) @ le 8 (prp2 c) @
     le 4 (cdw10 c) @ concat (map (le 4) (cdw11_15 c))"

record nvme_completion =
  cpl_result :: u32
  cpl_reserved :: u32
  cpl_sq_head :: u16
  cpl_sq_id :: u16
  cpl_command_id :: u16
  cpl_status :: u16

definition read_nvme_completion :: "mem \<Rightarrow> u64 \<Rightarrow> nvme_completion" where
  "read_nvme_completion m a =
     \<lparr>cpl_result = ld32 m a, cpl_reserved = ld32 m (a + 4), cpl_sq_head = ld16 m (a + 8), cpl_sq_id = ld16 m (a + 10),
      cpl_command_id = ld16 m (a + 12), cpl_status = ld16 m (a + 14)\<rparr>"

text \<open>Of the data about a namespace, the fields that the driver reads.\<close>

record nvme_id_ns =
  nsze :: u64
  nlbaf :: u8
  flbas :: u8
  lbaf :: "nvme_lbaf list"

definition read_nvme_id_ns :: "mem \<Rightarrow> u64 \<Rightarrow> nvme_id_ns" where
  "read_nvme_id_ns m a =
     \<lparr>nsze = ld64 m a, nlbaf = m (a + 25), flbas = m (a + 26),
      lbaf = map (\<lambda>i. \<lparr>lbaf_ms = ld16 m (a + 128 + 4 * of_nat i), lbaf_ds = m (a + 130 + 4 * of_nat i), lbaf_rp = m (a + 131 + 4 * of_nat i)\<rparr>)
               [0..<16]\<rparr>"

record nvme_namespace =
  ns_nsid :: u32
  ns_size :: u64
  ns_lba_size :: u32
  ns_lba_shift :: u16
  ns_valid :: bool
  ns_data :: u64

record nvme_pair_queue =
  sq :: nvme_queue
  cq :: nvme_queue
  sq_tail :: u64
  cq_head :: u64
  phase :: u8
  qid :: u8
  sq_doorbell :: u64
  cq_doorbell :: u64
  pq_lock :: spinlock

text \<open>The queue that \<open>main_io_queue\<close> points to is part of the record; \<^const>\<open>None\<close> is the null pointer.\<close>

record nvme_controller =
  ctrl_bar0 :: u64
  stride :: u32
  page_size :: u32
  max_queue_entries :: u16
  admin_sq :: nvme_queue
  admin_cq :: nvme_queue
  admin_sq_tail :: u64
  admin_cq_head :: u64
  admin_phase :: u8
  main_io_queue :: "nvme_pair_queue option"
  namespaces :: "nvme_namespace list"
  num_namespaces :: u32
  mpsmin :: u8
  identify :: u64

definition zero_controller :: nvme_controller where
  "zero_controller =
     \<lparr>ctrl_bar0 = 0, stride = 0, page_size = 0, max_queue_entries = 0, admin_sq = \<lparr>q_address = 0, q_size = 0\<rparr>,
      admin_cq = \<lparr>q_address = 0, q_size = 0\<rparr>, admin_sq_tail = 0, admin_cq_head = 0, admin_phase = 0, main_io_queue = None,
      namespaces = replicate 256 \<lparr>ns_nsid = 0, ns_size = 0, ns_lba_size = 0, ns_lba_shift = 0, ns_valid = False, ns_data = 0\<rparr>,
      num_namespaces = 0, mpsmin = 0, identify = 0\<rparr>"

text \<open>
  The state: memory with its allocators and page tables, the tick counter, the controllers by their addresses, the
  counter of queue identifiers, and the kernel's table of controllers.
\<close>

record nvm = vmm +
  kapic :: apic
  ctrls :: "u64 \<Rightarrow> nvme_controller"
  nvme_qid_ptr :: u8
  nvme_controllers :: "u64 list"
  nvme_controller_ptr :: nat
  nvme_subsystem_initialized :: bool

record 's nvme_env =
  dev :: device
  dma :: "'s \<Rightarrow> 's"
  ticks :: "io list \<Rightarrow> nat \<Rightarrow> nat"

type_synonym 'a nenv = "'a nvm_scheme nvme_env"

section \<open>Registers and time\<close>

definition nvme_read32 :: "'a nenv \<Rightarrow> nvme_controller \<Rightarrow> u32 \<Rightarrow> 'a nvm_scheme \<Rightarrow> u32 \<times> 'a nvm_scheme" where
  "nvme_read32 env ctrl offset s = (let (v, s) = io_in (dev env) (Rd32 (ctrl_bar0 ctrl + ucast offset)) s in (ucast v, s))"

definition nvme_write32 :: "nvme_controller \<Rightarrow> u32 \<Rightarrow> u32 \<Rightarrow> 'a nvm_scheme \<Rightarrow> 'a nvm_scheme" where
  "nvme_write32 ctrl offset val s = io_out (Wr32 (ctrl_bar0 ctrl + ucast offset) val) s"

definition nvme_read64 :: "'a nenv \<Rightarrow> nvme_controller \<Rightarrow> u32 \<Rightarrow> 'a nvm_scheme \<Rightarrow> u64 \<times> 'a nvm_scheme" where
  "nvme_read64 env ctrl offset s = io_in (dev env) (Rd64 (ctrl_bar0 ctrl + ucast offset)) s"

definition nvme_write64 :: "nvme_controller \<Rightarrow> u32 \<Rightarrow> u64 \<Rightarrow> 'a nvm_scheme \<Rightarrow> 'a nvm_scheme" where
  "nvme_write64 ctrl offset val s = io_out (Wr64 (ctrl_bar0 ctrl + ucast offset) val) s"

text \<open>A call of \<open>sleep\<close>, during which the timer interrupts of \<open>ticks\<close> arrive.\<close>

definition nvme_sleep :: "'a nenv \<Rightarrow> u64 \<Rightarrow> 'a nvm_scheme \<Rightarrow> 'a nvm_scheme option" where
  "nvme_sleep env n s = map_option (\<lambda>(s, k). s\<lparr>kapic := k\<rparr>) (sleep (ticks env (trace s)) n (s, kapic s))"

section \<open>Transfers\<close>

text \<open>The physical pages of the buffer from page \<open>i\<close> on, stored in the list at \<open>lst\<close>; the failure is a page that is not mapped.\<close>

fun prp_list :: "u64 \<Rightarrow> u64 \<Rightarrow> nat list \<Rightarrow> 'a nvm_scheme \<Rightarrow> bool \<times> 'a nvm_scheme" where
  "prp_list buffer lst [] s = (True, s)"
| "prp_list buffer lst (i # is) s =
     (let page = getPhysicalAddress s (buffer + of_nat i * 4096)
      in if page = 0 then (False, s)
         else prp_list buffer lst is (s\<lparr>ram := st64 (ram s) (lst + 8 * of_nat (i - 1)) page\<rparr>))"

definition nvme_send_io ::
  "nvme_pair_queue \<Rightarrow> u8 \<Rightarrow> u32 \<Rightarrow> u64 \<Rightarrow> u64 \<Rightarrow> u16 \<Rightarrow> u64 \<Rightarrow> 'a nvm_scheme \<Rightarrow> nvme_pair_queue \<times> 'a nvm_scheme" where
  "nvme_send_io queue opcode nsid buffer lba num_blocks transfer_bytes s =
     (let cmd = zero_command\<lparr>cdw0 := ucast opcode, cmd_nsid := nsid, cdw10 := ucast lba,
                  cdw11_15 := [ucast (drop_bit 32 lba), ucast num_blocks - 1, 0, 0, 0]\<rparr>;
          data_phys = getPhysicalAddress s buffer
      in if data_phys = 0 then (queue, s)
      else
      let cmd = cmd\<lparr>prp1 := data_phys\<rparr>;
          num_pages = (transfer_bytes + 4096 - 1) div 4096;
          (ok, cmd, s) =
            (if num_pages = 1 then (True, cmd, s)
             else if num_pages = 2
             then (let second = getPhysicalAddress s (buffer + 4096) in (second \<noteq> 0, cmd\<lparr>prp2 := second\<rparr>, s))
             else let (list_phys, s) = pmm_alloc_page s 4096;
                      (ok, s) = prp_list buffer (hhdm s + list_phys) [1..<unat num_pages] s
                  in if ok then (True, cmd\<lparr>prp2 := list_phys\<rparr>, s) else (False, cmd, pmm_free s list_phys 1))
      in if \<not> ok then (queue, s)
      else
      let s = s\<lparr>ram := store_bytes (ram s) (hhdm s + q_address (sq queue) + 64 * sq_tail queue) (bytes_nvme_command cmd)\<rparr>;
          queue = queue\<lparr>sq_tail := (sq_tail queue + 1) mod (q_size (sq queue) + 1)\<rparr>
      in (queue, io_out (Wr32 (sq_doorbell queue) (ucast (sq_tail queue))) s))"

text \<open>The result holds the completion that was taken, if any.\<close>

definition take_completion :: "nvme_pair_queue \<Rightarrow> nvme_pair_queue" where
  "take_completion queue =
     (let queue = queue\<lparr>cq_head := (cq_head queue + 1) mod (q_size (cq queue) + 1)\<rparr>
      in if cq_head queue = 0 then queue\<lparr>phase := phase queue XOR 1\<rparr> else queue)"

partial_function (option) nvme_wait_io_from ::
  "'a nenv \<Rightarrow> nvme_pair_queue \<Rightarrow> u64 \<Rightarrow> u64 \<Rightarrow> 'a nvm_scheme \<Rightarrow> (bool \<times> nvme_completion option \<times> nvme_pair_queue \<times> 'a nvm_scheme) option" where
  "nvme_wait_io_from env queue timeout_ms elapsed s =
     (if elapsed < timeout_ms
      then let s = dma env s;
               c = read_nvme_completion (ram s) (hhdm s + q_address (cq queue) + 16 * cq_head queue)
           in if cpl_status c AND 1 = ucast (phase queue)
              then let status_code = drop_bit 1 (cpl_status c) AND 0x7FFF;
                       queue = take_completion queue
                   in Some (status_code = 0, Some c, queue, io_out (Wr32 (cq_doorbell queue) (ucast (cq_head queue))) s)
              else Option.bind (nvme_sleep env 10 s) (\<lambda>s. nvme_wait_io_from env queue timeout_ms (elapsed + 10) s)
      else Some (False, None, queue, s))"

definition nvme_wait_io ::
  "'a nenv \<Rightarrow> nvme_pair_queue \<Rightarrow> u64 \<Rightarrow> 'a nvm_scheme \<Rightarrow> (bool \<times> nvme_completion option \<times> nvme_pair_queue \<times> 'a nvm_scheme) option" where
  "nvme_wait_io env queue timeout_ms s = nvme_wait_io_from env queue timeout_ms 0 s"

section \<open>The disk of a namespace\<close>

text \<open>
  The argument of the two transfers is the controller and the number of a namespace. Both write the queue back into the
  controller. \<open>nvme_write\<close> does not take the lock of the queue.
\<close>

definition set_io_queue :: "u64 \<Rightarrow> nvme_pair_queue \<Rightarrow> 'a nvm_scheme \<Rightarrow> 'a nvm_scheme" where
  "set_io_queue c queue s = s\<lparr>ctrls := (ctrls s)(c := (ctrls s c)\<lparr>main_io_queue := Some queue\<rparr>)\<rparr>"

text \<open>What both do with the outcome of the wait.\<close>

definition transfer_ok :: "bool \<Rightarrow> nvme_completion option \<Rightarrow> bool" where
  "transfer_ok ok completion =
     (case completion of
        None \<Rightarrow> False
      | Some c \<Rightarrow> ok \<and> drop_bit 1 (cpl_status c) AND 0x7FFF = 0)"

definition nvme_read :: "'a nenv \<Rightarrow> u64 \<Rightarrow> u32 \<Rightarrow> u64 \<Rightarrow> u64 \<Rightarrow> u64 \<Rightarrow> 'a nvm_scheme \<Rightarrow> (bool \<times> 'a nvm_scheme) option" where
  "nvme_read env c nsid buffer lba len_in_blocks s =
     (if unat (nsid - 1) \<ge> 256 then None
      else
      let ctrl = ctrls s c;
          lsz = ns_lba_size (namespaces ctrl ! unat (nsid - 1))
      in if buffer AND (4096 - 1) \<noteq> 0 then Some (False, s)
      else
      let transfer_bytes = len_in_blocks * ucast lsz
      in do {
        queue \<leftarrow> main_io_queue ctrl;
        l \<leftarrow> spinlock_aquire (pq_lock queue);
        let (queue, s) = nvme_send_io (queue\<lparr>pq_lock := l\<rparr>) 0x02 nsid buffer lba (ucast len_in_blocks) transfer_bytes s;
        (ok, completion, queue, s) \<leftarrow> nvme_wait_io env queue 1000 s;
        let s = set_io_queue c (queue\<lparr>pq_lock := spinlock_release (pq_lock queue)\<rparr>) s;
        Some (transfer_ok ok completion, s)
      })"

definition nvme_write :: "'a nenv \<Rightarrow> u64 \<Rightarrow> u32 \<Rightarrow> u64 \<Rightarrow> u64 \<Rightarrow> u64 \<Rightarrow> 'a nvm_scheme \<Rightarrow> (bool \<times> 'a nvm_scheme) option" where
  "nvme_write env c nsid buffer lba len_in_blocks s =
     (if unat (nsid - 1) \<ge> 256 then None
      else
      let ctrl = ctrls s c;
          lsz = ns_lba_size (namespaces ctrl ! unat (nsid - 1))
      in if buffer AND (4096 - 1) \<noteq> 0 then Some (False, s)
      else
      let transfer_bytes = len_in_blocks * ucast lsz
      in do {
        queue \<leftarrow> main_io_queue ctrl;
        let (queue, s) = nvme_send_io queue 0x01 nsid buffer lba (ucast len_in_blocks) transfer_bytes s;
        (ok, completion, queue, s) \<leftarrow> nvme_wait_io env queue 5000 s;
        let s = set_io_queue c queue s;
        Some (transfer_ok ok completion, s)
      })"

section \<open>Admin commands\<close>

definition nvme_submit_admin :: "nvme_controller \<Rightarrow> nvme_command \<Rightarrow> 'a nvm_scheme \<Rightarrow> nvme_controller \<times> 'a nvm_scheme" where
  "nvme_submit_admin ctrl cmd s =
     (let s = s\<lparr>ram := store_bytes (ram s) (hhdm s + q_address (admin_sq ctrl) + 64 * admin_sq_tail ctrl) (bytes_nvme_command cmd)\<rparr>;
          ctrl = ctrl\<lparr>admin_sq_tail := admin_sq_tail ctrl + 1\<rparr>;
          ctrl = (if admin_sq_tail ctrl > 63 then ctrl\<lparr>admin_sq_tail := 0\<rparr> else ctrl)
      in (ctrl, io_out (Wr32 (ctrl_bar0 ctrl + 0x1000) (ucast (admin_sq_tail ctrl))) s))"

definition take_admin :: "nvme_controller \<Rightarrow> nvme_controller" where
  "take_admin ctrl =
     (let ctrl = ctrl\<lparr>admin_cq_head := admin_cq_head ctrl + 1\<rparr>
      in if admin_cq_head ctrl > 63 then ctrl\<lparr>admin_cq_head := 0, admin_phase := admin_phase ctrl XOR 1\<rparr> else ctrl)"

partial_function (option) nvme_wait_admin_from ::
  "'a nenv \<Rightarrow> nvme_controller \<Rightarrow> u64 \<Rightarrow> u64 \<Rightarrow> 'a nvm_scheme \<Rightarrow> (bool \<times> nvme_controller \<times> 'a nvm_scheme) option" where
  "nvme_wait_admin_from env ctrl timeout_ms elapsed s =
     (if elapsed < timeout_ms * 1000
      then let s = dma env s;
               c = read_nvme_completion (ram s) (q_address (admin_cq ctrl) + hhdm s + 16 * admin_cq_head ctrl)
           in if cpl_status c AND 1 = ucast (admin_phase ctrl)
              then let status_code = drop_bit 1 (cpl_status c) AND 0xFF;
                       ctrl = take_admin ctrl
                   in Some (status_code = 0, ctrl, io_out (Wr32 (ctrl_bar0 ctrl + 0x1000 + ucast (1 * stride ctrl)) (ucast (admin_cq_head ctrl))) s)
              else Option.bind (nvme_sleep env 10 s) (\<lambda>s. nvme_wait_admin_from env ctrl timeout_ms (elapsed + 10) s)
      else Some (False, ctrl, s))"

definition nvme_wait_admin :: "'a nenv \<Rightarrow> nvme_controller \<Rightarrow> u64 \<Rightarrow> 'a nvm_scheme \<Rightarrow> (bool \<times> nvme_controller \<times> 'a nvm_scheme) option" where
  "nvme_wait_admin env ctrl timeout_ms s = nvme_wait_admin_from env ctrl timeout_ms 0 s"

text \<open>A command and the wait for it.\<close>

definition admin :: "'a nenv \<Rightarrow> nvme_controller \<Rightarrow> nvme_command \<Rightarrow> 'a nvm_scheme \<Rightarrow> (bool \<times> nvme_controller \<times> 'a nvm_scheme) option" where
  "admin env ctrl cmd s = (let (ctrl, s) = nvme_submit_admin ctrl cmd s in nvme_wait_admin env ctrl 1000 s)"

section \<open>Setting up\<close>

definition nvme_alloc_queue :: "'a nvm_scheme \<Rightarrow> nvme_queue \<times> 'a nvm_scheme" where
  "nvme_alloc_queue s =
     (let (phys, s) = pmm_alloc_page s 4096
      in (\<lparr>q_address = phys, q_size = 63\<rparr>, s\<lparr>ram := memset (ram s) (hhdm s + phys) 0 4096\<rparr>))"

abbreviation (input) sizeof_pair_queue :: u64 where "sizeof_pair_queue \<equiv> 80"
abbreviation (input) sizeof_controller :: u64 where "sizeof_controller \<equiv> 8296"
abbreviation (input) sizeof_arg_disk :: u64 where "sizeof_arg_disk \<equiv> 16"
abbreviation (input) sizeof_disk :: u64 where "sizeof_disk \<equiv> 40"

text \<open>Tail, head and doorbells of the new queue are not initialised: they are what the heap block held.\<close>

definition nvme_create_io_queue :: "'a nenv \<Rightarrow> nvme_controller \<Rightarrow> 'a nvm_scheme \<Rightarrow> (nvme_pair_queue option \<times> nvme_controller \<times> 'a nvm_scheme) option" where
  "nvme_create_io_queue env ctrl s = do {
     (p, s) \<leftarrow> kmalloc sizeof_pair_queue s;
     if p = 0 then None
     else do {
       let m = ram s;
       let (new_cq, s) = nvme_alloc_queue s;
       let (new_sq, s) = nvme_alloc_queue s;
       let queue = \<lparr>sq = new_sq, cq = new_cq, sq_tail = ld64 m (p + 32), cq_head = ld64 m (p + 40), phase = 1, qid = nvme_qid_ptr s,
                    sq_doorbell = ld64 m (p + 56), cq_doorbell = ld64 m (p + 64), pq_lock = spinlock_release False\<rparr>;
       let cmd = zero_command\<lparr>cdw0 := 0x05, cdw10 := push_bit 16 (ucast (q_size (cq queue))) OR ucast (qid queue),
                   cdw11_15 := [1, 0, 0, 0, 0], prp1 := q_address (cq queue)\<rparr>;
       (status, ctrl, s) \<leftarrow> admin env ctrl cmd s;
       if \<not> status then Some (None, ctrl, s)
       else do {
         let cmd = zero_command\<lparr>cdw0 := 0x01, cdw10 := push_bit 16 (ucast (q_size (sq queue))) OR ucast (qid queue),
                     cdw11_15 := [push_bit 16 (ucast (qid queue)) OR 1, 0, 0, 0, 0], prp1 := q_address (sq queue)\<rparr>;
         (status, ctrl, s) \<leftarrow> admin env ctrl cmd s;
         if \<not> status then Some (None, ctrl, s)
         else do {
           let doorbell_base = ctrl_bar0 ctrl + 0x1000;
           let queue = queue\<lparr>sq_doorbell := doorbell_base + ucast (2 * ucast (qid queue) * stride ctrl),
                             cq_doorbell := doorbell_base + ucast ((2 * ucast (qid queue) + 1) * stride ctrl)\<rparr>;
           Some (Some queue, ctrl, s\<lparr>nvme_qid_ptr := nvme_qid_ptr s + 1\<rparr>)
         }
       }
     }
   }"

definition nvme_identify :: "'a nenv \<Rightarrow> nvme_controller \<Rightarrow> 'a nvm_scheme \<Rightarrow> (bool \<times> nvme_controller \<times> 'a nvm_scheme) option" where
  "nvme_identify env ctrl s =
     (let (phys, s) = pmm_alloc_page s (ucast (page_size ctrl));
          cmd = zero_command\<lparr>cdw0 := 0x06, prp1 := phys, cdw10 := 1, cmd_nsid := 0\<rparr>
      in do {
        (status, ctrl, s) \<leftarrow> admin env ctrl cmd s;
        if \<not> status then Some (False, ctrl, s)
        else Some (True, ctrl\<lparr>identify := phys + hhdm s\<rparr>, s)
      })"

text \<open>A sector size of 2 ^ 32 bytes or more is a shift without a defined result.\<close>

definition nvme_identify_namespace :: "'a nenv \<Rightarrow> nvme_controller \<Rightarrow> u32 \<Rightarrow> 'a nvm_scheme \<Rightarrow> (bool \<times> nvme_controller \<times> 'a nvm_scheme) option" where
  "nvme_identify_namespace env ctrl nsid s =
     (if unat (nsid - 1) \<ge> 256 then None
      else
      let i = unat (nsid - 1);
          (phys, s) = pmm_alloc_page s (ucast (page_size ctrl));
          ctrl = ctrl\<lparr>namespaces := (namespaces ctrl)[i := (namespaces ctrl ! i)\<lparr>ns_data := hhdm s + phys\<rparr>]\<rparr>;
          cmd = zero_command\<lparr>cdw0 := 0x06, cmd_nsid := nsid, cdw10 := 0, prp1 := phys\<rparr>
      in do {
        (ok, ctrl, s) \<leftarrow> admin env ctrl cmd s;
        if \<not> ok then Some (False, ctrl, s)
        else do {
          let ns = namespaces ctrl ! i;
          let d = read_nvme_id_ns (ram s) (ns_data ns);
          let lba_format = flbas d AND 0xF;
          lsz \<leftarrow> (if lba_format < nlbaf d
                  then let ds = unat (lbaf_ds (lbaf d ! unat lba_format)) in if ds < 32 then Some (push_bit ds 1) else None
                  else Some 512);
          let ns = ns\<lparr>ns_nsid := nsid, ns_size := nsze d, ns_lba_size := lsz, ns_valid := True\<rparr>;
          Some (True, ctrl\<lparr>namespaces := (namespaces ctrl)[i := ns]\<rparr>, s)
        }
      })"

text \<open>
  The interface of a disk has no place for a transfer that never returns; it is a failed one here. A transfer returns while
  the lock is free and sleeping ends.
\<close>

definition transfer :: "'s \<Rightarrow> (bool \<times> 's) option \<Rightarrow> bool \<times> 's" where
  "transfer s r = (case r of None \<Rightarrow> (False, s) | Some r \<Rightarrow> r)"

definition nvme_disk :: "'a nenv \<Rightarrow> u64 \<Rightarrow> u32 \<Rightarrow> u64 \<Rightarrow> u64 \<Rightarrow> 'a nvm_scheme disk" where
  "nvme_disk env c nsid lsz sz =
     \<lparr>lba_size = lsz, disk_size = sz,
      disk_read = (\<lambda>buffer lba n s. transfer s (nvme_read env c nsid buffer lba n s)),
      disk_write = (\<lambda>buffer lba n s. transfer s (nvme_write env c nsid buffer lba n s))\<rparr>"

definition nvme_init_namespace ::
  "'a nenv \<Rightarrow> u64 \<Rightarrow> u32 \<Rightarrow> mounts \<times> 'a nvm_scheme \<Rightarrow> ((u64 \<times> 'a nvm_scheme ext2_partition) list \<times> mounts \<times> 'a nvm_scheme) option" where
  "nvme_init_namespace env c nsid ks =
     (case ks of (k, s) \<Rightarrow> do {
        (new_disk, s) \<leftarrow> kmalloc sizeof_arg_disk s;
        if new_disk = 0 then None
        else do {
          (generic_disk, s) \<leftarrow> kmalloc sizeof_disk s;
          if generic_disk = 0 \<or> unat (nsid - 1) \<ge> 256 then None
          else let lsz = ucast (ns_lba_size (namespaces (ctrls s c) ! unat (nsid - 1)))
               in init_disk (nvme_disk env c nsid lsz (ld64 (ram s) (generic_disk + 16))) (k, s)
        }
      })"

text \<open>The entries of the list of namespaces from number \<open>i\<close> on, at most \<open>n\<close> of them.\<close>

fun namespace_loop ::
  "'a nenv \<Rightarrow> u64 \<Rightarrow> u64 \<Rightarrow> nat \<Rightarrow> nat \<Rightarrow> mounts \<times> 'a nvm_scheme \<Rightarrow>
    ((u64 \<times> 'a nvm_scheme ext2_partition) list \<times> mounts \<times> 'a nvm_scheme) option" where
  "namespace_loop env c ns_ids i 0 (k, s) = Some ([], k, s)"
| "namespace_loop env c ns_ids i (Suc n) (k, s) =
     (let nsid = ld32 (ram s) (ns_ids + 4 * of_nat i)
      in if nsid = 0 then Some ([], k, s)
         else do {
           (ok, ctrl, s) \<leftarrow> nvme_identify_namespace env (ctrls s c) nsid s;
           let s = s\<lparr>ctrls := (ctrls s)(c := ctrl)\<rparr>;
           (ms, k, s) \<leftarrow> (if ok
                         then map_option (\<lambda>(ms, k, s). (ms, k, s\<lparr>ctrls := (ctrls s)(c := (ctrls s c)\<lparr>num_namespaces := num_namespaces (ctrls s c) + 1\<rparr>)\<rparr>))
                                (nvme_init_namespace env c nsid (k, s))
                         else Some ([], k, s));
           (ms', k, s) \<leftarrow> namespace_loop env c ns_ids (Suc i) n (k, s);
           Some (ms @ ms', k, s)
         })"

definition nvme_init_namespaces ::
  "'a nenv \<Rightarrow> u64 \<Rightarrow> mounts \<times> 'a nvm_scheme \<Rightarrow> (bool \<times> (u64 \<times> 'a nvm_scheme ext2_partition) list \<times> mounts \<times> 'a nvm_scheme) option" where
  "nvme_init_namespaces env c ks =
     (case ks of (k, s) \<Rightarrow>
        let ctrl = ctrls s c;
            (phys, s) = pmm_alloc_page s (ucast (page_size ctrl));
            ns_list = hhdm s + phys;
            cmd = zero_command\<lparr>cdw0 := 0x06, cdw10 := 2, prp1 := phys\<rparr>
        in do {
          (ok, ctrl, s) \<leftarrow> admin env ctrl cmd s;
          let s = s\<lparr>ctrls := (ctrls s)(c := ctrl)\<rparr>;
          if \<not> ok then Some (False, [], k, s)
          else map_option (Pair True) (namespace_loop env c ns_list 0 1024 (k, s))
        })"

text \<open>The two loops that wait for the ready bit of the controller to be \<open>want\<close>.\<close>

definition ready_round :: "'a nenv \<Rightarrow> nvme_controller \<Rightarrow> bool \<Rightarrow> 'a nvm_scheme \<Rightarrow> bool \<times> 'a nvm_scheme" where
  "ready_round env ctrl want s =
     (let (csts, s) = nvme_read32 env ctrl 0x1C s
      in if (csts AND 1 \<noteq> 0) = want then (True, s) else (False, io_out (Instr ''pause'') s))"

definition nvme_probe :: "u64 \<Rightarrow> u32 \<Rightarrow> bool" where
  "nvme_probe cap vs =
     (let css = ucast (drop_bit 37 (cap AND push_bit 37 0xFF)) :: u32;
          vs_major = ucast (drop_bit 16 vs) :: u16;
          min = ucast (drop_bit 48 (cap AND push_bit 48 0xF)) :: u32;
          max = ucast (drop_bit 52 (cap AND push_bit 52 0xF)) :: u32
      in \<not> vs_major < 1 \<and> css AND 1 \<noteq> 0 \<and> \<not> (0 < min \<or> 0 > max))"

definition nvme_init ::
  "'a nenv \<Rightarrow> pci_t \<Rightarrow> u8 \<Rightarrow> u8 \<Rightarrow> u8 \<Rightarrow> mounts \<times> 'a nvm_scheme \<Rightarrow>
    ((u64 \<times> 'a nvm_scheme ext2_partition) list \<times> mounts \<times> 'a nvm_scheme) option" where
  "nvme_init env pci bus dv fn ks =
     (case ks of (k, s) \<Rightarrow>
        let s = (if \<not> nvme_subsystem_initialized s then s\<lparr>nvme_controller_ptr := 0, nvme_subsystem_initialized := True\<rparr> else s)
        in if progIF pci \<noteq> 0x02 then Some ([], k, s)
        else
        let (cmd, s) = pci_read_config16 (dev env) bus dv fn 0x04 s;
            s = pci_write_config16 (dev env) bus dv fn 0x04 (cmd OR 0x0006) s;
            bar_phys = push_bit 32 (ucast (bar1 pci)) OR ucast (bar0 pci AND 0xFFFFFFF0);
            s = map_page s (hhdm s + bar_phys) bar_phys (1 OR 2 OR 16) 4
        in do {
          (c, s) \<leftarrow> kmalloc sizeof_controller s;
          if c = 0 then None
          else do {
            let s = s\<lparr>ram := memset (ram s) c 0 sizeof_controller\<rparr>;
            let ctrl = zero_controller\<lparr>ctrl_bar0 := hhdm s + bar_phys\<rparr>;
            let (cap, s) = nvme_read64 env ctrl 0x00 s;
            let ctrl = ctrl\<lparr>admin_phase := 1\<rparr>;
            let (vs, s) = nvme_read32 env ctrl 0x08 s;
            let keep = (\<lambda>ctrl s. s\<lparr>ctrls := (ctrls s)(c := ctrl)\<rparr>);
            if \<not> nvme_probe cap vs then Some ([], k, keep ctrl s)
            else do {
              let ctrl = ctrl\<lparr>stride := push_bit (unat (drop_bit 32 cap AND 0xF)) 4, mpsmin := ucast (drop_bit 48 (cap AND push_bit 48 0xF)),
                          page_size := 4096, max_queue_entries := ucast ((cap AND 0xFFFF) + 1)\<rparr>;
              let (cc, s) = nvme_read32 env ctrl 0x14 s;
              let s = nvme_write32 ctrl 0x14 (cc AND NOT 1) s;
              s \<leftarrow> poll (ready_round env ctrl False) s;
              let (sq_phys, s) = pmm_alloc_page s 4096;
              let (cq_phys, s) = pmm_alloc_page s 4096;
              let ctrl = ctrl\<lparr>admin_sq := \<lparr>q_address = sq_phys, q_size = 63\<rparr>, admin_cq := \<lparr>q_address = cq_phys, q_size = 63\<rparr>\<rparr>;
              let s = nvme_write32 ctrl 0x24 (63 OR push_bit 16 63) s;
              let s = nvme_write64 ctrl 0x28 (q_address (admin_sq ctrl)) s;
              let s = nvme_write64 ctrl 0x30 (q_address (admin_cq ctrl)) s;
              let cc_val = push_bit 16 6 OR push_bit 20 4;
              let s = nvme_write32 ctrl 0x14 cc_val s;
              let s = nvme_write32 ctrl 0x14 (cc_val OR 1) s;
              s \<leftarrow> poll (ready_round env ctrl True) s;
              (ok, ctrl, s) \<leftarrow> nvme_identify env ctrl s;
              if \<not> ok then Some ([], k, keep ctrl s)
              else do {
                (queue, ctrl, s) \<leftarrow> nvme_create_io_queue env ctrl s;
                let ctrl = ctrl\<lparr>main_io_queue := queue\<rparr>;
                let s = keep ctrl s;
                if queue = None then Some ([], k, s)
                else do {
                  (_, ms, k, s) \<leftarrow> nvme_init_namespaces env c (k, s);
                  if nvme_controller_ptr s \<ge> 256 then None
                  else Some (ms, k, s\<lparr>nvme_controllers := (nvme_controllers s)[nvme_controller_ptr s := c],
                                     nvme_controller_ptr := nvme_controller_ptr s + 1\<rparr>)
                }
              }
            }
          }
        })"

end
