(* ===== verification/NvmeQueue.thy ===== *)
theory NvmeQueue
  imports Nvme
begin

text \<open>
  The protocol of the NVMe queues: completions are taken in the order in which the controller posts them, waits end, and the
  pages that a command names are those of its buffer.
\<close>

section \<open>Completion rings\<close>

text \<open>
  A controller that has posted the completions \<open>cs\<close> in a ring of 64 entries shows in slot \<open>i\<close> the latest one whose number is \<open>i\<close> modulo
  64, with the phase of its pass over the ring: 1 in the first, then alternating. Slots never used are zero.
\<close>

definition phase_of :: "nat \<Rightarrow> u16" where
  "phase_of j = (if even (j div 64) then 1 else 0)"

definition posted_entry :: "nvme_completion list \<Rightarrow> nat \<Rightarrow> nvme_completion" where
  "posted_entry cs j = (cs ! j)\<lparr>cpl_status := cpl_status (cs ! j) * 2 OR phase_of j\<rparr>"

definition latest :: "nat \<Rightarrow> nat \<Rightarrow> nat option" where
  "latest n i = (if n \<le> i then None else Some (i + 64 * ((n - 1 - i) div 64)))"

definition ring_status :: "nvme_completion list \<Rightarrow> nat \<Rightarrow> nvme_completion option" where
  "ring_status cs i = map_option (posted_entry cs) (latest (length cs) i)"

definition shows_ring :: "mem \<Rightarrow> u64 \<Rightarrow> nvme_completion list \<Rightarrow> bool" where
  "shows_ring m a cs \<longleftrightarrow>
     (\<forall>i < 64. case ring_status cs i of
        None \<Rightarrow> cpl_status (read_nvme_completion m (a + 16 * of_nat i)) = 0
      | Some c \<Rightarrow> read_nvme_completion m (a + 16 * of_nat i) = c)"

lemma latest_Some: "latest n i = Some j \<Longrightarrow> i < 64 \<Longrightarrow> j < n \<and> j mod 64 = i \<and> n \<le> j + 64"
  unfolding latest_def by (auto split: if_splits)

lemma mod_apart:
  assumes "j mod 64 = n mod 64" and "n \<le> (j :: nat)"
  obtains q where "j = n + 64 * q"
proof -
  have "64 dvd j - n" using assms by (simp add: mod_eq_dvd_iff_nat)
  then obtain q where "j - n = 64 * q" ..
  then show thesis using assms(2) by (intro that[of q]) simp
qed

lemma mod_close: "j mod 64 = n mod 64 \<Longrightarrow> j < n + 64 \<Longrightarrow> n \<le> j \<Longrightarrow> j = (n :: nat)"
  by (erule (1) mod_apart) simp

lemma mod_next: "j mod 64 = n mod 64 \<Longrightarrow> j < n \<Longrightarrow> n \<le> j + 64 \<Longrightarrow> n = j + (64 :: nat)"
proof -
  assume a: "j mod 64 = n mod 64" "j < n" "n \<le> j + 64"
  obtain q where "n = j + 64 * q" using mod_apart[of n j] a by auto
  then show ?thesis using a by (cases q) auto
qed

lemma latest_next:
  assumes "n < p" and "p \<le> n + 64"
  shows "latest p (n mod 64) = Some n"
proof -
  have "n mod 64 \<le> n" by simp
  then obtain j where j: "latest p (n mod 64) = Some j" using assms(1) by (auto simp: latest_def)
  from latest_Some[OF this] have "j < p" "j mod 64 = n mod 64" "p \<le> j + 64" by simp_all
  then have "j = n" using assms mod_close[of j n] mod_close[of n j] by (cases "n \<le> j") simp_all
  then show ?thesis using j by simp
qed

lemma latest_stale:
  assumes "latest n (n mod 64) = Some j"
  shows "n = j + 64"
proof (rule mod_next)
  show "j mod 64 = n mod 64" "j < n" "n \<le> j + 64" using latest_Some[OF assms] by simp_all
qed

lemma phase_bits:
  "(x * 2 OR phase_of j) AND 1 = phase_of j" "drop_bit 1 (x * 2 OR phase_of j) AND 0x7FFF = x AND 0x7FFF"
  for x :: u16
proof -
  have low: "(push_bit k x OR b) AND 1 = b AND 1" if "0 < k" for b :: u16 and k
    using that by (intro bit_word_eqI) (auto simp: bit_simps)
  show "(x * 2 OR phase_of j) AND 1 = phase_of j" using low[of 1 "phase_of j"] by (simp add: phase_of_def)
  have m: "(0x7FFF :: u16) = mask 15" by (simp add: mask_eq_exp_minus_1)
  have high: "drop_bit k (push_bit k x OR b) AND 0x7FFF = x AND 0x7FFF" if k: "k \<le> 1" and b: "\<And>i. bit b (k + i) = False" for b :: u16 and k
    unfolding m by (rule bit_word_eqI) (use k in \<open>auto simp: bit_simps b\<close>)
  have "bit (phase_of j) (1 + i) = False" for i by (simp add: phase_of_def bit_1_iff)
  then show "drop_bit 1 (x * 2 OR phase_of j) AND 0x7FFF = x AND 0x7FFF" using high[of 1 "phase_of j"] by simp
qed

lemma entry_status:
  "cpl_status (posted_entry cs j) AND 1 = phase_of j"
  "drop_bit (Suc 0) (cpl_status (posted_entry cs j)) AND 0x7FFF = cpl_status (cs ! j) AND 0x7FFF"
  using phase_bits[of "cpl_status (cs ! j)" j] unfolding posted_entry_def by simp_all

lemma phase_of_add: "phase_of (j + 64) \<noteq> phase_of j"
  by (simp add: phase_of_def div_add_self2)

text \<open>The entry at the head after \<open>n\<close> completions has the expected phase exactly if number \<open>n\<close> has been posted.\<close>

lemma ring_look:
  assumes ring: "shows_ring m a cs" and "n \<le> length cs" and "length cs \<le> n + 64"
  defines "c \<equiv> read_nvme_completion m (a + 16 * of_nat (n mod 64))"
  shows "cpl_status c AND 1 = phase_of n \<longleftrightarrow> n < length cs" "n < length cs \<Longrightarrow> c = posted_entry cs n"
proof -
  have at: "case ring_status cs (n mod 64) of None \<Rightarrow> cpl_status c = 0 | Some e \<Rightarrow> c = e"
    using ring unfolding shows_ring_def c_def by (simp del: of_nat_mod)
  show next_entry: "c = posted_entry cs n" if "n < length cs"
    using at latest_next[OF that assms(3)] by (simp add: ring_status_def)
  show "cpl_status c AND 1 = phase_of n \<longleftrightarrow> n < length cs"
  proof (cases "n < length cs")
    case True
    then show ?thesis using next_entry by (simp add: posted_entry_def phase_bits)
  next
    case False
    then have n: "length cs = n" using assms(2) by simp
    show ?thesis
    proof (cases "latest n (n mod 64)")
      case None
      then have "n < 64" by (auto simp: latest_def split: if_splits)
      then show ?thesis using at None False by (simp add: ring_status_def n phase_of_def)
    next
      case (Some j)
      then have "n = j + 64" by (rule latest_stale)
      then show ?thesis using at Some False phase_of_add[of j] by (simp add: ring_status_def n posted_entry_def phase_bits)
    qed
  qed
qed

section \<open>Taking completions\<close>

text \<open>Head and phase of a queue from which \<open>n\<close> completions have been taken.\<close>

definition consumed :: "nvme_pair_queue \<Rightarrow> nat \<Rightarrow> bool" where
  "consumed q n \<longleftrightarrow> q_size (cq q) = 63 \<and> cq_head q = of_nat (n mod 64) \<and> phase q = ucast (phase_of n)"

lemma mod_Suc_64: "Suc n mod 64 = (if n mod 64 = 63 then 0 else Suc (n mod 64))"
  by (simp add: mod_Suc)

lemma phase_Suc: "phase_of (Suc n) = (if n mod 64 = 63 then phase_of n XOR 1 else phase_of n)"
proof (cases "n mod 64 = 63")
  case True
  then have "Suc n div 64 = Suc (n div 64)" by (simp add: div_Suc mod_Suc)
  then show ?thesis using True by (simp add: phase_of_def)
next
  case False
  then have "Suc n div 64 = n div 64" by (simp add: div_Suc mod_Suc)
  then show ?thesis using False by (simp add: phase_of_def)
qed

lemma head_number: "unat (of_nat (n mod 64) :: u64) = n mod 64"
  by (rule unat_of_nat_small) (simp add: less_trans[of _ 64])

lemma head_32: "ucast (of_nat (n mod 64) :: u64) = (of_nat (n mod 64) :: u32)"
proof (rule unat_eq_of_nat)
  have "n mod 64 < 64" by simp
  then show "unat (ucast (of_nat (n mod 64) :: u64) :: u32) = n mod 64"
    by (simp add: unsigned_ucast_eq head_number take_bit_nat_eq_self)
qed

lemma head_next: "of_nat (n mod 64) + 1 = (of_nat (Suc (n mod 64)) :: u64)"
  by simp

lemma phase_8: "ucast (phase_of n XOR 1) = (ucast (phase_of n) XOR 1 :: u8)" "(ucast (ucast (phase_of n) :: u8) :: u16) = phase_of n"
  by (simp_all add: phase_of_def)

lemma consumed_next:
  assumes "consumed q n"
  shows "consumed (take_completion q) (Suc n)"
proof -
  have "n mod 64 < 64" by simp
  then have u: "unat (cq_head q + 1) = Suc (n mod 64)"
    using assms by (simp add: consumed_def head_next unat_of_nat_small del: of_nat_Suc)
  have h: "(cq_head q + 1) mod (63 + 1) = of_nat (Suc n mod 64)"
    by (rule unat_eq_of_nat) (simp add: unat_mod u mod_Suc_eq)
  have z: "(of_nat (Suc n mod 64) :: u64) = 0 \<longleftrightarrow> n mod 64 = 63"
    using head_number[of "Suc n"] by (auto simp: word_unat_eq_iff mod_Suc split: if_splits)
  show ?thesis using assms h z
    by (auto simp: consumed_def take_completion_def Let_def phase_Suc phase_8)
qed

lemma take_completion_fields [simp]:
  "sq (take_completion q) = sq q" "cq (take_completion q) = cq q" "cq_doorbell (take_completion q) = cq_doorbell q"
  "sq_doorbell (take_completion q) = sq_doorbell q" "sq_tail (take_completion q) = sq_tail q" "pq_lock (take_completion q) = pq_lock q"
  by (simp_all add: take_completion_def Let_def)

text \<open>
  What the driver relies on of a controller: whenever the driver looks, the ring holds the completions \<open>posted\<close>, of which the
  first \<open>n\<close> have been taken, and no more than 64 wait. Sleeping for ten ticks ends.
\<close>

definition posts_ring :: "'a nenv \<Rightarrow> u64 \<Rightarrow> ('a nvm_scheme \<Rightarrow> nvme_completion list) \<Rightarrow> nat \<Rightarrow> bool" where
  "posts_ring env a posted n \<longleftrightarrow>
     (\<forall>s. let t = dma env s in shows_ring (ram t) (hhdm t + a) (posted t) \<and> n \<le> length (posted t) \<and> length (posted t) \<le> n + 64)"

definition wakes :: "'a nenv \<Rightarrow> bool" where
  "wakes env \<longleftrightarrow> (\<forall>s. \<exists>t. nvme_sleep env 10 s = Some t)"

text \<open>The rounds that a wait still has.\<close>

definition rounds_left :: "u64 \<Rightarrow> u64 \<Rightarrow> nat" where
  "rounds_left timeout elapsed = (unat timeout - unat elapsed + 9) div 10"

lemma rounds_left_step:
  assumes "elapsed < timeout" and "unat timeout \<le> 2 ^ 64 - 10"
  shows "rounds_left timeout elapsed = Suc (rounds_left timeout (elapsed + 10))" "unat (elapsed + 10) = unat elapsed + 10"
proof -
  have lt: "unat elapsed < unat timeout" using assms(1) by (simp add: word_less_nat_alt)
  then show u: "unat (elapsed + 10) = unat elapsed + 10" using assms(2) by (subst unat_add_nowrap) simp_all
  show "rounds_left timeout elapsed = Suc (rounds_left timeout (elapsed + 10))"
    using lt unfolding rounds_left_def u by (cases "unat elapsed + 10 \<le> unat timeout") (simp_all add: div_eq_dividend_iff le_div_geq)
qed

text \<open>The state at look number \<open>k\<close> of a wait, when the looks before it found nothing.\<close>

primrec looks :: "'a nenv \<Rightarrow> nat \<Rightarrow> 'a nvm_scheme \<Rightarrow> 'a nvm_scheme" where
  "looks env 0 s = s"
| "looks env (Suc k) s = looks env k (the (nvme_sleep env 10 (dma env s)))"

lemma find_map_list: "List.find P (map f xs) = map_option f (List.find (\<lambda>x. P (f x)) xs)"
  by (induction xs) auto

text \<open>Both waits are loops of this form.\<close>

lemma wait_pattern:
  assumes step: "\<And>e s. f e s =
      (if e < timeout
       then if ready (dma env s) then Some (done (dma env s)) else Option.bind (nvme_sleep env 10 (dma env s)) (f (e + 10))
       else Some (late s))"
    and "wakes env" and "unat timeout \<le> 2 ^ 64 - 10"
  shows "f e s =
    (case List.find (\<lambda>k. ready (dma env (looks env k s))) [0..<rounds_left timeout e] of
       None \<Rightarrow> Some (late (looks env (rounds_left timeout e) s))
     | Some k \<Rightarrow> Some (done (dma env (looks env k s))))"
proof (induction "rounds_left timeout e" arbitrary: e s)
  case 0
  then have "\<not> e < timeout" using rounds_left_step(1)[OF _ assms(3), of e] by auto
  then show ?case using 0 by (subst step) simp
next
  case (Suc r)
  then have lt: "e < timeout" by (auto simp: rounds_left_def word_less_nat_alt not_less split: nat.splits)
  obtain t where t: "nvme_sleep env 10 (dma env s) = Some t" using assms(2) by (auto simp: wakes_def)
  have r: "r = rounds_left timeout (e + 10)" using Suc(2) rounds_left_step(1)[OF lt assms(3)] by simp
  have "[0..<Suc r] = 0 # map Suc [0..<r]" by (simp add: upt_conv_Cons map_Suc_upt)
  then have l: "List.find P [0..<Suc r] = (if P 0 then Some 0 else map_option Suc (List.find (\<lambda>k. P (Suc k)) [0..<r]))" for P
    by (simp add: find_map_list)
  show ?case using Suc(1)[OF r, of t] lt t unfolding Suc(2)[symmetric] l
    by (subst step) (auto simp: r[symmetric] split: option.splits)
qed

lemma rounds_total: "rounds_left timeout 0 = (unat timeout + 9) div 10"
  by (simp add: rounds_left_def)

text \<open>
  C38. Waiting for an I/O command takes the next completion: with \<open>n\<close> completions taken before, and a controller that posts in
  its ring, \<open>nvme_wait_io\<close> always returns. It looks at most once in ten of the units of the timeout and sleeps in between; the first look at
  which completion number \<open>n\<close> has been posted ends the wait, with that completion, success exactly if its status code is zero,
  the head one further and the phase turned at the end of the ring, and the new head written to the doorbell.
  When no look finds it the queue is unchanged and the result a failure.
\<close>

theorem nvme_wait_io_takes_next:
  assumes "consumed q n" and "posts_ring env (q_address (cq q)) posted n" and "wakes env" and "unat timeout \<le> 2 ^ 64 - 10"
  shows "consumed (take_completion q) (Suc n) \<and>
    nvme_wait_io env q timeout s =
      (case List.find (\<lambda>k. n < length (posted (dma env (looks env k s)))) [0..<(unat timeout + 9) div 10] of
         None \<Rightarrow> Some (False, None, q, looks env ((unat timeout + 9) div 10) s)
       | Some k \<Rightarrow>
           let t = dma env (looks env k s)
           in Some (cpl_status (posted t ! n) AND 0x7FFF = 0, Some (posted_entry (posted t) n), take_completion q,
                    io_out (Wr32 (cq_doorbell q) (of_nat (Suc n mod 64))) t))"
proof -
  let ?ready = "\<lambda>t. n < length (posted t)"
  let ?done = "\<lambda>t. (cpl_status (posted t ! n) AND 0x7FFF = 0, Some (posted_entry (posted t) n), take_completion q,
      io_out (Wr32 (cq_doorbell q) (of_nat (Suc n mod 64))) t)"
  have c: "consumed (take_completion q) (Suc n)" by (rule consumed_next[OF assms(1)])
  have h: "cq_head q = of_nat (n mod 64)" "ucast (phase q) = phase_of n" "ucast (cq_head (take_completion q)) = (of_nat (Suc n mod 64) :: u32)"
    using assms(1) c by (simp_all add: consumed_def phase_8 head_32)
  have step: "nvme_wait_io_from env q timeout e s =
      (if e < timeout
       then if ?ready (dma env s) then Some (?done (dma env s))
            else Option.bind (nvme_sleep env 10 (dma env s)) (nvme_wait_io_from env q timeout (e + 10))
       else Some (False, None, q, s))" for e s
  proof -
    let ?t = "dma env s"
    have p: "shows_ring (ram ?t) (hhdm ?t + q_address (cq q)) (posted ?t)" "n \<le> length (posted ?t)" "length (posted ?t) \<le> n + 64"
      using assms(2) by (simp_all add: posts_ring_def Let_def)
    show ?thesis using ring_look[OF p] unfolding h(1)[symmetric]
      by (subst nvme_wait_io_from.simps) (auto simp: Let_def h(2,3) entry_status)
  qed
  show ?thesis
    using c wait_pattern[of "nvme_wait_io_from env q timeout", OF step assms(3,4), of 0 s]
    unfolding nvme_wait_io_def Let_def rounds_total by (rule conjI)
qed

text \<open>
  A controller that has posted one completion, a success, and a timer with ten interrupts for each halt.
\<close>

definition ex_posted :: nvme_completion where
  "ex_posted = \<lparr>cpl_result = 0, cpl_reserved = 0, cpl_sq_head = 0, cpl_sq_id = 0, cpl_command_id = 0, cpl_status = 0\<rparr>"

definition ex_env :: "'a nenv" where
  "ex_env = \<lparr>dev = (\<lambda>_ _. 0), dma = (\<lambda>s. s\<lparr>ram := (\<lambda>_. 0)(hhdm s + 0x300E := 1)\<rparr>), ticks = (\<lambda>_ _. 10)\<rparr>"

definition ex_queue :: nvme_pair_queue where
  "ex_queue = \<lparr>sq = \<lparr>q_address = 0x2000, q_size = 63\<rparr>, cq = \<lparr>q_address = 0x3000, q_size = 63\<rparr>, sq_tail = 0, cq_head = 0, phase = 1, qid = 1,
     sq_doorbell = 0x9008, cq_doorbell = 0x900C, pq_lock = False\<rparr>"

definition ex_nvm :: nvm where
  "ex_nvm = vmm.extend ex_vmm
     \<lparr>kapic = ex_apic, ctrls = (\<lambda>_. zero_controller\<lparr>main_io_queue := Some ex_queue\<rparr>), nvme_qid_ptr = 1, nvme_controllers = replicate 256 0,
      nvme_controller_ptr = 0, nvme_subsystem_initialized = False\<rparr>"

lemma ex_ring: "posts_ring ex_env 0x3000 (\<lambda>_. [ex_posted]) 0"
proof -
  have ne: "h + 0x3000 + 16 * of_nat i + 14 \<noteq> h + (0x300E :: u64)" "h + 0x3000 + 16 * of_nat i + 14 + 1 \<noteq> h + (0x300E :: u64)"
    if "0 < i" "i < 64" for i and h :: u64
  proof -
    have "unat (of_nat (16 * i + b) :: u64) = 16 * i + b" if "b < 2" for b
      using that \<open>i < 64\<close> by (intro unat_of_nat_small) simp
    then have "of_nat (16 * i + b) \<noteq> (0 :: u64)" if "b < 2" for b using that \<open>0 < i\<close> by (metis unat_0 add_is_0 mult_is_0 not_gr_zero zero_neq_numeral)
    from this[of 0] this[of 1] show "h + 0x3000 + 16 * of_nat i + 14 \<noteq> h + (0x300E :: u64)" "h + 0x3000 + 16 * of_nat i + 14 + 1 \<noteq> h + (0x300E :: u64)"
      by (simp_all add: algebra_simps)
  qed
  let ?m = "\<lambda>h. (\<lambda>_. 0)(h + 0x300E := 1) :: mem"
  have first: "read_nvme_completion (?m h) (h + 0x3000) = posted_entry [ex_posted] 0" for h
    by (simp add: read_nvme_completion_def posted_entry_def phase_of_def ex_posted_def ldn_numeral add.assoc)
  have rest: "cpl_status (read_nvme_completion (?m h) (h + 0x3000 + 16 * of_nat i)) = 0" if "0 < i" "i < 64" for h i
    using ne[OF that, of h] by (simp add: read_nvme_completion_def ldn_numeral)
  have "shows_ring (?m h) (h + 0x3000) [ex_posted]" for h
    unfolding shows_ring_def
  proof (intro allI impI)
    fix i :: nat
    assume "i < 64"
    then show "case ring_status [ex_posted] i of
        None \<Rightarrow> cpl_status (read_nvme_completion (?m h) (h + 0x3000 + 16 * of_nat i)) = 0
      | Some c \<Rightarrow> read_nvme_completion (?m h) (h + 0x3000 + 16 * of_nat i) = c"
      using first[of h] rest[of i h] by (cases "i = 0") (simp_all add: ring_status_def latest_def)
  qed
  then show ?thesis by (simp add: posts_ring_def ex_env_def)
qed

lemma ten_ticks_wake:
  fixes env :: "'a nenv"
  assumes "ticks env = (\<lambda>_ _. 10)"
  shows "wakes env"
proof -
  have "\<exists>r. sleep (\<lambda>_. 10) 10 (s, k) = Some r" for s :: "'a nvm_scheme" and k
  proof -
    obtain s' k' where h: "(apic_timer_handler ^^ 10) (io_out (Instr ''hlt'') s, k) = (s', k')" by fastforce
    then have "apic_ticks k' = apic_ticks k + 10" using apic_timer_handler_ticks[of 10 "io_out (Instr ''hlt'') s" k] by simp
    then show ?thesis
      by (simp add: sleep_def poll.simps[of _ "(0, s, k)"] poll.simps[of _ "(Suc 0, s', k')"] sleep_round_def h)
  qed
  then show ?thesis using assms by (auto simp: wakes_def nvme_sleep_def)
qed

lemma ex_wakes: "wakes ex_env"
  by (rule ten_ticks_wake) (simp add: ex_env_def)

theorem nvme_wait_io_takes_next_witness:
  "nvme_wait_io ex_env ex_queue 1000 ex_nvm =
     Some (True, Some (ex_posted\<lparr>cpl_status := 1\<rparr>), take_completion ex_queue, io_out (Wr32 0x900C 1) (dma ex_env ex_nvm))"
proof -
  have q: "consumed ex_queue 0" by (simp add: consumed_def ex_queue_def phase_of_def)
  have r: "posts_ring ex_env (q_address (cq ex_queue)) (\<lambda>_. [ex_posted]) 0" using ex_ring by (simp add: ex_queue_def)
  from nvme_wait_io_takes_next[OF q r ex_wakes, of 1000 ex_nvm] show ?thesis
    by (simp add: upt_conv_Cons posted_entry_def phase_of_def ex_queue_def ex_posted_def)
qed

section \<open>Waits end\<close>

text \<open>Whatever the controller does, a wait returns when sleeping does, and so do the transfers of a disk whose queue is unlocked.\<close>

lemma wait_io_pattern:
  assumes "wakes env" and "unat timeout \<le> 2 ^ 64 - 10"
  shows "nvme_wait_io env q timeout s =
    (case List.find (\<lambda>k. let t = dma env (looks env k s) in
         cpl_status (read_nvme_completion (ram t) (hhdm t + q_address (cq q) + 16 * cq_head q)) AND 1 = ucast (phase q))
       [0..<(unat timeout + 9) div 10] of
       None \<Rightarrow> Some (False, None, q, looks env ((unat timeout + 9) div 10) s)
     | Some k \<Rightarrow>
         let t = dma env (looks env k s);
             c = read_nvme_completion (ram t) (hhdm t + q_address (cq q) + 16 * cq_head q)
         in Some (drop_bit 1 (cpl_status c) AND 0x7FFF = 0, Some c, take_completion q,
                  io_out (Wr32 (cq_doorbell q) (ucast (cq_head (take_completion q)))) t))"
  unfolding nvme_wait_io_def Let_def rounds_total[symmetric]
  by (rule wait_pattern[of "nvme_wait_io_from env q timeout", OF _ assms]) (subst nvme_wait_io_from.simps, simp add: Let_def)


lemma wait_io_returns: "wakes env \<Longrightarrow> unat timeout \<le> 2 ^ 64 - 10 \<Longrightarrow> \<exists>r. nvme_wait_io env q timeout s = Some r"
  by (subst wait_io_pattern) (auto simp: Let_def split: option.splits)

lemma nvme_read_returns:
  assumes "wakes env" and "unat (nsid - 1) < 256" and "main_io_queue (ctrls s c) = Some q" and "\<not> pq_lock q"
  shows "\<exists>r. nvme_read env c nsid buffer lba n s = Some r"
proof -
  let ?send = "nvme_send_io (q\<lparr>pq_lock := True\<rparr>) 2 nsid buffer lba (ucast n) (n * ucast (ns_lba_size (namespaces (ctrls s c) ! unat (nsid - 1)))) s"
  obtain q' s' where send: "?send = (q', s')" by fastforce
  obtain ok co q'' s'' where "nvme_wait_io env q' 1000 s' = Some (ok, co, q'', s'')"
    using wait_io_returns[OF assms(1), of 1000 q' s'] by auto
  then show ?thesis using assms(2-4) send by (auto simp: nvme_read_def Let_def)
qed




end

