(* ===== verification/NvmePages.thy ===== *)
theory NvmePages
  imports NvmeQueue KernelMemory
begin

text \<open>
  The memory that an I/O command of the NVMe driver names: the entries that \<open>nvme_send_io\<close> puts into the command and into the
  list page are the physical pages of the buffer, as the page tables had them.
\<close>

section \<open>Translations and stores\<close>

lemma keeps_tables_frame:
  assumes "keeps_tables s m" and "frame_va s k \<notin> table_set s" and "\<And>x. frame_of s x \<noteq> k \<Longrightarrow> m' x = m x"
  shows "keeps_tables s m'"
  using assms unfolding keeps_tables_def by metis

lemma keeps_tables_bitmap:
  assumes ok: "vm_ok s" and "k < page_count s"
  shows "keeps_tables s (bitmap_set_range (ram s) (bitmap s) k (Suc k))"
  unfolding keeps_tables_def
proof (intro allI impI)
  fix x
  assume "frame_of s x < page_count s" "frame_va s (frame_of s x) \<in> table_set s"
  then have "bitmap_pages s \<le> frame_of s x" using table_frame[OF ok] by (simp add: owned_frame_def)
  then show "bitmap_set_range (ram s) (bitmap s) k (Suc k) x = ram s x" using assms(2) by (intro bitmap_set_frame) simp_all
qed

section \<open>The list of pages\<close>

definition list_at :: "'a vmm_scheme \<Rightarrow> nat \<Rightarrow> nat \<Rightarrow> u64" where
  "list_at s k i = frame_va s k + 8 * of_nat (i - 1)"

definition buffer_page :: "'a vmm_scheme \<Rightarrow> u64 \<Rightarrow> nat \<Rightarrow> u64" where
  "buffer_page s buffer i = getPhysicalAddress s (buffer + of_nat i * 4096)"

lemma list_slot: "1 \<le> i \<Longrightarrow> i \<le> 512 \<Longrightarrow> of_nat (i - 1) < (512 :: u64)"
  by (simp add: word_less_nat_alt unat_of_nat_small del: of_nat_diff)

lemma list_at_sep:
  assumes "pmm_wf s" and "k < page_count s" and "1 \<le> i" and "i \<le> 512" and "1 \<le> j" and "j \<le> 512" and "i \<noteq> j"
  shows "sep (list_at s k i) 8 (list_at s k j) 8"
proof -
  have "of_nat (i - 1) \<noteq> (of_nat (j - 1) :: u64)"
    using assms(3-7) by (simp add: word_unat_eq_iff unat_of_nat_small del: of_nat_diff)
  then show ?thesis unfolding list_at_def by (intro slot_sep[OF assms(1,2,2)] list_slot assms) simp
qed

lemma list_at_frame: "pmm_wf s \<Longrightarrow> k < page_count s \<Longrightarrow> 1 \<le> i \<Longrightarrow> i \<le> 512 \<Longrightarrow> frame_of s x \<noteq> k \<Longrightarrow> st64 m (list_at s k i) v x = m x"
  unfolding list_at_def by (intro st64_frame list_slot)

lemma prp_list_stores:
  assumes ok: "vm_ok s" and k: "k < page_count s" "frame_va s k \<notin> table_set s"
    and "1 \<le> a" and "n \<le> 513" and "keeps_tables s m" and "\<And>i. a \<le> i \<Longrightarrow> i < n \<Longrightarrow> buffer_page s buffer i \<noteq> 0"
  shows "\<exists>m'. prp_list buffer (frame_va s k) [a..<n] (s\<lparr>ram := m\<rparr>) = (True, s\<lparr>ram := m'\<rparr>) \<and>
    (\<forall>x. frame_of s x \<noteq> k \<longrightarrow> m' x = m x) \<and>
    (\<forall>i. a \<le> i \<longrightarrow> i < n \<longrightarrow> ld64 m' (list_at s k i) = buffer_page s buffer i) \<and>
    (\<forall>i. 1 \<le> i \<longrightarrow> i < a \<longrightarrow> i \<le> 512 \<longrightarrow> ld64 m' (list_at s k i) = ld64 m (list_at s k i))"
  using assms(4-)
proof (induction "n - a" arbitrary: a m)
  case 0
  then show ?case by (intro exI[of _ m]) simp
next
  case (Suc d)
  have wf: "pmm_wf s" by (rule vm_ok_pmm[OF ok])
  have lt: "a < n" "a \<le> 512" using Suc(2,4) by simp_all
  let ?m = "st64 m (list_at s k a) (buffer_page s buffer a)"
  have keep: "?m x = m x" if "frame_of s x \<noteq> k" for x by (rule list_at_frame[OF wf k(1) Suc(3) lt(2) that])
  have tabs: "keeps_tables s ?m" by (rule keeps_tables_frame[OF Suc(5) k(2) keep])
  have d: "d = n - Suc a" using Suc(2) by simp
  obtain m' where m': "prp_list buffer (frame_va s k) [Suc a..<n] (s\<lparr>ram := ?m\<rparr>) = (True, s\<lparr>ram := m'\<rparr>)"
    "\<forall>x. frame_of s x \<noteq> k \<longrightarrow> m' x = ?m x" "\<forall>i. Suc a \<le> i \<longrightarrow> i < n \<longrightarrow> ld64 m' (list_at s k i) = buffer_page s buffer i"
    "\<forall>i. 1 \<le> i \<longrightarrow> i < Suc a \<longrightarrow> i \<le> 512 \<longrightarrow> ld64 m' (list_at s k i) = ld64 ?m (list_at s k i)"
    using Suc(1)[OF d _ Suc(4) tabs] Suc(6) by (metis Suc_leD le_SucI le_add1 plus_1_eq_Suc)
  have first: "getPhysicalAddress (s\<lparr>ram := m\<rparr>) (buffer + of_nat a * 4096) = buffer_page s buffer a"
    unfolding buffer_page_def by (rule tables_kept(3)[OF ok same_frames_ram]) (simp add: Suc(5))
  have "[a..<n] = a # [Suc a..<n]" using lt by (simp add: upt_conv_Cons)
  then have "prp_list buffer (frame_va s k) [a..<n] (s\<lparr>ram := m\<rparr>) = (True, s\<lparr>ram := m'\<rparr>)"
    using m'(1) first Suc(6)[of a] lt by (simp add: Let_def list_at_def del: of_nat_diff)
  moreover have "ld64 m' (list_at s k i) = buffer_page s buffer i" if "a \<le> i" "i < n" for i
    using that m'(3,4) Suc(3) lt by (cases "i = a") (auto simp: ld64_st64_same)
  moreover have "ld64 m' (list_at s k i) = ld64 m (list_at s k i)" if "1 \<le> i" "i < a" for i
    using that m'(4) lt list_at_sep[OF wf k(1) Suc(3) lt(2), of i] by (simp add: ldn_stn_sep)
  ultimately show ?case using m'(2) keep by (intro exI[of _ m']) auto
qed

section \<open>The command\<close>

lemma store_bytes_at: "length ys < 2 ^ 64 \<Longrightarrow> bytes_at (store_bytes m a ys) a ys"
  by (simp add: bytes_at_def store_bytes_def unat_of_nat_small)

text \<open>The pages that a command for \<open>n\<close> pages names: two entries of the command, or one and the list that the other points to.\<close>

definition prp_pages :: "mem \<Rightarrow> u64 \<Rightarrow> nvme_command \<Rightarrow> nat \<Rightarrow> u64 list" where
  "prp_pages m offset cmd n =
     prp1 cmd # (if n \<le> 1 then [] else if n = 2 then [prp2 cmd] else map (\<lambda>i. ld64 m (offset + prp2 cmd + 8 * of_nat i)) [0..<n - 1])"

text \<open>A slot of a submission queue, in memory that is neither free nor part of a page table.\<close>

definition slot_at :: "'a vmm_scheme \<Rightarrow> nvme_pair_queue \<Rightarrow> u64" where
  "slot_at s q = hhdm s + q_address (sq q) + 64 * sq_tail q"

definition queue_slot :: "'a vmm_scheme \<Rightarrow> nvme_pair_queue \<Rightarrow> bool" where
  "queue_slot s q \<longleftrightarrow> (\<forall>x. unat (x - slot_at s q) < 64 \<longrightarrow> client_byte s x)"

definition io_command :: "u8 \<Rightarrow> u32 \<Rightarrow> u64 \<Rightarrow> u16 \<Rightarrow> u64 \<Rightarrow> u64 \<Rightarrow> nvme_command" where
  "io_command opcode nsid lba num_blocks p1 p2 =
     zero_command\<lparr>cdw0 := ucast opcode, cmd_nsid := nsid, cdw10 := ucast lba,
       cdw11_15 := [ucast (drop_bit 32 lba), ucast num_blocks - 1, 0, 0, 0], prp1 := p1, prp2 := p2\<rparr>"

lemma length_io_command [simp]: "length (bytes_nvme_command (io_command opcode nsid lba num_blocks p1 p2)) = 64"
  by (simp add: bytes_nvme_command_def io_command_def zero_command_def)

definition submitted :: "nvme_pair_queue \<Rightarrow> nvme_command \<Rightarrow> 'a nvm_scheme \<Rightarrow> nvme_pair_queue \<times> 'a nvm_scheme" where
  "submitted q cmd s =
     (let q' = q\<lparr>sq_tail := (sq_tail q + 1) mod (q_size (sq q) + 1)\<rparr>
      in (q', io_out (Wr32 (sq_doorbell q) (ucast (sq_tail q')))
                (s\<lparr>ram := store_bytes (ram s) (hhdm s + q_address (sq q) + 64 * sq_tail q) (bytes_nvme_command cmd)\<rparr>)))"

lemma send_prepared:
  assumes "vm_ok s" and "0 < n" and "n \<le> 513" and "n = unat ((transfer_bytes + 4095) div 4096)" and "0 < free_count s"
    and "\<And>i. i < n \<Longrightarrow> buffer_page s buffer i \<noteq> 0"
  shows "\<exists>p2 m. nvme_send_io q opcode nsid buffer lba num_blocks transfer_bytes s =
      submitted q (io_command opcode nsid lba num_blocks (buffer_page s buffer 0) p2) (s\<lparr>ram := m\<rparr>) \<and>
    (n = 2 \<longrightarrow> p2 = buffer_page s buffer 1) \<and>
    (2 < n \<longrightarrow> (\<exists>k < page_count s. \<not> page_used s k \<and> p2 = page_addr s k \<and>
       (\<forall>i. 1 \<le> i \<longrightarrow> i < n \<longrightarrow> ld64 m (list_at s k i) = buffer_page s buffer i)))"
proof -
  have wf: "pmm_wf s" by (rule vm_ok_pmm[OF assms(1)])
  have "transfer_bytes + 4096 - 1 = transfer_bytes + 4095" by simp
  then have w: "(transfer_bytes + 4096 - 1) div 4096 = of_nat n" using assms(4) by (intro unat_eq_of_nat) (simp only:)
  have n: "unat (of_nat n :: u64) = n" using assms(3) by (intro unat_of_nat_small) simp
  have first: "getPhysicalAddress s buffer = buffer_page s buffer 0" "buffer_page s buffer 0 \<noteq> 0"
    using assms(6)[OF assms(2)] by (simp_all add: buffer_page_def)
  consider (one) "n = 1" | (two) "n = 2" | (more) "2 < n" using assms(2) by linarith
  then show ?thesis
  proof cases
    case one
    then show ?thesis using first unfolding nvme_send_io_def w
      by (intro exI[of _ 0] exI[of _ "ram s"]) (simp add: submitted_def io_command_def zero_command_def Let_def)
  next
    case two
    then show ?thesis using first assms(6)[of 1] unfolding nvme_send_io_def w
      by (intro exI[of _ "buffer_page s buffer 1"] exI[of _ "ram s"])
        (simp add: submitted_def io_command_def zero_command_def Let_def buffer_page_def)
  next
    case more
    obtain p2 s1 where a: "pmm_alloc_page s 4096 = (p2, s1)" by fastforce
    from pmm_alloc_one_page[OF wf pages_of_4096 a] assms(5) obtain k where k: "p2 = page_addr s k" "k < page_count s" "\<not> page_used s k"
      and s1: "s1 = s\<lparr>ram := bitmap_set_range (ram s) (bitmap s) k (Suc k)\<rparr>" unfolding free_count_pos by metis
    have nt: "frame_va s k \<notin> table_set s" using table_frame[OF assms(1) k(2)] k(3) by (auto simp: owned_frame_def)
    obtain m where m: "prp_list buffer (frame_va s k) [1..<n] s1 = (True, s\<lparr>ram := m\<rparr>)"
      "\<forall>i. 1 \<le> i \<longrightarrow> i < n \<longrightarrow> ld64 m (list_at s k i) = buffer_page s buffer i"
      using prp_list_stores[OF assms(1) k(2) nt order.refl assms(3) keeps_tables_bitmap[OF assms(1) k(2)], of buffer] assms(6)
      unfolding s1 by (metis less_imp_le_nat)
    have va: "hhdm s1 + p2 = frame_va s k" by (simp add: s1 k(1) frame_va_def phys_to_virt_def)
    have "of_nat n \<noteq> (1 :: u64)" "of_nat n \<noteq> (2 :: u64)" using more n by (auto simp: word_unat_eq_iff)
    then have "nvme_send_io q opcode nsid buffer lba num_blocks transfer_bytes s =
      submitted q (io_command opcode nsid lba num_blocks (buffer_page s buffer 0) p2) (s\<lparr>ram := m\<rparr>)"
      using first m(1) unfolding nvme_send_io_def w by (simp add: submitted_def io_command_def zero_command_def Let_def a va n)
    then show ?thesis using m(2) k more by (intro exI[of _ p2] exI[of _ m]) auto
  qed
qed

text \<open>
  C39. An I/O command names the memory of its buffer: for a buffer of 1 to 513 mapped pages, with a free page for the list, \<open>nvme_send_io\<close>
  writes one command into the slot at the tail of the submission queue, moves the tail and only then rings the
  doorbell; the command carries the opcode, the namespace, the block address and the number of blocks less one, and the page entries of
  the command, through the list page where there are more than two, are the physical addresses of the pages of the buffer in order.
\<close>

theorem nvme_send_io_pages:
  assumes "vm_ok s" and "queue_slot s q" and "q_size (sq q) = 63" and "0 < n" and "n \<le> 513"
    and "n = unat ((transfer_bytes + 4095) div 4096)" and "0 < free_count s" and "\<And>i. i < n \<Longrightarrow> buffer_page s buffer i \<noteq> 0"
  shows "\<exists>p1 p2 s'. nvme_send_io q opcode nsid buffer lba num_blocks transfer_bytes s = (q\<lparr>sq_tail := (sq_tail q + 1) mod 64\<rparr>, s') \<and>
    bytes_at (ram s') (slot_at s q) (bytes_nvme_command (io_command opcode nsid lba num_blocks p1 p2)) \<and>
    prp_pages (ram s') (hhdm s) (io_command opcode nsid lba num_blocks p1 p2) n = map (buffer_page s buffer) [0..<n] \<and>
    trace s' = trace s @ [Wr32 (sq_doorbell q) (ucast ((sq_tail q + 1) mod 64))]"
proof -
  obtain p2 m where r: "nvme_send_io q opcode nsid buffer lba num_blocks transfer_bytes s =
      submitted q (io_command opcode nsid lba num_blocks (buffer_page s buffer 0) p2) (s\<lparr>ram := m\<rparr>)"
    and two: "n = 2 \<Longrightarrow> p2 = buffer_page s buffer 1"
    and more: "2 < n \<Longrightarrow> \<exists>k < page_count s. \<not> page_used s k \<and> p2 = page_addr s k \<and>
       (\<forall>i. 1 \<le> i \<longrightarrow> i < n \<longrightarrow> ld64 m (list_at s k i) = buffer_page s buffer i)"
    using send_prepared[OF assms(1,4-8), of q opcode nsid lba num_blocks] by auto
  let ?cmd = "io_command opcode nsid lba num_blocks (buffer_page s buffer 0) p2" and ?slot = "slot_at s q"
  let ?m = "store_bytes m ?slot (bytes_nvme_command ?cmd)"
  have wf: "pmm_wf s" by (rule vm_ok_pmm[OF assms(1)])
  have "prp_pages ?m (hhdm s) ?cmd n = map (buffer_page s buffer) [0..<n]"
  proof (cases "2 < n")
    case False
    then consider "n = 1" | "n = 2" using assms(4) by linarith
    then show ?thesis by cases (simp_all add: prp_pages_def io_command_def two upt_rec)
  next
    case True
    then obtain k where k: "k < page_count s" "\<not> page_used s k" "p2 = page_addr s k"
      "\<And>i. 1 \<le> i \<Longrightarrow> i < n \<Longrightarrow> ld64 m (list_at s k i) = buffer_page s buffer i" using more by blast
    have "ld64 ?m (hhdm s + p2 + 8 * of_nat i) = buffer_page s buffer (Suc i)" if "i < n - 1" for i
    proof -
      have at: "hhdm s + p2 + 8 * of_nat i = list_at s k (Suc i)" by (simp add: list_at_def frame_va_def phys_to_virt_def k(3))
      have "ld64 ?m (list_at s k (Suc i)) = ld64 m (list_at s k (Suc i))"
      proof (rule ldn_cong)
        fix b :: nat
        assume "b < 8"
        moreover have "of_nat i < (512 :: u64)" using that assms(5) list_slot[of "Suc i"] by simp
        ultimately have "frame_of s (list_at s k (Suc i) + of_nat b) = k" using frame_of_slot[OF wf k(1)] by (simp add: list_at_def)
        then have "\<not> unat (list_at s k (Suc i) + of_nat b - ?slot) < 64"
          using assms(2) k(1,2) unfolding queue_slot_def client_byte_def by metis
        then show "?m (list_at s k (Suc i) + of_nat b) = m (list_at s k (Suc i) + of_nat b)" by (simp add: store_bytes_def)
      qed
      then show ?thesis using k(4)[of "Suc i"] that at by simp
    qed
    moreover have "[0..<n] = 0 # map Suc [0..<n - 1]" using assms(4) by (simp add: map_Suc_upt upt_conv_Cons)
    ultimately show ?thesis using True by (simp add: prp_pages_def io_command_def)
  qed
  moreover have "bytes_at ?m ?slot (bytes_nvme_command ?cmd)" by (rule store_bytes_at) simp
  ultimately show ?thesis
    by (intro exI[of _ "buffer_page s buffer 0"] exI[of _ p2]) (simp add: r submitted_def slot_at_def assms(3))
qed

text \<open>Three pages mapped at the start of the upper half, and a queue behind the managed memory.\<close>

definition ex_buffer :: nvm where
  "ex_buffer = (let (p, s1) = pmm_alloc_page ex_nvm 1
     in map_page (s1\<lparr>PML4 := phys_to_virt s1 p, ram := memset (ram s1) (phys_to_virt s1 p) 0 4096\<rparr>) 0xFFFF800000000000 0x7000 3 3)"

definition ex_submit :: nvme_pair_queue where
  "ex_submit = ex_queue\<lparr>sq := \<lparr>q_address = 0x50000, q_size = 63\<rparr>\<rparr>"

lemma ex_nvm_wf: "pmm_wf ex_nvm" "unat (physical_base ex_nvm) mod 4096 = 0" "unat (physical_base ex_nvm) + page_count ex_nvm * 4096 \<le> 2 ^ 40"
  by (simp_all add: pmm_wf_def ex_nvm_def ex_vmm_def vmm.extend_def bitmap_pages_def page_used_def BITMAP_TEST_def)

lemma ex_nvm_free: "28 \<le> free_count ex_nvm"
proof -
  have "free_count ex_nvm = free_count ex_vmm" by (simp add: free_count_def page_used_def ex_nvm_def vmm.extend_def)
  then show ?thesis using ex_vmm_free by simp
qed

lemma ex_buffer_ok:
  "vm_ok ex_buffer" "0 < free_count ex_buffer" "i < 3 \<Longrightarrow> buffer_page ex_buffer 0xFFFF800000000000 i = 0x7000 + of_nat i * 4096"
  "64 \<le> frame_of ex_nvm x \<Longrightarrow> client_byte ex_buffer x" "hhdm ex_buffer = 0x80000000"
proof -
  obtain p s1 where a: "pmm_alloc_page ex_nvm 1 = (p, s1)" by fastforce
  define s2 where "s2 = s1\<lparr>PML4 := phys_to_virt s1 p, ram := memset (ram s1) (phys_to_virt s1 p) 0 4096\<rparr>"
  have s: "ex_buffer = map_page s2 0xFFFF800000000000 0x7000 3 3" by (simp add: ex_buffer_def a s2_def)
  have free: "0 < free_count ex_nvm" using ex_nvm_free by simp
  note t = fresh_tables[OF ex_nvm_wf free a s2_def]
  have room: "3 * unat (3 :: u64) \<le> free_count s2" using t(2) ex_nvm_free by simp
  note m = map_page_facts[OF t(1) _ room _ s, simplified]
  show "vm_ok ex_buffer" "0 < free_count ex_buffer" using m(1,2) t(2) ex_nvm_free by simp_all
  show "hhdm ex_buffer = 0x80000000" unfolding s using t(4) by (simp add: ex_nvm_def ex_vmm_def vmm.extend_def)
  show "client_byte ex_buffer x" if "64 \<le> frame_of ex_nvm x"
    using that t(5) m(5) by (simp add: ex_nvm_def ex_vmm_def vmm.extend_def)
  show "buffer_page ex_buffer 0xFFFF800000000000 i = 0x7000 + of_nat i * 4096" if i: "i < 3"
  proof -
    consider "i = 0" | "i = 1" | "i = 2" using i by linarith
    then show ?thesis using m(3)[of i "0xFFFF800000000000 + of_nat i * 4096"]
      by cases (simp_all add: buffer_page_def page_start_def)
  qed
qed

theorem nvme_send_io_pages_witness:
  "\<exists>p1 p2 s'. nvme_send_io ex_submit 2 1 0xFFFF800000000000 77 24 12288 ex_buffer = (ex_submit\<lparr>sq_tail := 1\<rparr>, s') \<and>
    bytes_at (ram s') 0x80050000 (bytes_nvme_command (io_command 2 1 77 24 p1 p2)) \<and>
    prp_pages (ram s') 0x80000000 (io_command 2 1 77 24 p1 p2) 3 = [0x7000, 0x8000, 0x9000] \<and>
    trace s' = trace ex_buffer @ [Wr32 0x9008 1]"
proof -
  let ?b = "0xFFFF800000000000 :: u64"
  have slot: "slot_at ex_buffer ex_submit = 0x80050000" by (simp add: slot_at_def ex_submit_def ex_queue_def ex_buffer_ok(5))
  have qs: "queue_slot ex_buffer ex_submit"
    unfolding queue_slot_def slot
  proof (intro allI impI ex_buffer_ok(4))
    fix x :: u64
    assume "unat (x - 0x80050000) < 64"
    moreover have "x - 0x80001000 = (x - 0x80050000) + 0x4F000" by simp
    ultimately have "unat (x - 0x80001000) = unat (x - 0x80050000) + 0x4F000" by (simp only:) (subst unat_add_nowrap, simp_all)
    then show "64 \<le> frame_of ex_nvm x" by (simp add: frame_of_def ex_nvm_def ex_vmm_def vmm.extend_def)
  qed
  have mapped: "buffer_page ex_buffer ?b i \<noteq> 0" if i: "i < 3" for i
  proof -
    consider "i = 0" | "i = 1" | "i = 2" using i by linarith
    then show ?thesis by cases (simp_all add: ex_buffer_ok(3))
  qed
  have pages: "map (buffer_page ex_buffer ?b) [0..<3] = [0x7000, 0x8000, 0x9000]" by (simp add: upt_rec ex_buffer_ok(3))
  have sizes: "q_size (sq ex_submit) = 63" "3 = unat ((12288 + 4095 :: u64) div 4096)" "sq_tail ex_submit = 0" "sq_doorbell ex_submit = 0x9008"
    by (simp_all add: ex_submit_def ex_queue_def)
  have n: "(0 :: nat) < 3" "(3 :: nat) \<le> 513" and t: "(0 + 1) mod 64 = (1 :: u64)" "ucast (1 :: u64) = (1 :: u32)" by simp_all
  from nvme_send_io_pages[OF ex_buffer_ok(1) qs sizes(1) n sizes(2) ex_buffer_ok(2) mapped, of 2 1 77 24]
  show ?thesis unfolding slot pages sizes(3,4) t ex_buffer_ok(5) .
qed

end

