(* ===== verification/Spec2Isabelle.thy ===== *)
theory Spec2Isabelle
  imports Prelude CString Pmm Paging Kmem KmemHeap KernelMemory Spinlock Printf Vfs Bytes Descriptors Apic Timer Irq PowerControl Keyboard
    Pci Ext2Format Ext2 Ext2Layout Ext2Map Disk Nvme NvmeQueue NvmePages
begin

text \<open>
  \<^bold>\<open>Verification of the TomatoOs kernel\<close> (\<^verbatim>\<open>src/src/\<close>)

  TomatoOs is an x86-64 kernel in C that the Limine boot loader starts in \<open>kmain\<close>. It manages physical pages, page tables and a heap;
  sets up descriptor tables and interrupt controllers; keeps an in-memory file system that a small shell on the keyboard shows; scans the
  PCI bus; and has drivers for NVMe disks and for the ext2 file systems on them. The third-party libraries uACPI and flanterm are
  part of its source tree.

  \<^bold>\<open>Conventions.\<close> Machine integers are words of their width, so \<open>+\<close>, \<open>*\<close> and shifts wrap as they do in C. Memory is a total function from
  64-bit addresses to bytes, and address arithmetic wraps. The state is a chain of records, each extending the one before: \<open>machine\<close> (memory,
  the base of the direct map, and the trace of accesses to devices), \<open>kmem\<close> (the globals of the heap), \<open>pmm\<close>, \<open>vmm\<close>, and from there
  \<open>nvm\<close> and \<open>vfs_state\<close>. Every operation is polymorphic in the rest of the record, so it runs on the states of all components above it.
  A device is a parameter of type \<open>device\<close> that answers each read from the accesses made so far; code of uACPI that the kernel calls is a
  parameter as well. \<^const>\<open>None\<close> stands for a call that does not return (a halt, a loop that does not end) or has no
  defined result (an index out of an array, a store through a null pointer). Loops that may not end are \<open>partial_function (option)\<close>, so
  that they return is always a theorem; loops with a bounded counter are recursive functions with a termination proof. There is no fuel.
  What is printed is left out, except where printing is the subject (\<open>Printf\<close>, and the shell in \<open>Keyboard\<close>).

  \<^bold>\<open>Theories.\<close>

  \<^item> \<open>Prelude\<close>: integer types, memory with loads and stores of 1 to 8 bytes (\<open>ldn\<close>, \<open>stn\<close>), separate ranges, the trace of device accesses.
    \<open>Bytes\<close>: structures as byte images.
  \<^item> \<open>CString\<close> (\<^verbatim>\<open>string/\<close>): the C library; \<open>memmove\<close> for every overlap, \<open>strcmp\<close> as the order of byte strings, \<open>strncpy\<close>.
  \<^item> \<open>Pmm\<close> (\<^verbatim>\<open>mem/pmm.c\<close>): the page allocator. It is first fit over the bitmap; live allocations of every history are disjoint; the bits that
    \<open>init_PMM\<close> leaves uncleared. Its contract is the locale \<open>frame_source\<close>, interpreted as \<open>pf\<close>.
  \<^item> \<open>Paging\<close> (\<^verbatim>\<open>mem/paging.c\<close>): the page tables. The invariant \<open>vm_ok\<close> says that the tables form a tree of distinct allocated frames; \<open>map_page\<close>
    changes the translation of exactly the pages it maps; \<open>initPML4\<close> builds the direct map. The contract is the locale
    \<open>address_space\<close>, interpreted as \<open>as\<close>.
  \<^item> \<open>Kmem\<close> and \<open>KmemHeap\<close> (\<^verbatim>\<open>kmem/\<close>): the heap as a doubly linked list of headers inside memory; the invariant \<open>heap_ok\<close>; in every history
    of allocations, releases and stores live blocks are disjoint and keep their content, and both operations return.
  \<^item> \<open>Spinlock\<close> (\<^verbatim>\<open>processor/spinlock.c\<close>): as a partial function, and as a step relation of several contexts.
  \<^item> \<open>Printf\<close> (\<^verbatim>\<open>stdio/\<close>): \<open>kprintf\<close> and \<open>klog\<close> with their buffers; numerals read back as the argument.
  \<^item> \<open>Vfs\<close> (\<^verbatim>\<open>fs/vfs.c\<close>): the in-memory file system over the heap; it refines a finite map from names to contents (the locale \<open>file_store\<close>,
    interpreted as \<open>vs\<close>).
  \<^item> \<open>Descriptors\<close> (\<^verbatim>\<open>cpu/gdt.c\<close>, \<^verbatim>\<open>cpu/idt.c\<close>, \<^verbatim>\<open>asm/idt.asm\<close>), \<open>Apic\<close> (\<^verbatim>\<open>cpu/apic.c\<close>), \<open>Timer\<close> (\<^verbatim>\<open>cpu/pit.c\<close>, \<^verbatim>\<open>cpu/apic_timer.c\<close>), \<open>Irq\<close> (\<^verbatim>\<open>cpu/irq.c\<close>):
    the descriptor tables and the way of an exception to its handler, the walk over the interrupt table of ACPI, the routing of interrupts, sleeping, and dynamic interrupts, which refine a
    partial map from vectors to handlers.
  \<^item> \<open>PowerControl\<close> (\<^verbatim>\<open>cpu/power.c\<close>, \<^verbatim>\<open>cpu/acpi.c\<close>) and \<open>Keyboard\<close> (\<^verbatim>\<open>drivers/keyboard.c\<close>): power off, the ring of scancodes between the interrupt
    handler and the main loop as a queue under every interleaving, the decoder and the shell.
  \<^item> \<open>Pci\<close> (\<^verbatim>\<open>drivers/x86/pci.c\<close>): configuration space and the scan at boot, which finds exactly the functions that are present.
  \<^item> \<open>Ext2Format\<close>, \<open>Ext2\<close>, \<open>Ext2Layout\<close>, \<open>Ext2Map\<close> (\<^verbatim>\<open>fs/ext2/\<close>): the structures of ext2, mounting, where inodes are read, and that \<open>ext2_bmap\<close> computes
    the same block as a reference walk along the digits of the block number.
  \<^item> \<open>Disk\<close> (\<^verbatim>\<open>drivers/x86/disk.c\<close>): partition tables and what is mounted from them.
  \<^item> \<open>Nvme\<close>, \<open>NvmeQueue\<close>, \<open>NvmePages\<close> (\<^verbatim>\<open>drivers/x86/nvme.c\<close>): the driver; completions are taken in the order in which the controller posts them, waits
    end, and a command names exactly the physical pages of its buffer.
  \<^item> \<open>KernelMemory\<close> (the memory part of \<open>kmain\<close>): page allocator, page tables and heap on one memory. The invariant \<open>kernel_ok\<close> holds after the boot
    and after every sequence of calls and of stores by clients (\<open>kernel_run\<close>).
  \<^item> This theory: what that says of the components together, that none of them changes what another one relies on.

  \<^bold>\<open>Bounds.\<close> The heap has \<open>2 ^ 24\<close> bytes, the file system 100 files with 50 blocks, the ring of scancodes 128 entries, the queues of NVMe 64 entries, the table of mounts
  eight, as in the code. Managed memory is below \<open>2 ^ 40\<close> in \<open>vm_ok\<close>, where it does not matter at which width a compiler shifts the 40-bit field of a page table entry. The example
  states that instantiate the theorems are small machines of a few pages.

  \<^bold>\<open>Not modelled.\<close> uACPI (\<^verbatim>\<open>uacpi/\<close>, \<^verbatim>\<open>include/uacpi/\<close>), an interpreter for the byte code of the firmware, and flanterm
  (\<^verbatim>\<open>flanterm/\<close>), a terminal emulator, are libraries the kernel only calls: what the kernel uses of them are parameters of \<open>PowerControl\<close> and
  \<open>Keyboard\<close>, and the terminal is the string of characters written to it. Of the assembly code
  the stubs of the exceptions are modelled, but not the loading of the descriptor tables and of \<open>cr3\<close> (\<^verbatim>\<open>asm/gdt.asm\<close>, \<^verbatim>\<open>asm/cr3.asm\<close>). The glue
  of \<^verbatim>\<open>cpu/kernel_api.c\<close>, through which uACPI calls back into the kernel, and the self-tests of \<^verbatim>\<open>kmem/ktest.c\<close>, which nothing calls, are left out, as is the set-up of the
  frame buffer in \<^verbatim>\<open>main.c\<close>. \<^verbatim>\<open>include/limine.h\<close> declares the boot protocol; the responses of the boot loader are arguments. Concurrency between processors does
  not arise (one processor runs); the interleaving of interrupt handlers with the main loop is modelled where the code shares data
  with a handler (\<open>Keyboard\<close>, \<open>Timer\<close>, \<open>Spinlock\<close>).
\<close>

section \<open>Heap, pages and page tables\<close>






end
